(* ===== verification/Shatter_Prelude.thy ===== *)
theory Shatter_Prelude
  imports Main "HOL-Library.Word" "HOL-Library.Finite_Map" "HOL-Library.Sublist" "HOL-Library.Multiset"
begin

text \<open>
  Shared vocabulary of the development: names for the machine integers of the Rust
  sources, saturating arithmetic, panics as values, the \<open>HashMap\<close> operations that the
  finite-map library lacks, the ``first maximum'' scan used by the schedulers, and the
  interface \<open>invariant_system\<close> through which every stateful component lifts a
  one-step invariant to all its reachable states.

  Unsigned and signed machine integers are words of their width. Arithmetic on words
  wraps, which is what the release profile of the crates does (the workspace sets no
  \<open>overflow-checks\<close>); \<open>usize\<close> values used only as indices and counters of in-memory
  collections are natural numbers.
\<close>

section \<open>Machine integers\<close>

type_synonym u8 = "8 word"
type_synonym u32 = "32 word"
type_synonym u64 = "64 word"
type_synonym i64 = "64 word"
type_synonym usize = nat

text \<open>Rust's \<open>saturating_add\<close> and \<open>saturating_sub\<close> on unsigned integers.\<close>

definition sat_add :: "'a::len word \<Rightarrow> 'a word \<Rightarrow> 'a word" where
  "sat_add a b = (if uint a + uint b < 2 ^ LENGTH('a) then a + b else - 1)"

definition sat_sub :: "'a::len word \<Rightarrow> 'a word \<Rightarrow> 'a word" where
  "sat_sub a b = (if b \<le> a then a - b else 0)"

lemma unat_sat_add:
  "unat (sat_add a b) = min (unat a + unat b) (2 ^ LENGTH('a) - 1)" for a b :: "'a::len word"
proof -
  have iff: "uint a + uint b < 2 ^ LENGTH('a) \<longleftrightarrow> unat a + unat b < 2 ^ LENGTH('a)"
  proof -
    have "uint a + uint b < 2 ^ LENGTH('a) \<longleftrightarrow> int (unat a + unat b) < int (2 ^ LENGTH('a))" by simp
    then show ?thesis by (simp only: of_nat_less_iff)
  qed
  show ?thesis
  proof (cases "unat a + unat b < 2 ^ LENGTH('a)")
    case True
    then show ?thesis by (simp add: sat_add_def iff unat_word_ariths)
  next
    case False
    then show ?thesis
      by (simp add: sat_add_def iff unsigned_minus_1_eq_mask mask_eq_exp_minus_1)
  qed
qed

lemma unat_sat_sub: "unat (sat_sub a b) = unat a - unat b"
  by (simp add: sat_sub_def unat_sub word_le_nat_alt)

lemma sat_sub_le: "sat_sub a b \<le> a"
  by (simp add: word_le_nat_alt unat_sat_sub)

section \<open>Panics\<close>

text \<open>A computation that may panic returns \<open>Inl\<close> of the panic or \<open>Inr\<close> of its value.\<close>

datatype panic = Panic string

text \<open>
  The same sum type carries Rust's \<open>Result\<close>. The \<open>?\<close> operator is \<open>and_then\<close>: an error is
  returned at once, a value is passed on. \<open>collect\<close> into a \<open>Result\<close> stops at the first error.
\<close>

definition and_then :: "'e + 'a \<Rightarrow> ('a \<Rightarrow> 'e + 'b) \<Rightarrow> 'e + 'b" where
  "and_then r f = (case r of Inl e \<Rightarrow> Inl e | Inr x \<Rightarrow> f x)"

lemma and_then_simps [simp]: "and_then (Inl e) f = Inl e" "and_then (Inr x) f = f x"
  by (simp_all add: and_then_def)

lemma and_then_Inr_iff: "and_then r f = Inr y \<longleftrightarrow> (\<exists>x. r = Inr x \<and> f x = Inr y)"
  by (cases r) auto

lemma and_then_Inl_iff: "and_then r f = Inl e \<longleftrightarrow> r = Inl e \<or> (\<exists>x. r = Inr x \<and> f x = Inl e)"
  by (cases r) auto

fun collect_results :: "('e + 'a) list \<Rightarrow> 'e + 'a list" where
  "collect_results [] = Inr []"
| "collect_results (r # rs) = and_then r (\<lambda>x. and_then (collect_results rs) (\<lambda>xs. Inr (x # xs)))"

lemma collect_results_Inr: "collect_results rs = Inr xs \<longleftrightarrow> rs = map Inr xs"
  by (induction rs arbitrary: xs) (auto simp: and_then_Inr_iff)

section \<open>Hash maps\<close>

text \<open>
  A \<open>HashMap\<close> is a finite map. \<open>HashMap::retain\<close> keeps the entries whose key and value
  satisfy a predicate.
\<close>

definition fm_retain :: "('k \<Rightarrow> 'v \<Rightarrow> bool) \<Rightarrow> ('k, 'v) fmap \<Rightarrow> ('k, 'v) fmap" where
  "fm_retain P m = fmfilter (\<lambda>k. case fmlookup m k of None \<Rightarrow> False | Some v \<Rightarrow> P k v) m"

lemma fmlookup_retain [simp]:
  "fmlookup (fm_retain P m) k =
     (case fmlookup m k of None \<Rightarrow> None | Some v \<Rightarrow> if P k v then Some v else None)"
  by (simp add: fm_retain_def split: option.splits)

definition fm_get_or :: "('k, 'v) fmap \<Rightarrow> 'k \<Rightarrow> 'v \<Rightarrow> 'v" where
  "fm_get_or m k d = (case fmlookup m k of None \<Rightarrow> d | Some v \<Rightarrow> v)"

lemma fm_get_or_upd [simp]:
  "fm_get_or (fmupd k v m) k' d = (if k = k' then v else fm_get_or m k' d)"
  by (simp add: fm_get_or_def)

lemma fm_get_or_drop [simp]:
  "fm_get_or (fmdrop k m) k' d = (if k = k' then d else fm_get_or m k' d)"
  by (simp add: fm_get_or_def)

lemma fm_get_or_empty [simp]: "fm_get_or fmempty k d = d"
  by (simp add: fm_get_or_def)

text \<open>A \<open>BTreeMap\<close> is a finite map too; it is iterated in the order of its keys.\<close>

definition btree_keys :: "('k::linorder, 'v) fmap \<Rightarrow> 'k list" where
  "btree_keys m = sorted_list_of_fset (fmdom m)"

lemma set_btree_keys [simp]: "set (btree_keys m) = fmdom' m"
  by (simp add: btree_keys_def sorted_list_of_fset.rep_eq fmdom'_alt_def)

lemma btree_keys_eqI: "sorted ks \<Longrightarrow> distinct ks \<Longrightarrow> set ks = fmdom' m \<Longrightarrow> btree_keys m = ks"
  by (metis btree_keys_def fmdom'_alt_def sorted_list_of_fset.rep_eq sorted_list_of_set.idem_if_sorted_distinct)

lemma distinct_btree_keys [simp]: "distinct (btree_keys m)"
  by (simp add: btree_keys_def sorted_list_of_fset.rep_eq)

lemma fmdom'_iff: "k \<in> fmdom' m \<longleftrightarrow> (\<exists>v. fmlookup m k = Some v)"
  by (auto simp: fmlookup_dom'_iff)

text \<open>The sum of a measure over the values of a map.\<close>

definition fm_sum :: "('v \<Rightarrow> nat) \<Rightarrow> ('k, 'v) fmap \<Rightarrow> nat" where
  "fm_sum f m = (\<Sum>k \<in> fmdom' m. case fmlookup m k of None \<Rightarrow> 0 | Some v \<Rightarrow> f v)"

lemma fm_sum_empty [simp]: "fm_sum f fmempty = 0"
  by (simp add: fm_sum_def)

lemma fm_sum_drop:
  assumes "fmlookup m k = Some v"
  shows "fm_sum f m = f v + fm_sum f (fmdrop k m)"
proof -
  have "k \<in> fmdom' m" using assms by (rule fmdom'I)
  then have "fm_sum f m = f v + (\<Sum>j \<in> fmdom' m - {k}. case fmlookup m j of None \<Rightarrow> 0 | Some v \<Rightarrow> f v)"
    unfolding fm_sum_def by (subst sum.remove [of _ k]) (simp_all add: assms)
  also have "(\<Sum>j \<in> fmdom' m - {k}. case fmlookup m j of None \<Rightarrow> 0 | Some v \<Rightarrow> f v) = fm_sum f (fmdrop k m)"
    unfolding fm_sum_def by (rule sum.cong) auto
  finally show ?thesis .
qed

lemma fm_sum_upd_new:
  assumes "fmlookup m k = None"
  shows "fm_sum f (fmupd k v m) = f v + fm_sum f m"
proof -
  have "fmdrop k (fmupd k v m) = m"
    using assms by (simp add: fmdrop_fmupd_same fmdrop_idle' fmdom'_notI)
  then show ?thesis
    using fm_sum_drop [of "fmupd k v m" k v f] by simp
qed

section \<open>The first maximum of a list\<close>

text \<open>
  A left-to-right scan that replaces the current best only by a strictly larger one, so
  ties keep the earliest position.
\<close>

fun max_scan :: "('a \<Rightarrow> 'b::linorder) \<Rightarrow> nat \<Rightarrow> (nat \<times> 'b) option \<Rightarrow> 'a list \<Rightarrow> (nat \<times> 'b) option" where
  "max_scan key i acc [] = acc"
| "max_scan key i acc (x # xs) =
     max_scan key (Suc i)
       (case acc of
          None \<Rightarrow> Some (i, key x)
        | Some (j, best) \<Rightarrow> if key x > best then Some (i, key x) else Some (j, best)) xs"

lemma max_scan_Some:
  "\<exists>j b. max_scan key i (Some p) xs = Some (j, b)"
  by (induction xs arbitrary: i p) (auto split: prod.splits)

lemma max_scan_None_iff: "max_scan key i None xs = None \<longleftrightarrow> xs = []"
proof (cases xs)
  case (Cons x ys)
  then show ?thesis
    using max_scan_Some [of key "Suc i" "(i, key x)" ys] by auto
qed simp

lemma max_scan_acc:
  assumes "max_scan key i (Some (j0, b0)) xs = Some (j, b)"
  shows "(j = j0 \<and> b = b0 \<and> (\<forall>x \<in> set xs. key x \<le> b0)) \<or>
         (i \<le> j \<and> j - i < length xs \<and> b = key (xs ! (j - i)) \<and> b0 < b \<and>
          (\<forall>x \<in> set xs. key x \<le> b) \<and> (\<forall>n < j - i. key (xs ! n) < b))"
  using assms
proof (induction xs arbitrary: i j0 b0)
  case Nil
  then show ?case by simp
next
  case (Cons x xs)
  show ?case
  proof (cases "key x > b0")
    case True
    with Cons.prems have *: "max_scan key (Suc i) (Some (i, key x)) xs = Some (j, b)" by simp
    from Cons.IH [OF this] show ?thesis
    proof
      assume "j = i \<and> b = key x \<and> (\<forall>y \<in> set xs. key y \<le> key x)"
      with True show ?thesis by auto
    next
      assume A: "Suc i \<le> j \<and> j - Suc i < length xs \<and> b = key (xs ! (j - Suc i)) \<and> key x < b \<and>
        (\<forall>y \<in> set xs. key y \<le> b) \<and> (\<forall>n < j - Suc i. key (xs ! n) < b)"
      then have idx: "j - i = Suc (j - Suc i)" by auto
      from A have "\<forall>n < j - i. key ((x # xs) ! n) < b"
        unfolding idx by (auto simp: less_Suc_eq_0_disj)
      with A True idx show ?thesis by auto
    qed
  next
    case False
    with Cons.prems have *: "max_scan key (Suc i) (Some (j0, b0)) xs = Some (j, b)" by simp
    from Cons.IH [OF this] show ?thesis
    proof
      assume "j = j0 \<and> b = b0 \<and> (\<forall>y \<in> set xs. key y \<le> b0)"
      with False show ?thesis by auto
    next
      assume A: "Suc i \<le> j \<and> j - Suc i < length xs \<and> b = key (xs ! (j - Suc i)) \<and> b0 < b \<and>
        (\<forall>y \<in> set xs. key y \<le> b) \<and> (\<forall>n < j - Suc i. key (xs ! n) < b)"
      then have idx: "j - i = Suc (j - Suc i)" by auto
      from A False have "\<forall>n < j - i. key ((x # xs) ! n) < b"
        unfolding idx by (auto simp: less_Suc_eq_0_disj)
      with A False idx show ?thesis by auto
    qed
  qed
qed

lemma max_scan_correct:
  assumes "max_scan key 0 None xs = Some (j, b)"
  shows "j < length xs" and "b = key (xs ! j)"
    and "\<forall>x \<in> set xs. key x \<le> b" and "\<forall>n < j. key (xs ! n) < b"
proof -
  obtain x ys where xs: "xs = x # ys"
    using assms by (cases xs) auto
  with assms have "max_scan key (Suc 0) (Some (0, key x)) ys = Some (j, b)" by simp
  from max_scan_acc [OF this] have
    "j < length xs \<and> b = key (xs ! j) \<and> (\<forall>x \<in> set xs. key x \<le> b) \<and> (\<forall>n < j. key (xs ! n) < b)"
  proof
    assume "j = 0 \<and> b = key x \<and> (\<forall>y \<in> set ys. key y \<le> key x)"
    with xs show ?thesis by auto
  next
    assume A: "Suc 0 \<le> j \<and> j - Suc 0 < length ys \<and> b = key (ys ! (j - Suc 0)) \<and> key x < b \<and>
      (\<forall>y \<in> set ys. key y \<le> b) \<and> (\<forall>n < j - Suc 0. key (ys ! n) < b)"
    then obtain j' where j': "j = Suc j'" by (cases j) auto
    with A xs show ?thesis by (auto simp: less_Suc_eq_0_disj)
  qed
  then show "j < length xs" and "b = key (xs ! j)"
    and "\<forall>x \<in> set xs. key x \<le> b" and "\<forall>n < j. key (xs ! n) < b" by auto
qed

section \<open>Removing one position of a list\<close>

text \<open>\<open>VecDeque::remove\<close> and \<open>Vec::remove\<close> at a valid index.\<close>

definition remove_nth :: "nat \<Rightarrow> 'a list \<Rightarrow> 'a list" where
  "remove_nth i xs = take i xs @ drop (Suc i) xs"

lemma mset_remove_nth:
  "i < length xs \<Longrightarrow> mset xs = add_mset (xs ! i) (mset (remove_nth i xs))"
proof -
  assume "i < length xs"
  then have "xs = take i xs @ xs ! i # drop (Suc i) xs" by (rule id_take_nth_drop)
  then have "mset xs = mset (take i xs @ xs ! i # drop (Suc i) xs)" by simp
  then show ?thesis by (simp add: remove_nth_def)
qed

lemma set_remove_nth_distinct:
  assumes "distinct (map f xs)" and "i < length xs"
  shows "f ` set (remove_nth i xs) = f ` set xs - {f (xs ! i)}"
    and "distinct (map f (remove_nth i xs))"
proof -
  have split: "xs = take i xs @ xs ! i # drop (Suc i) xs"
    using assms(2) by (rule id_take_nth_drop)
  then have "map f xs = map f (take i xs) @ f (xs ! i) # map f (drop (Suc i) xs)"
    by (metis list.simps(9) map_append)
  with assms(1) have d: "distinct (map f (take i xs) @ f (xs ! i) # map f (drop (Suc i) xs))"
    by simp
  then show "distinct (map f (remove_nth i xs))"
    by (simp add: remove_nth_def)
  have "f ` set xs = f ` set (take i xs) \<union> {f (xs ! i)} \<union> f ` set (drop (Suc i) xs)"
    by (subst split) auto
  with d show "f ` set (remove_nth i xs) = f ` set xs - {f (xs ! i)}"
    by (auto simp: remove_nth_def)
qed

lemma length_remove_nth: "i < length xs \<Longrightarrow> length (remove_nth i xs) = length xs - 1"
  by (simp add: remove_nth_def)

lemma set_remove_nth_subset: "set (remove_nth i xs) \<subseteq> set xs"
  by (auto simp: remove_nth_def dest: in_set_takeD in_set_dropD)

text \<open>\<open>Iterator::position\<close>.\<close>

fun position :: "('a \<Rightarrow> bool) \<Rightarrow> 'a list \<Rightarrow> nat option" where
  "position P [] = None"
| "position P (x # xs) = (if P x then Some 0 else map_option Suc (position P xs))"

lemma position_Some: "position P xs = Some i \<Longrightarrow> i < length xs \<and> P (xs ! i)"
  by (induction xs arbitrary: i) (auto split: if_splits)

lemma position_None: "position P xs = None \<longleftrightarrow> (\<forall>x \<in> set xs. \<not> P x)"
  by (induction xs) auto

lemma set_map_filter: "y \<in> set (List.map_filter f xs) \<longleftrightarrow> (\<exists>x\<in>set xs. f x = Some y)"
  by (force simp: List.map_filter_def image_iff)

lemma map_filter_Nil: "List.map_filter f xs = [] \<longleftrightarrow> (\<forall>x\<in>set xs. f x = None)"
  by (auto simp: List.map_filter_def filter_empty_conv)

lemma find_append: "find P (xs @ ys) = (case find P xs of None \<Rightarrow> find P ys | Some x \<Rightarrow> Some x)"
  by (induction xs) auto

section \<open>Invariants of state machines\<close>

text \<open>
  The contract between a component's operations and its invariant: the initial states
  satisfy it and each step keeps it. Whatever provides the laws gets the invariant in
  every reachable state.
\<close>

locale invariant_system =
  fixes init :: "'s \<Rightarrow> bool" and step :: "'s \<Rightarrow> 's \<Rightarrow> bool" and inv :: "'s \<Rightarrow> bool"
  assumes inv_init: "init s \<Longrightarrow> inv s"
    and inv_step: "inv s \<Longrightarrow> step s t \<Longrightarrow> inv t"
begin

lemma inv_steps: "step\<^sup>*\<^sup>* s t \<Longrightarrow> inv s \<Longrightarrow> inv t"
  by (induction rule: rtranclp_induct) (auto intro: inv_step)

lemma inv_reachable: "init s \<Longrightarrow> step\<^sup>*\<^sup>* s t \<Longrightarrow> inv t"
  by (auto intro: inv_steps inv_init)

end

end
