(* ===== verification/Batch_Scheduler.thy ===== *)
theory Batch_Scheduler
  imports Shatter_Prelude
begin

text \<open>
  The rank-ordered batch scheduler with worker leasing of
  \<open>shatter-core/src/batch_scheduler.rs\<close>. The state is the record \<open>batch_scheduler\<close>;
  every public operation of the Rust type is one definition. The lemmas show that
  each function is in at most one place (queued or leased), that leases are exclusive, how the
  next batch is selected, that budgets are respected and that work enqueued for a
  leased function is never lost; the scheduler refines a small per-function
  lease protocol.
\<close>

section \<open>Data\<close>

definition DEFAULT_BATCH_SIZE :: u32 where
  "DEFAULT_BATCH_SIZE = 50"

definition COOLDOWN_PENALTY :: i64 where
  "COOLDOWN_PENALTY = 3"

definition MISS_PENALTY_PER_STREAK :: i64 where
  "MISS_PENALTY_PER_STREAK = 2"

record batch_config =
  bc_task_index :: usize
  bc_batch_size :: u32
  bc_batch_number :: u32

record coverage_counts =
  cc_total_branches :: usize
  cc_covered :: usize
  cc_z3_solved :: usize
  cc_random_found :: usize
  cc_user_provided :: usize
  cc_uncovered :: usize

record worker_batch_summary =
  wbs_executions_run :: u32
  wbs_coverage_before :: coverage_counts
  wbs_coverage_after :: coverage_counts
  wbs_uncovered_remaining :: usize
  wbs_new_classes :: usize
  wbs_new_retained_inputs :: usize
  wbs_failures :: usize

record batch_outcome =
  bo_task_index :: usize
  bo_iterations_used :: u32
  bo_exhausted :: bool
  bo_rank :: i64
  bo_summary :: "worker_batch_summary option"

datatype enqueue_result = Queued | Deferred | Merged

record sched_entry =
  e_task_index :: usize
  e_remaining :: "u32 option"
  e_batches_completed :: u32
  e_rank :: i64

record batch_scheduler =
  bs_queue :: "sched_entry list"
  bs_batch_size :: u32
  bs_in_flight :: "(usize, sched_entry) fmap"
  bs_deferred :: "(usize, u32 option) fmap"
  bs_cooldown :: "(usize, i64) fmap"
  bs_miss_streak :: "(usize, u32) fmap"

section \<open>Operations\<close>

text \<open>\<open>None\<close> is an unbounded budget and absorbs; two bounds are added, saturating.\<close>

fun merge_budgets :: "u32 option \<Rightarrow> u32 option \<Rightarrow> u32 option" where
  "merge_budgets None _ = None"
| "merge_budgets _ None = None"
| "merge_budgets (Some x) (Some y) = Some (sat_add x y)"

definition fresh_entry :: "usize \<Rightarrow> u32 option \<Rightarrow> sched_entry" where
  "fresh_entry i budget =
     \<lparr>e_task_index = i, e_remaining = budget, e_batches_completed = 0, e_rank = 0\<rparr>"

definition sched_new :: "usize \<Rightarrow> u32 option \<Rightarrow> u32 \<Rightarrow> batch_scheduler" where
  "sched_new task_count per_function_budget batch_size =
     \<lparr>bs_queue = map (\<lambda>i. fresh_entry i per_function_budget) [0..<task_count],
      bs_batch_size = batch_size,
      bs_in_flight = fmempty, bs_deferred = fmempty,
      bs_cooldown = fmempty, bs_miss_streak = fmempty\<rparr>"

definition with_individual_budgets :: "u32 option list \<Rightarrow> u32 \<Rightarrow> batch_scheduler" where
  "with_individual_budgets budgets batch_size =
     \<lparr>bs_queue = map (\<lambda>(i, budget). fresh_entry i budget) (enumerate 0 budgets),
      bs_batch_size = batch_size,
      bs_in_flight = fmempty, bs_deferred = fmempty,
      bs_cooldown = fmempty, bs_miss_streak = fmempty\<rparr>"

definition cooldown_score :: "batch_scheduler \<Rightarrow> usize \<Rightarrow> i64" where
  "cooldown_score s t = fm_get_or (bs_cooldown s) t 0"

definition attempt_penalty :: "batch_scheduler \<Rightarrow> usize \<Rightarrow> i64" where
  "attempt_penalty s t = ucast (fm_get_or (bs_miss_streak s) t 0) * MISS_PENALTY_PER_STREAK"

text \<open>The quantity that the selection scan of \<open>next_batch\<close> compares.\<close>

definition effective_rank :: "batch_scheduler \<Rightarrow> sched_entry \<Rightarrow> i64" where
  "effective_rank s e =
     e_rank e - cooldown_score s (e_task_index e) - attempt_penalty s (e_task_index e)"

definition batch_iters :: "batch_scheduler \<Rightarrow> sched_entry \<Rightarrow> u32" where
  "batch_iters s e =
     (case e_remaining e of Some r \<Rightarrow> min r (bs_batch_size s) | None \<Rightarrow> bs_batch_size s)"

definition next_batch :: "batch_scheduler \<Rightarrow> batch_config option \<times> batch_scheduler" where
  "next_batch s =
     (let s1 = s\<lparr>bs_queue := filter (\<lambda>e. e_remaining e \<noteq> Some 0) (bs_queue s)\<rparr>
      in case max_scan (\<lambda>e. sint (effective_rank s1 e)) 0 None (bs_queue s1) of
           None \<Rightarrow> (None, s1)
         | Some (i, _) \<Rightarrow>
             let e = bs_queue s1 ! i
             in (Some \<lparr>bc_task_index = e_task_index e,
                       bc_batch_size = batch_iters s1 e,
                       bc_batch_number = e_batches_completed e\<rparr>,
                 s1\<lparr>bs_queue := remove_nth i (bs_queue s1),
                    bs_in_flight := fmupd (e_task_index e) e (bs_in_flight s1)\<rparr>))"

text \<open>
  The cooldown decay of \<open>record_outcome\<close>: every penalty goes down by one and only the
  positive ones stay.
\<close>

definition decay_cooldowns :: "(usize, i64) fmap \<Rightarrow> (usize, i64) fmap" where
  "decay_cooldowns m = fm_retain (\<lambda>_ penalty. 0 < sint penalty) (fmmap (\<lambda>penalty. penalty - 1) m)"

definition is_miss :: "batch_outcome \<Rightarrow> bool" where
  "is_miss out =
     (case bo_summary out of
        Some s \<Rightarrow> cc_covered (wbs_coverage_after s) = cc_covered (wbs_coverage_before s) \<and> wbs_new_classes s = 0
      | None \<Rightarrow> bo_rank out = 0)"

text \<open>The budget deduction at the start of \<open>record_outcome\<close>.\<close>

definition charge_entry :: "sched_entry \<Rightarrow> batch_outcome \<Rightarrow> sched_entry" where
  "charge_entry e out =
     e\<lparr>e_batches_completed := e_batches_completed e + 1,
       e_remaining := map_option (\<lambda>r. sat_sub r (bo_iterations_used out)) (e_remaining e)\<rparr>"

text \<open>
  \<open>record_outcome\<close> releases the lease. The three ways on are: deferred work arrived
  (re-enqueue afresh), the function is done (drop it), or it is re-enqueued with the
  rank of the outcome, a fresh cooldown and an updated miss streak.
\<close>

definition record_outcome :: "batch_scheduler \<Rightarrow> batch_outcome \<Rightarrow> panic + batch_scheduler" where
  "record_outcome s out =
     (let t = bo_task_index out in
      case fmlookup (bs_in_flight s) t of
        None \<Rightarrow> Inl (Panic ''record_outcome called for a task_index that is not in flight'')
      | Some e0 \<Rightarrow>
          let e = charge_entry e0 out;
              s1 = s\<lparr>bs_in_flight := fmdrop t (bs_in_flight s),
                     bs_deferred := fmdrop t (bs_deferred s)\<rparr>
          in case fmlookup (bs_deferred s) t of
               Some def_budget \<Rightarrow>
                 Inr (s1\<lparr>bs_cooldown := decay_cooldowns (fmdrop t (bs_cooldown s)),
                         bs_miss_streak := fmdrop t (bs_miss_streak s),
                         bs_queue := bs_queue s @
                           [e\<lparr>e_remaining := merge_budgets (e_remaining e) def_budget,
                              e_batches_completed := 0, e_rank := 0\<rparr>]\<rparr>)
             | None \<Rightarrow>
                 if bo_exhausted out \<or> e_remaining e = Some 0
                 then Inr (s1\<lparr>bs_cooldown := fmdrop t (decay_cooldowns (bs_cooldown s)),
                              bs_miss_streak := fmdrop t (bs_miss_streak s)\<rparr>)
                 else Inr (s1\<lparr>bs_miss_streak :=
                                (if is_miss out
                                 then fmupd t (fm_get_or (bs_miss_streak s) t 0 + 1) (bs_miss_streak s)
                                 else fmdrop t (bs_miss_streak s)),
                              bs_cooldown := fmupd t COOLDOWN_PENALTY (decay_cooldowns (bs_cooldown s)),
                              bs_queue := bs_queue s @ [e\<lparr>e_rank := bo_rank out\<rparr>]\<rparr>))"

text \<open>\<open>iter_mut().find\<close>: the first queue entry of the function, updated in place.\<close>

fun merge_into_queue :: "usize \<Rightarrow> u32 option \<Rightarrow> sched_entry list \<Rightarrow> sched_entry list option" where
  "merge_into_queue t budget [] = None"
| "merge_into_queue t budget (e # es) =
     (if e_task_index e = t
      then Some (e\<lparr>e_remaining := merge_budgets (e_remaining e) budget\<rparr> # es)
      else map_option ((#) e) (merge_into_queue t budget es))"

definition enqueue :: "batch_scheduler \<Rightarrow> usize \<Rightarrow> u32 option \<Rightarrow> enqueue_result \<times> batch_scheduler" where
  "enqueue s t budget =
     (if fmlookup (bs_in_flight s) t \<noteq> None
      then (let merged = (case fmlookup (bs_deferred s) t of
                            Some existing_budget \<Rightarrow> merge_budgets existing_budget budget
                          | None \<Rightarrow> budget)
            in (Deferred, s\<lparr>bs_deferred := fmupd t merged (bs_deferred s)\<rparr>))
      else case merge_into_queue t budget (bs_queue s) of
             Some q \<Rightarrow> (Merged, s\<lparr>bs_queue := q\<rparr>)
           | None \<Rightarrow> (Queued, s\<lparr>bs_queue := bs_queue s @ [fresh_entry t budget]\<rparr>))"

definition sched_is_complete :: "batch_scheduler \<Rightarrow> bool" where
  "sched_is_complete s \<longleftrightarrow>
     fmdom (bs_in_flight s) = {||} \<and> bs_queue s = [] \<and> fmdom (bs_deferred s) = {||}"

definition pending_count :: "batch_scheduler \<Rightarrow> usize" where
  "pending_count s = length (bs_queue s)"

definition in_flight_count :: "batch_scheduler \<Rightarrow> usize" where
  "in_flight_count s = fcard (fmdom (bs_in_flight s))"

definition is_leased :: "batch_scheduler \<Rightarrow> usize \<Rightarrow> bool" where
  "is_leased s t \<longleftrightarrow> fmlookup (bs_in_flight s) t \<noteq> None"

definition deferred_count :: "batch_scheduler \<Rightarrow> usize" where
  "deferred_count s = fcard (fmdom (bs_deferred s))"

definition queued_indices :: "batch_scheduler \<Rightarrow> usize list" where
  "queued_indices s = map e_task_index (bs_queue s)"

definition in_flight_indices :: "batch_scheduler \<Rightarrow> usize fset" where
  "in_flight_indices s = fmdom (bs_in_flight s)"

definition revisited_entry :: "sched_entry \<Rightarrow> bool" where
  "revisited_entry e \<longleftrightarrow> e_batches_completed e > 0 \<and> sint (e_rank e) \<le> 0"

definition is_frontier_exhausted :: "batch_scheduler \<Rightarrow> bool" where
  "is_frontier_exhausted s \<longleftrightarrow>
     (if bs_queue s = [] \<and> fmdom (bs_in_flight s) = {||} then False
      else if fmdom (bs_deferred s) \<noteq> {||} then False
      else list_all revisited_entry (bs_queue s) \<and>
           fmpred (\<lambda>_. revisited_entry) (bs_in_flight s))"

section \<open>The abstract lease protocol\<close>

text \<open>
  What the scheduler promises for one function, forgetting order and ranks: the
  function is idle, waiting with a budget, or leased to a worker with the budget it was
  leased at and the budget deferred for it meanwhile.
\<close>

datatype task_state =
    Idle
  | Waiting "u32 option"
  | Leased "u32 option" "u32 option option"

fun drop_spent :: "task_state \<Rightarrow> task_state" where
  "drop_spent (Waiting b) = (if b = Some 0 then Idle else Waiting b)"
| "drop_spent x = x"

fun request_task :: "u32 option \<Rightarrow> task_state \<Rightarrow> task_state" where
  "request_task budget Idle = Waiting budget"
| "request_task budget (Waiting b) = Waiting (merge_budgets b budget)"
| "request_task budget (Leased b None) = Leased b (Some budget)"
| "request_task budget (Leased b (Some d)) = Leased b (Some (merge_budgets d budget))"

definition charge_budget :: "u32 \<Rightarrow> u32 option \<Rightarrow> u32 option" where
  "charge_budget used = map_option (\<lambda>r. sat_sub r used)"

fun release_task :: "u32 \<Rightarrow> bool \<Rightarrow> task_state \<Rightarrow> task_state" where
  "release_task used exhausted (Leased b (Some d)) =
     Waiting (merge_budgets (charge_budget used b) d)"
| "release_task used exhausted (Leased b None) =
     (if exhausted \<or> charge_budget used b = Some 0 then Idle else Waiting (charge_budget used b))"
| "release_task used exhausted x = x"

definition task_view :: "batch_scheduler \<Rightarrow> usize \<Rightarrow> task_state" where
  "task_view s t =
     (case fmlookup (bs_in_flight s) t of
        Some e \<Rightarrow> Leased (e_remaining e) (fmlookup (bs_deferred s) t)
      | None \<Rightarrow>
          (case find (\<lambda>e. e_task_index e = t) (bs_queue s) of
             Some e \<Rightarrow> Waiting (e_remaining e)
           | None \<Rightarrow> Idle))"

section \<open>The scheduler invariant\<close>

text \<open>
  A function has at most one queue entry and is never queued while leased; leases are
  keyed by their own function; deferred budgets exist only for leased functions; active
  cooldowns are between one and the fresh penalty.
\<close>

definition cooldowns_ok :: "(usize, i64) fmap \<Rightarrow> bool" where
  "cooldowns_ok m \<longleftrightarrow> fmpred (\<lambda>_ p. p \<in> {1, 2, 3}) m"

definition sched_inv :: "batch_scheduler \<Rightarrow> bool" where
  "sched_inv s \<longleftrightarrow>
     distinct (queued_indices s) \<and>
     (\<forall>e \<in> set (bs_queue s). fmlookup (bs_in_flight s) (e_task_index e) = None) \<and>
     (\<forall>t e. fmlookup (bs_in_flight s) t = Some e \<longrightarrow> e_task_index e = t) \<and>
     (\<forall>t. fmlookup (bs_in_flight s) t = None \<longrightarrow> fmlookup (bs_deferred s) t = None) \<and>
     cooldowns_ok (bs_cooldown s)"

definition sched_init :: "batch_scheduler \<Rightarrow> bool" where
  "sched_init s \<longleftrightarrow>
     (\<exists>n budget size. s = sched_new n budget size) \<or>
     (\<exists>budgets size. s = with_individual_budgets budgets size)"

inductive sched_step :: "batch_scheduler \<Rightarrow> batch_scheduler \<Rightarrow> bool" where
  step_next: "sched_step s (snd (next_batch s))"
| step_outcome: "record_outcome s out = Inr s' \<Longrightarrow> sched_step s s'"
| step_enqueue: "sched_step s (snd (enqueue s t budget))"

lemma merge_budgets_None [simp]: "merge_budgets b None = None"
  by (cases b) auto

lemma fresh_entry_simps [simp]:
  "e_task_index (fresh_entry i b) = i" "e_remaining (fresh_entry i b) = b"
  "e_rank (fresh_entry i b) = 0" "e_batches_completed (fresh_entry i b) = 0"
  by (simp_all add: fresh_entry_def)

lemma charge_entry_simps [simp]:
  "e_task_index (charge_entry e out) = e_task_index e"
  "e_remaining (charge_entry e out) = charge_budget (bo_iterations_used out) (e_remaining e)"
  by (simp_all add: charge_entry_def charge_budget_def)

lemma cooldowns_ok_intros [intro]:
  "cooldowns_ok m \<Longrightarrow> cooldowns_ok (fmdrop t m)"
  "cooldowns_ok m \<Longrightarrow> cooldowns_ok (decay_cooldowns m)"
  "cooldowns_ok m \<Longrightarrow> cooldowns_ok (fmupd t COOLDOWN_PENALTY m)"
  "cooldowns_ok fmempty"
  by (fastforce simp: cooldowns_ok_def fmpred_iff decay_cooldowns_def COOLDOWN_PENALTY_def
      split: option.splits if_splits)+

lemma merge_into_queue_indices:
  "merge_into_queue t b q = Some q' \<Longrightarrow> map e_task_index q' = map e_task_index q"
  by (induction q arbitrary: q') (auto split: if_splits)

lemma merge_into_queue_image:
  "merge_into_queue t b q = Some q' \<Longrightarrow> e_task_index ` set q' = e_task_index ` set q"
  by (metis merge_into_queue_indices set_map)

lemma merge_into_queue_None_iff:
  "merge_into_queue t b q = None \<longleftrightarrow> t \<notin> e_task_index ` set q"
  by (induction q) auto

text \<open>What \<open>next_batch\<close> returns, as one elimination rule.\<close>

definition live_queue :: "batch_scheduler \<Rightarrow> sched_entry list" where
  "live_queue s = filter (\<lambda>e. e_remaining e \<noteq> Some 0) (bs_queue s)"

lemma effective_rank_queue [simp]:
  "effective_rank (s\<lparr>bs_queue := q\<rparr>) = effective_rank s"
  by (rule ext) (simp add: effective_rank_def cooldown_score_def attempt_penalty_def)

lemma batch_iters_queue [simp]: "batch_iters (s\<lparr>bs_queue := q\<rparr>) = batch_iters s"
  by (rule ext) (simp add: batch_iters_def split: option.splits)

lemma next_batch_None:
  "next_batch s = (None, s') \<longleftrightarrow> live_queue s = [] \<and> s' = s\<lparr>bs_queue := []\<rparr>"
  by (auto simp: next_batch_def live_queue_def Let_def max_scan_None_iff split: option.splits)

lemma next_batch_Some:
  assumes "next_batch s = (Some c, s')"
  obtains i e where "i < length (live_queue s)" and "e = live_queue s ! i"
    and "\<forall>x \<in> set (live_queue s). sint (effective_rank s x) \<le> sint (effective_rank s e)"
    and "\<forall>n < i. sint (effective_rank s (live_queue s ! n)) < sint (effective_rank s e)"
    and "c = \<lparr>bc_task_index = e_task_index e, bc_batch_size = batch_iters s e,
              bc_batch_number = e_batches_completed e\<rparr>"
    and "s' = s\<lparr>bs_queue := remove_nth i (live_queue s),
                bs_in_flight := fmupd (e_task_index e) e (bs_in_flight s)\<rparr>"
proof -
  obtain i b where scan: "max_scan (\<lambda>e. sint (effective_rank s e)) 0 None (live_queue s) = Some (i, b)"
    using assms by (auto simp: next_batch_def live_queue_def Let_def split: option.splits)
  note scanned = max_scan_correct [OF scan]
  have c: "c = \<lparr>bc_task_index = e_task_index (live_queue s ! i), bc_batch_size = batch_iters s (live_queue s ! i),
              bc_batch_number = e_batches_completed (live_queue s ! i)\<rparr>"
    and s': "s' = s\<lparr>bs_queue := remove_nth i (live_queue s),
                bs_in_flight := fmupd (e_task_index (live_queue s ! i)) (live_queue s ! i) (bs_in_flight s)\<rparr>"
    using assms scan by (auto simp: next_batch_def live_queue_def Let_def)
  show thesis
    by (rule that [OF scanned(1) refl _ _ c s']) (use scanned in auto)
qed

lemma live_queue_indices:
  "distinct (queued_indices s) \<Longrightarrow> distinct (map e_task_index (live_queue s))"
  "e_task_index ` set (live_queue s) \<subseteq> set (queued_indices s)"
  by (auto simp: live_queue_def queued_indices_def intro: distinct_map_filter)

lemma record_outcome_Inr:
  assumes "record_outcome s out = Inr s'"
  obtains (deferred) e0 d where "fmlookup (bs_in_flight s) (bo_task_index out) = Some e0"
      and "fmlookup (bs_deferred s) (bo_task_index out) = Some d"
      and "s' = s\<lparr>bs_in_flight := fmdrop (bo_task_index out) (bs_in_flight s),
                  bs_deferred := fmdrop (bo_task_index out) (bs_deferred s),
                  bs_cooldown := decay_cooldowns (fmdrop (bo_task_index out) (bs_cooldown s)),
                  bs_miss_streak := fmdrop (bo_task_index out) (bs_miss_streak s),
                  bs_queue := bs_queue s @
                    [(charge_entry e0 out)\<lparr>
                       e_remaining := merge_budgets (charge_budget (bo_iterations_used out) (e_remaining e0)) d,
                       e_batches_completed := 0, e_rank := 0\<rparr>]\<rparr>"
  | (dropped) e0 where "fmlookup (bs_in_flight s) (bo_task_index out) = Some e0"
      and "fmlookup (bs_deferred s) (bo_task_index out) = None"
      and "bo_exhausted out \<or> charge_budget (bo_iterations_used out) (e_remaining e0) = Some 0"
      and "s' = s\<lparr>bs_in_flight := fmdrop (bo_task_index out) (bs_in_flight s),
                  bs_deferred := fmdrop (bo_task_index out) (bs_deferred s),
                  bs_cooldown := fmdrop (bo_task_index out) (decay_cooldowns (bs_cooldown s)),
                  bs_miss_streak := fmdrop (bo_task_index out) (bs_miss_streak s)\<rparr>"
  | (requeued) e0 streaks where "fmlookup (bs_in_flight s) (bo_task_index out) = Some e0"
      and "fmlookup (bs_deferred s) (bo_task_index out) = None"
      and "\<not> bo_exhausted out"
      and "charge_budget (bo_iterations_used out) (e_remaining e0) \<noteq> Some 0"
      and "streaks = (if is_miss out
                      then fmupd (bo_task_index out) (fm_get_or (bs_miss_streak s) (bo_task_index out) 0 + 1)
                             (bs_miss_streak s)
                      else fmdrop (bo_task_index out) (bs_miss_streak s))"
      and "s' = s\<lparr>bs_in_flight := fmdrop (bo_task_index out) (bs_in_flight s),
                  bs_deferred := fmdrop (bo_task_index out) (bs_deferred s),
                  bs_miss_streak := streaks,
                  bs_cooldown := fmupd (bo_task_index out) COOLDOWN_PENALTY (decay_cooldowns (bs_cooldown s)),
                  bs_queue := bs_queue s @ [(charge_entry e0 out)\<lparr>e_rank := bo_rank out\<rparr>]\<rparr>"
  using assms
  by (auto simp: record_outcome_def Let_def split: option.splits if_splits)

lemma sched_inv_lease:
  assumes "sched_inv s" and "fmlookup (bs_in_flight s) t = Some e"
  shows "e_task_index e = t" and "t \<notin> e_task_index ` set (bs_queue s)"
  using assms by (auto simp: sched_inv_def)

lemma sched_new_inv: "sched_inv (sched_new n b z)"
  by (auto simp: sched_inv_def sched_new_def queued_indices_def comp_def)

lemma fresh_entries_indices:
  "map e_task_index (map (\<lambda>(i, b). fresh_entry i b) ibs) = map fst ibs"
  by (induction ibs) auto

lemma with_individual_budgets_inv: "sched_inv (with_individual_budgets bs z)"
  using fresh_entries_indices [of "enumerate 0 bs"]
  by (auto simp: sched_inv_def with_individual_budgets_def queued_indices_def)

lemma next_batch_inv:
  assumes "sched_inv s"
  shows "sched_inv (snd (next_batch s))"
proof (cases "next_batch s")
  case (Pair r s')
  show ?thesis
  proof (cases r)
    case None
    with Pair have "s' = s\<lparr>bs_queue := []\<rparr>" by (simp add: next_batch_None)
    with Pair assms show ?thesis by (simp add: sched_inv_def queued_indices_def)
  next
    case (Some c)
    with Pair have "next_batch s = (Some c, s')" by simp
    then obtain i e where i: "i < length (live_queue s)" and e: "e = live_queue s ! i"
      and s': "s' = s\<lparr>bs_queue := remove_nth i (live_queue s),
                bs_in_flight := fmupd (e_task_index e) e (bs_in_flight s)\<rparr>"
      by (rule next_batch_Some)
    have d: "distinct (map e_task_index (live_queue s))"
      using assms live_queue_indices(1) by (auto simp: sched_inv_def)
    note rem = set_remove_nth_distinct [OF d i]
    have idle: "fmlookup (bs_in_flight s) (e_task_index x) = None" if "x \<in> set (live_queue s)" for x
      using assms that by (auto simp: sched_inv_def live_queue_def)
    have "\<forall>x \<in> set (remove_nth i (live_queue s)). e_task_index x \<noteq> e_task_index e"
      using rem(1) by (auto simp: e)
    with assms rem(2) idle set_remove_nth_subset [of i "live_queue s"] show ?thesis
      by (auto simp: Pair s' sched_inv_def queued_indices_def)
  qed
qed

lemma enqueue_inv:
  assumes "sched_inv s"
  shows "sched_inv (snd (enqueue s t b))"
proof (cases "fmlookup (bs_in_flight s) t")
  case None
  show ?thesis
  proof (cases "merge_into_queue t b (bs_queue s)")
    case (Some q)
    have "fmlookup (bs_in_flight s) i = None" if "i \<in> e_task_index ` set (bs_queue s)" for i
      using that assms by (auto simp: sched_inv_def)
    then have "\<forall>x \<in> set q. fmlookup (bs_in_flight s) (e_task_index x) = None"
      using merge_into_queue_image [OF Some] by blast
    with assms None Some show ?thesis
      by (simp add: enqueue_def sched_inv_def queued_indices_def merge_into_queue_indices [OF Some])
  next
    case fresh: None
    then have "t \<notin> e_task_index ` set (bs_queue s)" by (simp add: merge_into_queue_None_iff)
    with assms None show ?thesis
      by (auto simp: enqueue_def fresh sched_inv_def queued_indices_def)
  qed
next
  case (Some e)
  with assms show ?thesis
    by (auto simp: enqueue_def sched_inv_def queued_indices_def Let_def)
qed

lemma record_outcome_inv:
  assumes inv: "sched_inv s" and rec: "record_outcome s out = Inr s'"
  shows "sched_inv s'"
  using rec
proof (cases rule: record_outcome_Inr)
  case (deferred e0 d)
  with inv sched_inv_lease [OF inv deferred(1)] show ?thesis
    by (auto simp: sched_inv_def queued_indices_def)
next
  case (dropped e0)
  with inv sched_inv_lease [OF inv dropped(1)] show ?thesis
    by (auto simp: sched_inv_def queued_indices_def)
next
  case (requeued e0 streaks)
  with inv sched_inv_lease [OF inv requeued(1)] show ?thesis
    by (auto simp: sched_inv_def queued_indices_def)
qed

interpretation sched: invariant_system sched_init sched_step sched_inv
proof unfold_locales
  fix s assume "sched_init s"
  then show "sched_inv s"
    by (auto simp: sched_init_def sched_new_inv with_individual_budgets_inv)
next
  fix s t assume "sched_inv s" and "sched_step s t"
  from this(2,1) show "sched_inv t"
    by (induction rule: sched_step.induct) (auto intro: next_batch_inv record_outcome_inv enqueue_inv)
qed

section \<open>Refinement of the lease protocol\<close>

text \<open>
  The contract a worker pool relies on, stated over the per-function view: what granting,
  releasing and requesting do to the view of every function.
\<close>

locale lease_service =
  fixes wf :: "'s \<Rightarrow> bool"
    and view :: "'s \<Rightarrow> usize \<Rightarrow> task_state"
    and grant :: "'s \<Rightarrow> batch_config option \<times> 's"
    and release :: "'s \<Rightarrow> batch_outcome \<Rightarrow> panic + 's"
    and request :: "'s \<Rightarrow> usize \<Rightarrow> u32 option \<Rightarrow> enqueue_result \<times> 's"
  assumes grant_wf: "wf s \<Longrightarrow> wf (snd (grant s))"
    and release_wf: "wf s \<Longrightarrow> release s out = Inr s' \<Longrightarrow> wf s'"
    and request_wf: "wf s \<Longrightarrow> wf (snd (request s t budget))"
    and grant_Some: "wf s \<Longrightarrow> grant s = (Some c, s') \<Longrightarrow>
      \<exists>b. view s (bc_task_index c) = Waiting b \<and> b \<noteq> Some 0 \<and>
          view s' = (\<lambda>t. drop_spent (view s t))(bc_task_index c := Leased b None)"
    and grant_None: "wf s \<Longrightarrow> grant s = (None, s') \<Longrightarrow>
      view s' = (\<lambda>t. drop_spent (view s t)) \<and> (\<forall>t b. view s t = Waiting b \<longrightarrow> b = Some 0)"
    and release_Inr: "wf s \<Longrightarrow> release s out = Inr s' \<Longrightarrow>
      (\<exists>b d. view s (bo_task_index out) = Leased b d) \<and>
      view s' = (view s)(bo_task_index out :=
        release_task (bo_iterations_used out) (bo_exhausted out) (view s (bo_task_index out)))"
    and release_Inl: "wf s \<Longrightarrow> release s out = Inl p \<Longrightarrow> view s (bo_task_index out) \<noteq> Leased b d"
    and request_view: "wf s \<Longrightarrow>
      view (snd (request s t budget)) = (view s)(t := request_task budget (view s t))"

text \<open>
  A history of the service: any interleaving of grants, releases and requests, with the
  event each one produces. A panic ends the history.
\<close>

datatype sched_op = GrantOp | ReleaseOp batch_outcome | RequestOp usize "u32 option"

datatype sched_event = Granted batch_config | Starved | Released usize | Requested usize enqueue_result

fun run_ops :: "('s \<Rightarrow> batch_config option \<times> 's) \<Rightarrow> ('s \<Rightarrow> batch_outcome \<Rightarrow> panic + 's) \<Rightarrow>
    ('s \<Rightarrow> usize \<Rightarrow> u32 option \<Rightarrow> enqueue_result \<times> 's) \<Rightarrow> 's \<Rightarrow> sched_op list \<Rightarrow>
    panic + sched_event list \<times> 's" where
  "run_ops grant release request s [] = Inr ([], s)"
| "run_ops grant release request s (op # ops) =
     (case (case op of
              GrantOp \<Rightarrow>
                (case grant s of
                   (Some c, s1) \<Rightarrow> Inr (Granted c, s1)
                 | (None, s1) \<Rightarrow> Inr (Starved, s1))
            | ReleaseOp out \<Rightarrow>
                (case release s out of
                   Inl p \<Rightarrow> Inl p
                 | Inr s1 \<Rightarrow> Inr (Released (bo_task_index out), s1))
            | RequestOp t b \<Rightarrow> (case request s t b of (r, s1) \<Rightarrow> Inr (Requested t r, s1))) of
        Inl p \<Rightarrow> Inl p
      | Inr (ev, s1) \<Rightarrow>
          (case run_ops grant release request s1 ops of
             Inl p \<Rightarrow> Inl p
           | Inr (evs, s2) \<Rightarrow> Inr (ev # evs, s2)))"

context lease_service
begin

abbreviation "run \<equiv> run_ops grant release request"

lemma drop_spent_Leased [simp]: "drop_spent x = Leased b d \<longleftrightarrow> x = Leased b d"
  by (cases x) auto

lemma request_task_Leased: "x = Leased b d \<Longrightarrow> \<exists>d'. request_task budget x = Leased b d'"
  by (cases d) auto

text \<open>One step of a history: the state stays well formed, and a lease ends only by a release.\<close>

lemma run_Cons:
  assumes "run s (op # ops) = Inr (ev # evs, s')" and "wf s"
  obtains s1 where "run s1 ops = Inr (evs, s')" and "wf s1"
    and "\<And>t b d. view s t = Leased b d \<Longrightarrow> ev \<noteq> Released t \<Longrightarrow> \<exists>d'. view s1 t = Leased b d'"
    and "\<And>c. ev = Granted c \<Longrightarrow>
           (\<exists>b. view s (bc_task_index c) = Waiting b) \<and> (\<exists>b d. view s1 (bc_task_index c) = Leased b d)"
proof (cases op)
  case GrantOp
  obtain r s1 where g: "grant s = (r, s1)" by (cases "grant s")
  from grant_wf [OF assms(2)] g have "wf s1" by simp
  show thesis
  proof (cases r)
    case None
    note G = grant_None [OF assms(2) g [unfolded None]]
    show thesis
      by (rule that [of s1]) (use assms(1) g None GrantOp G \<open>wf s1\<close> in \<open>auto split: sum.splits\<close>)
  next
    case (Some c)
    from grant_Some [OF assms(2) g [unfolded Some]] obtain b where
      G: "view s (bc_task_index c) = Waiting b" "b \<noteq> Some 0"
        "view s1 = (\<lambda>t. drop_spent (view s t))(bc_task_index c := Leased b None)" by auto
    show thesis
      by (rule that [of s1]) (use assms(1) g Some GrantOp G \<open>wf s1\<close> in \<open>auto split: sum.splits\<close>)
  qed
next
  case (ReleaseOp out)
  with assms(1) obtain s1 where r: "release s out = Inr s1" and ev: "ev = Released (bo_task_index out)"
    and rest: "run s1 ops = Inr (evs, s')"
    by (auto split: sum.splits)
  show thesis
    by (rule that [OF rest release_wf [OF assms(2) r]])
      (use release_Inr [OF assms(2) r] in \<open>auto simp: ev\<close>)
next
  case (RequestOp t b)
  obtain r s1 where q: "request s t b = (r, s1)" by (cases "request s t b")
  with assms(1) RequestOp have ev: "ev = Requested t r" and rest: "run s1 ops = Inr (evs, s')"
    by (auto split: sum.splits)
  have "wf s1" using request_wf [OF assms(2), of t b] q by simp
  moreover have "view s1 = (view s)(t := request_task b (view s t))"
    using request_view [OF assms(2), of t b] q by simp
  ultimately show thesis
    by (intro that [OF rest]) (auto simp: ev intro: request_task_Leased)
qed

lemma run_event_Cons: "run s (op # ops) = Inr (evs, s') \<Longrightarrow> \<exists>ev evs'. evs = ev # evs'"
  by (auto split: sum.splits)

lemma grant_needs_release:
  assumes "run s ops = Inr (ys @ Granted c # zs, s')" and "wf s" and "view s (bc_task_index c) = Leased b d"
  shows "Released (bc_task_index c) \<in> set ys"
  using assms
proof (induction ops arbitrary: s ys b d)
  case Nil
  then show ?case by simp
next
  case (Cons op ops)
  show ?case
  proof (cases ys)
    case Nil
    with Cons.prems have "run s (op # ops) = Inr (Granted c # zs, s')" by simp
    from run_Cons [OF this Cons.prems(2)] obtain b' where "view s (bc_task_index c) = Waiting b'" by metis
    with Cons.prems(3) show ?thesis by simp
  next
    case (Cons y ys')
    with Cons.prems have run: "run s (op # ops) = Inr (y # (ys' @ Granted c # zs), s')" by simp
    show ?thesis
    proof (cases "y = Released (bc_task_index c)")
      case True
      with Cons show ?thesis by simp
    next
      case False
      obtain s1 where s1: "run s1 ops = Inr (ys' @ Granted c # zs, s')" "wf s1"
        and keep: "\<And>t b d. view s t = Leased b d \<Longrightarrow> y \<noteq> Released t \<Longrightarrow> \<exists>d'. view s1 t = Leased b d'"
        using run_Cons [OF run Cons.prems(2)] by metis
      from keep [OF Cons.prems(3) False] obtain d' where "view s1 (bc_task_index c) = Leased b d'" ..
      from Cons.IH [OF s1 this] Cons show ?thesis by simp
    qed
  qed
qed

lemma leases_exclusive:
  assumes "run s ops = Inr (xs @ Granted c # ys @ Granted c' # zs, s')" and "wf s"
    and "bc_task_index c' = bc_task_index c"
  shows "Released (bc_task_index c) \<in> set ys"
  using assms
proof (induction ops arbitrary: s xs)
  case Nil
  then show ?case by simp
next
  case (Cons op ops)
  show ?case
  proof (cases xs)
    case Nil
    with Cons.prems have run: "run s (op # ops) = Inr (Granted c # (ys @ Granted c' # zs), s')" by simp
    obtain s1 where "run s1 ops = Inr (ys @ Granted c' # zs, s')" and "wf s1"
      and "\<exists>b d. view s1 (bc_task_index c) = Leased b d"
      using run_Cons [OF run Cons.prems(2)] by metis
    with grant_needs_release [of s1 ops ys c' zs s'] Cons.prems(3) show ?thesis by auto
  next
    case (Cons x xs')
    with Cons.prems have run: "run s (op # ops) = Inr (x # (xs' @ Granted c # ys @ Granted c' # zs), s')"
      by simp
    obtain s1 where "run s1 ops = Inr (xs' @ Granted c # ys @ Granted c' # zs, s')" and "wf s1"
      using run_Cons [OF run Cons.prems(2)] by metis
    then show ?thesis by (rule Cons.IH) (rule Cons.prems(3))
  qed
qed

text \<open>A request made during a lease is part of the budget the function waits with afterwards.\<close>

lemma deferred_not_lost:
  assumes "wf s" and "view s (bo_task_index out) = Leased b d"
  shows "\<exists>s'. release (snd (request s (bo_task_index out) budget)) out = Inr s' \<and>
    view s' (bo_task_index out) = Waiting (merge_budgets (charge_budget (bo_iterations_used out) b)
      (case d of None \<Rightarrow> budget | Some d' \<Rightarrow> merge_budgets d' budget))"
proof -
  let ?s = "snd (request s (bo_task_index out) budget)"
  have v: "view ?s (bo_task_index out) = Leased b (Some (case d of None \<Rightarrow> budget | Some d' \<Rightarrow> merge_budgets d' budget))"
    using request_view [OF assms(1)] assms(2) by (cases d) simp_all
  obtain s' where r: "release ?s out = Inr s'"
    using release_Inl [OF request_wf [OF assms(1)]] v by (cases "release ?s out") blast+
  with release_Inr [OF request_wf [OF assms(1)] r] v show ?thesis by simp
qed

end

lemma find_task_distinct:
  assumes "distinct (map e_task_index q)"
  shows "find (\<lambda>e. e_task_index e = t) q = Some e \<longleftrightarrow> e \<in> set q \<and> e_task_index e = t"
  using assms
proof (induction q)
  case (Cons x q)
  then show ?case by (auto simp: image_iff)
qed simp

lemma find_task_None: "find (\<lambda>e. e_task_index e = t) q = None \<longleftrightarrow> t \<notin> e_task_index ` set q"
  by (auto simp: find_None_iff)

lemma find_task_filter:
  assumes "distinct (map e_task_index q)"
  shows "find (\<lambda>e. e_task_index e = t) (filter P q) =
    (case find (\<lambda>e. e_task_index e = t) q of None \<Rightarrow> None | Some e \<Rightarrow> if P e then Some e else None)"
  using assms
proof (induction q)
  case (Cons x q)
  then show ?case
    by (auto split: option.splits simp: find_task_None find_task_distinct)
qed simp

lemma find_task_remove_nth:
  assumes "distinct (map e_task_index q)" and "i < length q"
  shows "find (\<lambda>e. e_task_index e = t) (remove_nth i q) =
    (if t = e_task_index (q ! i) then None else find (\<lambda>e. e_task_index e = t) q)"
proof (cases "t = e_task_index (q ! i)")
  case True
  then show ?thesis
    using set_remove_nth_distinct(1) [OF assms] by (simp add: find_task_None)
next
  case False
  have "q = take i q @ q ! i # drop (Suc i) q" by (rule id_take_nth_drop [OF assms(2)])
  then have "find (\<lambda>e. e_task_index e = t) q =
      find (\<lambda>e. e_task_index e = t) (take i q @ q ! i # drop (Suc i) q)" by simp
  with False show ?thesis
    by (simp add: remove_nth_def find_append split: option.splits)
qed

lemma find_task_merge:
  "merge_into_queue t b q = Some q' \<Longrightarrow>
   find (\<lambda>e. e_task_index e = u) q' =
     (if u = t then map_option (\<lambda>e. e\<lparr>e_remaining := merge_budgets (e_remaining e) b\<rparr>)
                      (find (\<lambda>e. e_task_index e = t) q)
      else find (\<lambda>e. e_task_index e = u) q)"
  by (induction q arbitrary: q') (auto split: if_splits)

lemma task_view_waiting:
  assumes "sched_inv s" and "e \<in> set (bs_queue s)"
  shows "task_view s (e_task_index e) = Waiting (e_remaining e)"
  using assms
  by (auto simp: task_view_def sched_inv_def queued_indices_def find_task_distinct [THEN iffD2])

lemma task_view_live:
  assumes "sched_inv s"
  shows "task_view (s\<lparr>bs_queue := live_queue s\<rparr>) t = drop_spent (task_view s t)"
  using assms
  by (auto simp: task_view_def sched_inv_def queued_indices_def live_queue_def find_task_filter
      split: option.splits)

lemma task_view_next_batch:
  assumes inv: "sched_inv s" and nb: "next_batch s = (Some c, s')"
  shows "\<exists>b. task_view s (bc_task_index c) = Waiting b \<and> b \<noteq> Some 0 \<and>
      task_view s' = (\<lambda>t. drop_spent (task_view s t))(bc_task_index c := Leased b None)"
proof -
  from nb obtain i e where i: "i < length (live_queue s)" and e: "e = live_queue s ! i"
    and c: "c = \<lparr>bc_task_index = e_task_index e, bc_batch_size = batch_iters s e,
              bc_batch_number = e_batches_completed e\<rparr>"
    and s': "s' = s\<lparr>bs_queue := remove_nth i (live_queue s),
                bs_in_flight := fmupd (e_task_index e) e (bs_in_flight s)\<rparr>"
    by (rule next_batch_Some)
  have mem: "e \<in> set (bs_queue s)" and live: "e_remaining e \<noteq> Some 0"
    using nth_mem [OF i] by (auto simp: e live_queue_def)
  have d: "distinct (map e_task_index (live_queue s))"
    using inv live_queue_indices(1) by (auto simp: sched_inv_def)
  have nodef: "fmlookup (bs_deferred s) (e_task_index e) = None"
    using inv mem by (auto simp: sched_inv_def)
  have "task_view s' t = ((\<lambda>t. drop_spent (task_view s t))(e_task_index e := Leased (e_remaining e) None)) t" for t
    using task_view_live [OF inv, of t] nodef
    by (auto simp: s' task_view_def find_task_remove_nth [OF d i] e [symmetric] split: option.splits)
  then have "task_view s' = (\<lambda>t. drop_spent (task_view s t))(e_task_index e := Leased (e_remaining e) None)"
    by (rule ext)
  with task_view_waiting [OF inv mem] live c show ?thesis by auto
qed

lemma task_view_starved:
  assumes inv: "sched_inv s" and nb: "next_batch s = (None, s')"
  shows "task_view s' = (\<lambda>t. drop_spent (task_view s t)) \<and>
    (\<forall>t b. task_view s t = Waiting b \<longrightarrow> b = Some 0)"
proof -
  have empty: "live_queue s = []" and s': "s' = s\<lparr>bs_queue := live_queue s\<rparr>"
    using nb by (auto simp: next_batch_None)
  have "b = Some 0" if w: "task_view s t = Waiting b" for t b
  proof (rule ccontr)
    assume "b \<noteq> Some 0"
    with w have "drop_spent (task_view s t) = Waiting b" by simp
    then have "task_view (s\<lparr>bs_queue := []\<rparr>) t = Waiting b"
      using task_view_live [OF inv, of t] empty by simp
    then show False by (auto simp: task_view_def split: option.splits)
  qed
  with task_view_live [OF inv] show ?thesis by (auto simp: s')
qed

lemma task_view_release:
  assumes inv: "sched_inv s" and rec: "record_outcome s out = Inr s'"
  shows "(\<exists>b d. task_view s (bo_task_index out) = Leased b d) \<and>
    task_view s' = (task_view s)(bo_task_index out :=
      release_task (bo_iterations_used out) (bo_exhausted out) (task_view s (bo_task_index out)))"
  using rec
proof (cases rule: record_outcome_Inr)
  case (deferred e0 d)
  note lease = sched_inv_lease [OF inv deferred(1)]
  with deferred show ?thesis
    by (auto simp: task_view_def find_append find_task_None [THEN iffD2] intro!: ext split: option.splits)
next
  case (dropped e0)
  note lease = sched_inv_lease [OF inv dropped(1)]
  with dropped show ?thesis
    by (auto simp: task_view_def find_append find_task_None [THEN iffD2] intro!: ext split: option.splits)
next
  case (requeued e0 streaks)
  note lease = sched_inv_lease [OF inv requeued(1)]
  with requeued show ?thesis
    by (auto simp: task_view_def find_append find_task_None [THEN iffD2] intro!: ext split: option.splits)
qed

lemma record_outcome_Inl:
  "record_outcome s out = Inl p \<longleftrightarrow>
     fmlookup (bs_in_flight s) (bo_task_index out) = None \<and>
     p = Panic ''record_outcome called for a task_index that is not in flight''"
  by (auto simp: record_outcome_def Let_def split: option.splits)

lemma task_view_request:
  assumes inv: "sched_inv s"
  shows "task_view (snd (enqueue s t b)) = (task_view s)(t := request_task b (task_view s t))"
proof (rule ext)
  fix u
  show "task_view (snd (enqueue s t b)) u = ((task_view s)(t := request_task b (task_view s t))) u"
  proof (cases "fmlookup (bs_in_flight s) t")
    case (Some e)
    then show ?thesis
      by (cases "fmlookup (bs_deferred s) t") (auto simp: enqueue_def task_view_def split: option.splits)
  next
    case idle: None
    show ?thesis
    proof (cases "merge_into_queue t b (bs_queue s)")
      case (Some q)
      then have "find (\<lambda>e. e_task_index e = t) (bs_queue s) \<noteq> None"
        using merge_into_queue_None_iff [of t b "bs_queue s"] by (auto simp: find_task_None)
      with idle Some show ?thesis
        by (auto simp: enqueue_def task_view_def find_task_merge [OF Some] split: option.splits)
    next
      case None
      then have "find (\<lambda>e. e_task_index e = t) (bs_queue s) = None"
        by (simp add: merge_into_queue_None_iff find_task_None)
      with idle None show ?thesis
        by (auto simp: enqueue_def task_view_def find_append split: option.splits)
    qed
  qed
qed

interpretation sched: lease_service sched_inv task_view next_batch record_outcome enqueue
proof unfold_locales
  fix s out p b d
  assume "record_outcome s out = Inl p"
  then show "task_view s (bo_task_index out) \<noteq> Leased b d"
    by (auto simp: record_outcome_Inl task_view_def split: option.splits)
qed (auto intro: next_batch_inv record_outcome_inv enqueue_inv task_view_request
      dest: task_view_next_batch task_view_starved task_view_release)

section \<open>Budgets bound the number of batches\<close>

definition entry_budget :: "sched_entry \<Rightarrow> nat" where
  "entry_budget e = (case e_remaining e of None \<Rightarrow> 0 | Some r \<Rightarrow> unat r)"

text \<open>
  The potential of a state: what queued functions may still use, and what leased functions
  may use after the batch that is running.
\<close>

definition sched_potential :: "batch_scheduler \<Rightarrow> nat" where
  "sched_potential s =
     sum_list (map entry_budget (bs_queue s)) + fm_sum (\<lambda>e. entry_budget e - 1) (bs_in_flight s)"

definition bounded_sched :: "batch_scheduler \<Rightarrow> bool" where
  "bounded_sched s \<longleftrightarrow>
     (\<forall>e \<in> set (bs_queue s). e_remaining e \<noteq> None) \<and>
     (\<forall>t e. fmlookup (bs_in_flight s) t = Some e \<longrightarrow> e_remaining e \<noteq> None \<and> e_remaining e \<noteq> Some 0) \<and>
     bs_deferred s = fmempty"

fun progressing_op :: "sched_op \<Rightarrow> bool" where
  "progressing_op GrantOp = True"
| "progressing_op (ReleaseOp out) = (bo_iterations_used out \<noteq> 0 \<or> bo_exhausted out)"
| "progressing_op (RequestOp t b) = False"

fun is_granted :: "sched_event \<Rightarrow> bool" where
  "is_granted (Granted c) = True"
| "is_granted _ = False"

definition run_sched :: "batch_scheduler \<Rightarrow> sched_op list \<Rightarrow> panic + sched_event list \<times> batch_scheduler" where
  "run_sched = run_ops next_batch record_outcome enqueue"

lemma entry_budget_pos: "e_remaining e \<noteq> None \<Longrightarrow> e_remaining e \<noteq> Some 0 \<Longrightarrow> 0 < entry_budget e"
  by (auto simp: entry_budget_def unat_gt_0)

lemma sum_list_live:
  "sum_list (map entry_budget (live_queue s)) = sum_list (map entry_budget (bs_queue s))"
proof -
  have "sum_list (map entry_budget (filter (\<lambda>e. e_remaining e \<noteq> Some 0) q)) = sum_list (map entry_budget q)" for q
    by (induction q) (auto simp: entry_budget_def split: option.splits)
  then show ?thesis by (simp add: live_queue_def)
qed

lemma sum_list_remove_nth:
  "i < length xs \<Longrightarrow> sum_list (map f xs) = (f (xs ! i) :: nat) + sum_list (map f (remove_nth i xs))"
  by (subst (1) id_take_nth_drop [of i xs]) (simp_all add: remove_nth_def)

lemma potential_grant:
  assumes inv: "sched_inv s" and bounded: "bounded_sched s" and nb: "next_batch s = (Some c, s')"
  shows "Suc (sched_potential s') = sched_potential s" and "bounded_sched s'"
proof -
  from nb obtain i e where i: "i < length (live_queue s)" and e: "e = live_queue s ! i"
    and s': "s' = s\<lparr>bs_queue := remove_nth i (live_queue s),
                bs_in_flight := fmupd (e_task_index e) e (bs_in_flight s)\<rparr>"
    by (rule next_batch_Some)
  have mem: "e \<in> set (bs_queue s)" and live: "e_remaining e \<noteq> Some 0"
    using nth_mem [OF i] by (auto simp: e live_queue_def)
  have free: "fmlookup (bs_in_flight s) (e_task_index e) = None"
    using inv mem by (auto simp: sched_inv_def)
  have pos: "0 < entry_budget e"
    using bounded mem live by (auto simp: bounded_sched_def intro: entry_budget_pos)
  have "sum_list (map entry_budget (bs_queue s)) =
      entry_budget e + sum_list (map entry_budget (remove_nth i (live_queue s)))"
    using sum_list_remove_nth [OF i, of entry_budget] by (simp add: sum_list_live e)
  with pos free show "Suc (sched_potential s') = sched_potential s"
    by (simp add: sched_potential_def s' fm_sum_upd_new)
  show "bounded_sched s'"
    using bounded mem live set_remove_nth_subset [of i "live_queue s"]
    by (auto simp: bounded_sched_def s' live_queue_def)
qed

lemma potential_starve:
  assumes "bounded_sched s" and "next_batch s = (None, s')"
  shows "sched_potential s' = sched_potential s" and "bounded_sched s'"
proof -
  have "live_queue s = []" and s': "s' = s\<lparr>bs_queue := []\<rparr>"
    using assms(2) by (auto simp: next_batch_None)
  then show "sched_potential s' = sched_potential s"
    using sum_list_live [of s] by (simp add: sched_potential_def)
  show "bounded_sched s'" using assms(1) by (simp add: bounded_sched_def s')
qed

lemma potential_release:
  assumes bounded: "bounded_sched s" and op: "progressing_op (ReleaseOp out)"
    and rec: "record_outcome s out = Inr s'"
  shows "sched_potential s' \<le> sched_potential s" and "bounded_sched s'"
proof -
  have nodef: "bs_deferred s = fmempty" using bounded by (simp add: bounded_sched_def)
  have both: "sched_potential s' \<le> sched_potential s \<and> bounded_sched s'"
    using rec
  proof (cases rule: record_outcome_Inr)
    case (deferred e0 d)
    with nodef show ?thesis by simp
  next
    case (dropped e0)
    with bounded show ?thesis
      by (auto simp: sched_potential_def bounded_sched_def fm_sum_drop [OF dropped(1)])
  next
    case (requeued e0 streaks)
    obtain r where r: "e_remaining e0 = Some r" and "r \<noteq> 0"
      using bounded requeued(1) by (force simp: bounded_sched_def)
    have "unat (sat_sub r (bo_iterations_used out)) \<le> unat r - 1"
      using op requeued(3) by (simp add: unat_sat_sub unat_eq_zero [symmetric] del: unat_eq_zero)
    with r have "entry_budget ((charge_entry e0 out)\<lparr>e_rank := bo_rank out\<rparr>) \<le> entry_budget e0 - 1"
      by (simp add: entry_budget_def charge_entry_def)
    with requeued bounded r show ?thesis
      by (auto simp: sched_potential_def bounded_sched_def fm_sum_drop [OF requeued(1)] charge_budget_def)
  qed
  then show "sched_potential s' \<le> sched_potential s" and "bounded_sched s'" by auto
qed

lemma run_potential:
  assumes "run_sched s ops = Inr (evs, s')" and "sched_inv s" and "bounded_sched s"
    and "list_all progressing_op ops"
  shows "length (filter is_granted evs) + sched_potential s' \<le> sched_potential s"
  using assms unfolding run_sched_def
proof (induction ops arbitrary: s evs)
  case Nil
  then show ?case by simp
next
  case (Cons op ops)
  from Cons.prems(4) have op: "progressing_op op" and ops: "list_all progressing_op ops" by auto
  show ?case
  proof (cases op)
    case GrantOp
    obtain r s1 where nb: "next_batch s = (r, s1)" by (cases "next_batch s")
    have inv1: "sched_inv s1" using next_batch_inv [OF Cons.prems(2)] nb by simp
    show ?thesis
    proof (cases r)
      case None
      note pot = potential_starve [OF Cons.prems(3) nb [unfolded None]]
      from Cons.prems(1) GrantOp nb None obtain evs1 where
        "run_ops next_batch record_outcome enqueue s1 ops = Inr (evs1, s')" "evs = Starved # evs1"
        by (auto split: sum.splits)
      with Cons.IH [OF _ inv1 pot(2) ops] pot(1) show ?thesis by auto
    next
      case (Some c)
      note pot = potential_grant [OF Cons.prems(2,3) nb [unfolded Some]]
      from Cons.prems(1) GrantOp nb Some obtain evs1 where
        "run_ops next_batch record_outcome enqueue s1 ops = Inr (evs1, s')" "evs = Granted c # evs1"
        by (auto split: sum.splits)
      with Cons.IH [OF _ inv1 pot(2) ops] pot(1) show ?thesis by force
    qed
  next
    case (ReleaseOp out)
    with Cons.prems(1) obtain s1 evs1 where rec: "record_outcome s out = Inr s1"
      and rest: "run_ops next_batch record_outcome enqueue s1 ops = Inr (evs1, s')"
        "evs = Released (bo_task_index out) # evs1"
      by (auto split: sum.splits)
    note pot = potential_release [OF Cons.prems(3) op [unfolded ReleaseOp] rec]
    from Cons.IH [OF rest(1) record_outcome_inv [OF Cons.prems(2) rec] pot(2) ops] pot(1) rest(2)
    show ?thesis by simp
  next
    case (RequestOp t b)
    with op show ?thesis by simp
  qed
qed

lemma sched_new_bounded: "bounded_sched (sched_new n (Some b) z)"
  by (auto simp: bounded_sched_def sched_new_def)

lemma sched_new_potential: "sched_potential (sched_new n (Some b) z) = n * unat b"
  by (simp add: sched_potential_def sched_new_def entry_budget_def comp_def map_replicate_const
      sum_list_replicate)

section \<open>Effective ranks and round robin\<close>

lemma sint_word_of_int_i64:
  "- (2 ^ 63) \<le> x \<Longrightarrow> x < 2 ^ 63 \<Longrightarrow> sint (word_of_int x :: i64) = x"
  by (simp add: signed_of_int signed_take_bit_int_eq_self)

lemma sint_bounded_diff:
  fixes r :: i64 and c :: i64 and m :: u32
  assumes "- (2 ^ 62) \<le> sint r" and "sint r \<le> 2 ^ 62" and "c \<in> {0, 1, 2, 3}"
  shows "sint (r - c - ucast m * 2) = sint r - uint c - 2 * uint m"
proof -
  have c: "0 \<le> uint c" "uint c \<le> 3" using assms(3) by auto
  have m: "0 \<le> uint m" "uint m < 2 ^ 32" using uint_lt2p [of m] by simp_all
  have "r - c - ucast m * 2 = word_of_int (sint r) - word_of_int (uint c) - word_of_int (uint m) * word_of_int 2"
    by (simp add: unsigned_ucast_eq)
  also have "\<dots> = (word_of_int (sint r - uint c - 2 * uint m) :: i64)"
    by (simp add: wi_hom_syms mult.commute)
  finally have eq: "r - c - ucast m * 2 = word_of_int (sint r - uint c - 2 * uint m)" .
  have "- (2 ^ 63) \<le> sint r - uint c - 2 * uint m"
    using assms(1) c m by simp
  moreover have "sint r - uint c - 2 * uint m \<le> sint r"
    using c m by linarith
  then have "sint r - uint c - 2 * uint m < 2 ^ 63" using assms(2) by simp
  ultimately show ?thesis
    unfolding eq by (rule sint_word_of_int_i64)
qed

lemma effective_rank_sint:
  assumes "- (2 ^ 62) \<le> sint (e_rank e)" and "sint (e_rank e) \<le> 2 ^ 62" and "cooldowns_ok (bs_cooldown s)"
  shows "sint (effective_rank s e) =
    sint (e_rank e) - uint (cooldown_score s (e_task_index e))
      - 2 * uint (fm_get_or (bs_miss_streak s) (e_task_index e) 0)"
proof -
  have "cooldown_score s (e_task_index e) \<in> {0, 1, 2, 3}"
    using assms(3) by (auto simp: cooldown_score_def fm_get_or_def cooldowns_ok_def fmpred_iff split: option.splits)
  from sint_bounded_diff [OF assms(1,2) this] show ?thesis
    by (simp add: effective_rank_def attempt_penalty_def MISS_PENALTY_PER_STREAK_def)
qed

text \<open>
  A serial driver: it takes one batch at a time and reports the outcome that \<open>report\<close>
  gives for it. The result lists the functions in the order they were scheduled.
\<close>

fun serial_run :: "(batch_config \<Rightarrow> batch_outcome) \<Rightarrow> nat \<Rightarrow> batch_scheduler \<Rightarrow> panic + usize list" where
  "serial_run report 0 s = Inr []"
| "serial_run report (Suc k) s =
     (case next_batch s of
        (None, _) \<Rightarrow> Inr []
      | (Some c, s1) \<Rightarrow>
          (case record_outcome s1 (report c) of
             Inl p \<Rightarrow> Inl p
           | Inr s2 \<Rightarrow>
               (case serial_run report k s2 of
                  Inl p \<Rightarrow> Inl p
                | Inr ts \<Rightarrow> Inr (bc_task_index c # ts))))"

text \<open>A batch that found nothing and carries no summary.\<close>

definition unranked_outcome :: "batch_config \<Rightarrow> batch_outcome" where
  "unranked_outcome c =
     \<lparr>bo_task_index = bc_task_index c, bo_iterations_used = bc_batch_size c,
      bo_exhausted = False, bo_rank = 0, bo_summary = None\<rparr>"

abbreviation cd_of :: "batch_scheduler \<Rightarrow> sched_entry \<Rightarrow> nat" where
  "cd_of s e \<equiv> unat (cooldown_score s (e_task_index e))"

abbreviation st_of :: "batch_scheduler \<Rightarrow> sched_entry \<Rightarrow> nat" where
  "st_of s e \<equiv> unat (fm_get_or (bs_miss_streak s) (e_task_index e) 0)"

text \<open>
  The shape of a round-robin queue: from head to tail the penalties never fall, and two
  functions differ by at most one missed batch.
\<close>

definition rr_queue :: "nat \<Rightarrow> batch_scheduler \<Rightarrow> bool" where
  "rr_queue N s \<longleftrightarrow>
     distinct (queued_indices s) \<and> bs_in_flight s = fmempty \<and> bs_deferred s = fmempty \<and>
     cooldowns_ok (bs_cooldown s) \<and>
     (\<forall>e \<in> set (bs_queue s). e_remaining e = None \<and> e_rank e = 0 \<and> st_of s e \<le> N) \<and>
     sorted (map (cd_of s) (bs_queue s)) \<and> sorted (map (st_of s) (bs_queue s)) \<and>
     (\<forall>x \<in> set (bs_queue s). \<forall>y \<in> set (bs_queue s). st_of s x \<le> st_of s y + 1)"

lemma decay_get_or:
  assumes "cooldowns_ok m"
  shows "unat (fm_get_or (decay_cooldowns m) t 0) = unat (fm_get_or m t 0) - 1"
    and "unat (fm_get_or m t 0) \<le> 3"
proof -
  have "fm_get_or m t 0 \<in> {0, 1, 2, 3}" and "fmlookup m t \<noteq> Some 0"
    using assms by (fastforce simp: fm_get_or_def cooldowns_ok_def fmpred_iff split: option.splits)+
  then show "unat (fm_get_or (decay_cooldowns m) t 0) = unat (fm_get_or m t 0) - 1"
    and "unat (fm_get_or m t 0) \<le> 3"
    by (auto simp: fm_get_or_def decay_cooldowns_def split: option.splits)
qed

lemma rr_head_first:
  assumes rr: "rr_queue N s" and q: "bs_queue s = e # q"
  shows "next_batch s =
    (Some \<lparr>bc_task_index = e_task_index e, bc_batch_size = bs_batch_size s,
           bc_batch_number = e_batches_completed e\<rparr>,
     s\<lparr>bs_queue := q, bs_in_flight := fmupd (e_task_index e) e fmempty\<rparr>)"
proof -
  have live: "live_queue s = e # q"
    using rr q by (auto simp: live_queue_def rr_queue_def intro: filter_True)
  have eff: "sint (effective_rank s x) = - int (cd_of s x) - 2 * int (st_of s x)" if "x \<in> set (e # q)" for x
    using effective_rank_sint [of x s] rr q that by (auto simp: rr_queue_def)
  have head: "sint (effective_rank s x) \<le> sint (effective_rank s e)" if "x \<in> set (e # q)" for x
  proof -
    have "cd_of s e \<le> cd_of s x" and "st_of s e \<le> st_of s x"
      using rr q that by (auto simp: rr_queue_def)
    then have "uint (cooldown_score s (e_task_index e)) \<le> uint (cooldown_score s (e_task_index x))"
      and "uint (fm_get_or (bs_miss_streak s) (e_task_index e) 0)
             \<le> uint (fm_get_or (bs_miss_streak s) (e_task_index x) 0)"
      by (simp_all add: word_le_def [symmetric] word_le_nat_alt)
    then show ?thesis using eff [OF that] eff [of e] by simp
  qed
  obtain c s' where nb: "next_batch s = (Some c, s')"
    using next_batch_None [of s] live by (cases "next_batch s"; cases "fst (next_batch s)") auto
  from nb obtain i x where i: "i < length (live_queue s)" and x: "x = live_queue s ! i"
    and first: "\<forall>n < i. sint (effective_rank s (live_queue s ! n)) < sint (effective_rank s x)"
    and c: "c = \<lparr>bc_task_index = e_task_index x, bc_batch_size = batch_iters s x,
              bc_batch_number = e_batches_completed x\<rparr>"
    and s': "s' = s\<lparr>bs_queue := remove_nth i (live_queue s),
                bs_in_flight := fmupd (e_task_index x) x (bs_in_flight s)\<rparr>"
    by (rule next_batch_Some)
  have "i = 0"
  proof (rule ccontr)
    assume "i \<noteq> 0"
    with first live have "sint (effective_rank s e) < sint (effective_rank s x)" by auto
    moreover have "x \<in> set (e # q)" using i x live nth_mem by metis
    ultimately show False using head [of x] by simp
  qed
  with x live have "x = e" by simp
  with \<open>i = 0\<close> live c s' nb rr q show ?thesis
    by (auto simp: remove_nth_def batch_iters_def rr_queue_def)
qed

lemma rr_round:
  assumes rr: "rr_queue N s" and q: "bs_queue s = e # q" and N: "Suc N < 2 ^ 32"
    and c: "bc_task_index c = e_task_index e"
  obtains s2 where
    "record_outcome (s\<lparr>bs_queue := q, bs_in_flight := fmupd (e_task_index e) e fmempty\<rparr>) (unranked_outcome c)
       = Inr s2"
    and "rr_queue (Suc N) s2" and "queued_indices s2 = map e_task_index q @ [e_task_index e]"
proof -
  let ?t = "e_task_index e"
  let ?e' = "(charge_entry e (unranked_outcome c))\<lparr>e_rank := 0\<rparr>"
  let ?s2 = "s\<lparr>bs_queue := q @ [?e'], bs_in_flight := fmempty, bs_deferred := fmempty,
     bs_miss_streak := fmupd ?t (fm_get_or (bs_miss_streak s) ?t 0 + 1) (bs_miss_streak s),
     bs_cooldown := fmupd ?t COOLDOWN_PENALTY (decay_cooldowns (bs_cooldown s))\<rparr>"
  have unbounded: "e_remaining e = None" and d: "distinct (e_task_index e # map e_task_index q)"
    using rr q by (auto simp: rr_queue_def queued_indices_def)
  have rec: "record_outcome (s\<lparr>bs_queue := q, bs_in_flight := fmupd ?t e fmempty\<rparr>) (unranked_outcome c) = Inr ?s2"
    using rr unbounded c
    by (simp add: record_outcome_def Let_def unranked_outcome_def is_miss_def rr_queue_def charge_budget_def
        fmdrop_fmupd_same)
  have streak: "st_of ?s2 ?e' = Suc (st_of s e)"
  proof -
    have "st_of s e \<le> N" using rr q by (auto simp: rr_queue_def)
    then show ?thesis using N by (simp add: unat_word_ariths)
  qed
  have cds: "cooldown_score ?s2 (e_task_index x) = fm_get_or (decay_cooldowns (bs_cooldown s)) (e_task_index x) 0"
    and sts: "st_of ?s2 x = st_of s x" if "x \<in> set q" for x
    using that d by (auto simp: cooldown_score_def)
  have ok: "cooldowns_ok (bs_cooldown s)" using rr by (simp add: rr_queue_def)
  have cd1: "cd_of ?s2 x = cd_of s x - 1" if "x \<in> set q" for x
    unfolding cds [OF that] decay_get_or(1) [OF ok] by (simp add: cooldown_score_def)
  have cd2: "cd_of ?s2 x \<le> 3" if "x \<in> set q" for x
    unfolding cd1 [OF that] using decay_get_or(2) [OF ok, of "e_task_index x"]
    by (simp add: cooldown_score_def)
  have "cd_of ?s2 ?e' = 3" by (simp add: cooldown_score_def COOLDOWN_PENALTY_def)
  moreover have "sorted (map (cd_of ?s2) q)"
  proof -
    have "sorted (map (\<lambda>x. cd_of s x - 1) q)"
      using rr q by (auto simp: rr_queue_def sorted_wrt_map elim!: sorted_wrt_mono_rel [rotated])
    moreover have "map (cd_of ?s2) q = map (\<lambda>x. cd_of s x - 1) q" using cd1 by auto
    ultimately show ?thesis by (simp only:)
  qed
  ultimately have cooldown_sorted: "sorted (map (cd_of ?s2) (q @ [?e']))"
    using cd2 by (simp add: sorted_append)
  have "sorted (map (st_of ?s2) q)"
  proof -
    have "sorted (map (st_of s) q)" using rr q by (simp add: rr_queue_def)
    moreover have "map (st_of ?s2) q = map (st_of s) q" using sts by auto
    ultimately show ?thesis by (simp only:)
  qed
  moreover have "\<forall>x \<in> set q. st_of s x \<le> Suc (st_of s e)" and "\<forall>x \<in> set q. st_of s e \<le> st_of s x"
    using rr q by (auto simp: rr_queue_def)
  ultimately have streak_sorted: "sorted (map (st_of ?s2) (q @ [?e']))"
    and spread: "\<forall>x \<in> set (q @ [?e']). \<forall>y \<in> set (q @ [?e']). st_of ?s2 x \<le> st_of ?s2 y + 1"
    using sts streak rr q by (auto simp: sorted_append rr_queue_def)
  have "rr_queue (Suc N) ?s2"
    using rr q d streak sts cooldown_sorted streak_sorted spread unbounded
    by (auto simp: rr_queue_def queued_indices_def charge_budget_def le_SucI)
  then show thesis by (rule that [OF rec]) (simp add: queued_indices_def)
qed

lemma serial_round_robin:
  assumes "rr_queue N s" and "N + k < 2 ^ 32" and "queued_indices s \<noteq> []"
  shows "serial_run unranked_outcome k s =
    Inr (map (\<lambda>i. queued_indices s ! (i mod length (queued_indices s))) [0..<k])"
  using assms
proof (induction k arbitrary: s N)
  case 0
  then show ?case by simp
next
  case (Suc k)
  obtain e q where q: "bs_queue s = e # q"
    using Suc.prems(3) by (cases "bs_queue s") (auto simp: queued_indices_def)
  let ?c = "\<lparr>bc_task_index = e_task_index e, bc_batch_size = bs_batch_size s,
           bc_batch_number = e_batches_completed e\<rparr>"
  from Suc.prems(2) have "Suc N < 2 ^ 32" by simp
  from rr_round [OF Suc.prems(1) q this, of ?c] obtain s2 where
    rec: "record_outcome (s\<lparr>bs_queue := q, bs_in_flight := fmupd (e_task_index e) e fmempty\<rparr>)
            (unranked_outcome ?c) = Inr s2"
    and rr2: "rr_queue (Suc N) s2" and idx: "queued_indices s2 = map e_task_index q @ [e_task_index e]"
    by auto
  have idx2: "queued_indices s2 = rotate1 (queued_indices s)"
    using idx by (simp add: queued_indices_def q)
  have "serial_run unranked_outcome k s2 =
      Inr (map (\<lambda>i. queued_indices s2 ! (i mod length (queued_indices s2))) [0..<k])"
    using Suc.IH [OF rr2] Suc.prems(2) idx by simp
  moreover have "queued_indices s2 ! (i mod length (queued_indices s2)) =
      queued_indices s ! (Suc i mod length (queued_indices s))" for i
  proof -
    have "i mod length (queued_indices s) < length (queued_indices s)"
      using Suc.prems(3) by simp
    then show ?thesis
      unfolding idx2 by (simp add: nth_rotate1 mod_Suc_eq)
  qed
  moreover have "hd (queued_indices s) = e_task_index e" and "queued_indices s ! 0 = e_task_index e"
    by (simp_all add: queued_indices_def q)
  ultimately show ?case
    by (simp add: rr_head_first [OF Suc.prems(1) q] rec map_upt_Suc del: upt_Suc)
qed

lemma sched_new_rr: "rr_queue 0 (sched_new n None z)"
  by (auto simp: rr_queue_def sched_new_def queued_indices_def comp_def cooldown_score_def
      map_replicate_const)

lemma queued_indices_new: "queued_indices (sched_new n b z) = [0..<n]"
  by (simp add: queued_indices_def sched_new_def comp_def)

section \<open>Properties\<close>

text \<open>C14: in every state reachable by any interleaving of \<open>next_batch\<close>,
  \<open>record_outcome\<close> and \<open>enqueue\<close> from a fresh scheduler, a function has at most one queue
  entry, a queued function is not leased, and deferred budgets belong to leased functions.\<close>

theorem sched_reachable_inv:
  assumes "sched_init s" and "sched_step\<^sup>*\<^sup>* s t"
  shows "distinct (queued_indices t) \<and> (\<forall>i \<in> set (queued_indices t). \<not> is_leased t i) \<and>
    (\<forall>i. fmlookup (bs_deferred t) i \<noteq> None \<longrightarrow> is_leased t i)"
  using sched.inv_reachable [OF assms]
  by (auto simp: sched_inv_def is_leased_def queued_indices_def)

theorem sched_reachable_inv_witness:
  "distinct (queued_indices (snd (next_batch (sched_new 2 (Some 10) 5)))) \<and>
   queued_indices (snd (next_batch (sched_new 2 (Some 10) 5))) = [1]"
proof -
  have "sched_init (sched_new 2 (Some 10) 5)" by (auto simp: sched_init_def)
  moreover have "sched_step\<^sup>*\<^sup>* (sched_new 2 (Some 10) 5) (snd (next_batch (sched_new 2 (Some 10) 5)))"
    by (rule r_into_rtranclp) (rule sched_step.intros)
  ultimately have "distinct (queued_indices (snd (next_batch (sched_new 2 (Some 10) 5))))"
    using sched_reachable_inv by blast
  then show ?thesis by code_simp
qed

text \<open>C2: leases are exclusive. In any history of the scheduler that does not panic, between
  two batches granted for the same function its first lease was released.\<close>

theorem sched_leases_exclusive:
  assumes "sched_inv s"
    and "run_sched s ops = Inr (xs @ Granted c # ys @ Granted c' # zs, s')"
    and "bc_task_index c' = bc_task_index c"
  shows "Released (bc_task_index c) \<in> set ys"
  using sched.leases_exclusive [OF _ assms(1,3)] assms(2) by (auto simp: run_sched_def)

definition demo_outcome :: "usize \<Rightarrow> u32 \<Rightarrow> i64 \<Rightarrow> batch_outcome" where
  "demo_outcome t used r =
     \<lparr>bo_task_index = t, bo_iterations_used = used, bo_exhausted = False, bo_rank = r, bo_summary = None\<rparr>"

lemma demo_history:
  "\<exists>s'. run_sched (sched_new 1 (Some 10) 5) [GrantOp, ReleaseOp (demo_outcome 0 5 1), GrantOp] =
     Inr ([] @ Granted \<lparr>bc_task_index = 0, bc_batch_size = 5, bc_batch_number = 0\<rparr> # [Released 0] @
       Granted \<lparr>bc_task_index = 0, bc_batch_size = 5, bc_batch_number = 1\<rparr> # [], s')"
proof -
  have "(case run_sched (sched_new 1 (Some 10) 5) [GrantOp, ReleaseOp (demo_outcome 0 5 1), GrantOp] of
     Inl _ \<Rightarrow> None | Inr (evs, _) \<Rightarrow> Some evs) =
   Some [Granted \<lparr>bc_task_index = 0, bc_batch_size = 5, bc_batch_number = 0\<rparr>, Released 0,
    Granted \<lparr>bc_task_index = 0, bc_batch_size = 5, bc_batch_number = 1\<rparr>]"
    by code_simp
  then show ?thesis by (auto split: sum.splits)
qed

theorem sched_leases_exclusive_witness:
  "\<exists>ys s'. sched_inv (sched_new 1 (Some 10) 5) \<and>
     run_sched (sched_new 1 (Some 10) 5) [GrantOp, ReleaseOp (demo_outcome 0 5 1), GrantOp] =
       Inr ([] @ Granted \<lparr>bc_task_index = 0, bc_batch_size = 5, bc_batch_number = 0\<rparr> # ys @
         Granted \<lparr>bc_task_index = 0, bc_batch_size = 5, bc_batch_number = 1\<rparr> # [], s') \<and>
     Released 0 \<in> set ys"
proof -
  obtain s' where run: "run_sched (sched_new 1 (Some 10) 5) [GrantOp, ReleaseOp (demo_outcome 0 5 1), GrantOp] =
     Inr ([] @ Granted \<lparr>bc_task_index = 0, bc_batch_size = 5, bc_batch_number = 0\<rparr> # [Released 0] @
       Granted \<lparr>bc_task_index = 0, bc_batch_size = 5, bc_batch_number = 1\<rparr> # [], s')"
    using demo_history by blast
  from sched_leases_exclusive [OF sched_new_inv run] have "Released 0 \<in> set [Released 0]" by simp
  with run sched_new_inv show ?thesis by blast
qed

text \<open>C21: selection. When \<open>next_batch\<close> grants a batch, the granted entry was queued with a
  non-zero budget, no queued entry with budget has a larger effective rank, every entry
  queued before it has a strictly smaller one (first in, first out among ties), and the batch is
  limited by both the batch size and the remaining budget.\<close>

theorem next_batch_selects:
  assumes "next_batch s = (Some c, s')"
  shows "\<exists>i < length (live_queue s). \<exists>e. e = live_queue s ! i \<and> bc_task_index c = e_task_index e \<and>
    (\<forall>x \<in> set (bs_queue s). e_remaining x \<noteq> Some 0 \<longrightarrow>
       sint (effective_rank s x) \<le> sint (effective_rank s e)) \<and>
    (\<forall>n < i. sint (effective_rank s (live_queue s ! n)) < sint (effective_rank s e)) \<and>
    bc_batch_size c \<le> bs_batch_size s \<and>
    (\<forall>r. e_remaining e = Some r \<longrightarrow> bc_batch_size c \<le> r \<and> r \<noteq> 0) \<and>
    fmlookup (bs_in_flight s') (bc_task_index c) = Some e"
proof -
  from assms obtain i e where i: "i < length (live_queue s)" and e: "e = live_queue s ! i"
    and best: "\<forall>x \<in> set (live_queue s). sint (effective_rank s x) \<le> sint (effective_rank s e)"
    and first: "\<forall>n < i. sint (effective_rank s (live_queue s ! n)) < sint (effective_rank s e)"
    and c: "c = \<lparr>bc_task_index = e_task_index e, bc_batch_size = batch_iters s e,
              bc_batch_number = e_batches_completed e\<rparr>"
    and s': "s' = s\<lparr>bs_queue := remove_nth i (live_queue s),
                bs_in_flight := fmupd (e_task_index e) e (bs_in_flight s)\<rparr>"
    by (rule next_batch_Some)
  have "e_remaining e \<noteq> Some 0" using nth_mem [OF i] by (simp add: e live_queue_def)
  then show ?thesis
    using i e best first c s'
    by (intro exI [of _ i] exI [of _ e]) (auto simp: live_queue_def batch_iters_def split: option.splits)
qed

lemma demo_next_batch:
  "fst (next_batch (sched_new 2 (Some 3) 5)) =
     Some \<lparr>bc_task_index = 0, bc_batch_size = 3, bc_batch_number = 0\<rparr>"
  by code_simp

theorem next_batch_selects_witness:
  "\<exists>c s'. next_batch (sched_new 2 (Some 3) 5) = (Some c, s') \<and>
     bc_task_index c = 0 \<and> bc_batch_size c \<le> (5 :: u32)"
proof -
  let ?c = "\<lparr>bc_task_index = 0, bc_batch_size = 3, bc_batch_number = 0\<rparr>"
  obtain s' where nb: "next_batch (sched_new 2 (Some 3) 5) = (Some ?c, s')"
    using demo_next_batch by (cases "next_batch (sched_new 2 (Some 3) 5)") auto
  from next_batch_selects [OF nb] have "bc_batch_size ?c \<le> bs_batch_size (sched_new 2 (Some 3) 5)"
    by auto
  with nb show ?thesis by (auto simp: sched_new_def)
qed

text \<open>C6: the scheduler refines the lease protocol. Seen through \<open>task_view\<close>, granting moves
  exactly one waiting function with budget to leased and forgets spent ones, recording an outcome
  applies \<open>release_task\<close> to the reported function only, and enqueueing applies
  \<open>request_task\<close> to the requested function only.\<close>

theorem sched_refines_lease_protocol:
  assumes "sched_inv s"
  shows "(\<forall>c s'. next_batch s = (Some c, s') \<longrightarrow>
            (\<exists>b. task_view s (bc_task_index c) = Waiting b \<and> b \<noteq> Some 0 \<and>
              task_view s' = (\<lambda>t. drop_spent (task_view s t))(bc_task_index c := Leased b None))) \<and>
         (\<forall>out s'. record_outcome s out = Inr s' \<longrightarrow>
            task_view s' = (task_view s)(bo_task_index out :=
              release_task (bo_iterations_used out) (bo_exhausted out) (task_view s (bo_task_index out)))) \<and>
         (\<forall>t b. task_view (snd (enqueue s t b)) = (task_view s)(t := request_task b (task_view s t)))"
  using sched.grant_Some [OF assms] sched.release_Inr [OF assms] sched.request_view [OF assms] by blast

theorem sched_refines_lease_protocol_witness:
  "task_view (snd (enqueue (sched_new 1 (Some 4) 5) 0 (Some 3))) 0 = Waiting (Some 7)"
proof -
  have "task_view (snd (enqueue (sched_new 1 (Some 4) 5) 0 (Some 3))) =
    (task_view (sched_new 1 (Some 4) 5))(0 := request_task (Some 3) (task_view (sched_new 1 (Some 4) 5) 0))"
    using sched_refines_lease_protocol [OF sched_new_inv [of 1 "Some 4" 5]] by blast
  moreover have "task_view (sched_new 1 (Some 4) 5) 0 = Waiting (Some 4)" by code_simp
  ultimately show ?thesis by (simp add: sat_add_def)
qed

text \<open>C15: work enqueued for a leased function is not lost. If a budget is enqueued while the
  function is leased, then recording its outcome does not panic and the function is waiting again,
  even if the worker reported it exhausted. Its budget is the unspent one merged with the enqueued
  one, and with what was already deferred for the function.\<close>

theorem deferred_work_not_lost:
  assumes "sched_inv s" and "fmlookup (bs_in_flight s) (bo_task_index out) = Some e"
  shows "\<exists>s'. record_outcome (snd (enqueue s (bo_task_index out) budget)) out = Inr s' \<and>
    task_view s' (bo_task_index out) =
      Waiting (merge_budgets (charge_budget (bo_iterations_used out) (e_remaining e))
        (case fmlookup (bs_deferred s) (bo_task_index out) of
           None \<Rightarrow> budget
         | Some deferred \<Rightarrow> merge_budgets deferred budget))"
  by (rule sched.deferred_not_lost [OF assms(1)]) (simp add: task_view_def assms)

text \<open>A function of budget 5 was leased and a budget of 2 was deferred for it.\<close>

definition deferred_sched :: batch_scheduler where
  "deferred_sched = snd (enqueue (snd (next_batch (sched_new 1 (Some 5) 5))) 0 (Some 2))"

theorem deferred_work_not_lost_witness:
  "\<exists>s'. record_outcome (snd (enqueue deferred_sched 0 (Some 8))) (demo_outcome 0 5 0) = Inr s' \<and>
     task_view s' 0 = Waiting (Some 10)"
proof -
  have inv: "sched_inv deferred_sched"
    unfolding deferred_sched_def by (intro enqueue_inv next_batch_inv sched_new_inv)
  have "map_option e_remaining (fmlookup (bs_in_flight deferred_sched) 0) = Some (Some 5)" by code_simp
  then obtain e where e: "fmlookup (bs_in_flight deferred_sched) (bo_task_index (demo_outcome 0 5 0)) = Some e"
    "e_remaining e = Some 5" by (auto simp: demo_outcome_def)
  have "fmlookup (bs_deferred deferred_sched) 0 = Some (Some 2)" by code_simp
  with deferred_work_not_lost [OF inv e(1), of "Some 8"] e(2) show ?thesis
    by (simp add: demo_outcome_def charge_budget_def sat_sub_def sat_add_def)
qed

text \<open>C22: bounded budgets end. Starting from a scheduler of \<open>n\<close> functions with a total budget
  \<open>b\<close> each, any history of grants and of outcomes that used at least one iteration or report
  exhaustion, with no new requests, grants at most \<open>n * b\<close> batches.\<close>

theorem budget_bounds_batches:
  assumes "list_all progressing_op ops" and "run_sched (sched_new n (Some b) z) ops = Inr (evs, s')"
  shows "length (filter is_granted evs) \<le> n * unat b"
  using run_potential [OF assms(2) sched_new_inv sched_new_bounded assms(1)]
  by (simp add: sched_new_potential)

theorem budget_bounds_batches_witness:
  "\<exists>evs s'. run_sched (sched_new 1 (Some 10) 5) [GrantOp, ReleaseOp (demo_outcome 0 5 1), GrantOp] = Inr (evs, s') \<and>
     length (filter is_granted evs) \<le> 1 * unat (10 :: u32)"
proof -
  obtain evs s' where run: "run_sched (sched_new 1 (Some 10) 5) [GrantOp, ReleaseOp (demo_outcome 0 5 1), GrantOp] =
     Inr (evs, s')"
    using demo_history by blast
  have "list_all progressing_op [GrantOp, ReleaseOp (demo_outcome 0 5 1), GrantOp]"
    by (simp add: demo_outcome_def)
  from budget_bounds_batches [OF this run] run show ?thesis by blast
qed

text \<open>C23: round robin. With unbounded budgets, a serial worker whose batches all report rank
  zero without a summary is given the \<open>n\<close> functions strictly in turn: the \<open>i\<close>-th batch goes
  to function \<open>i mod n\<close>, in spite of the cooldown and miss-streak penalties.\<close>

theorem rank_zero_round_robin:
  assumes "0 < n" and "k < 2 ^ 32"
  shows "serial_run unranked_outcome k (sched_new n None z) = Inr (map (\<lambda>i. i mod n) [0..<k])"
  using serial_round_robin [OF sched_new_rr, of k n z] assms by (simp add: queued_indices_new)

theorem rank_zero_round_robin_witness:
  "serial_run unranked_outcome 5 (sched_new 2 None 50) = Inr [0, 1, 0, 1, 0]"
proof -
  have "serial_run unranked_outcome 5 (sched_new 2 None 50) = Inr (map (\<lambda>i. i mod 2) [0..<5])"
    by (rule rank_zero_round_robin) simp_all
  also have "map (\<lambda>i. i mod 2) [0..<5] = [0, 1, 0, 1, 0 :: nat]" by code_simp
  finally show ?thesis .
qed

text \<open>
  A serial run of two functions with unbounded budgets. A seat is a function of rank zero with its
  cooldown and its miss streak; the two functions sit in the order of the queue.
\<close>

definition seat :: "batch_scheduler \<Rightarrow> sched_entry \<Rightarrow> usize \<Rightarrow> nat \<Rightarrow> nat \<Rightarrow> bool" where
  "seat s e t cd st \<longleftrightarrow>
     e_task_index e = t \<and> e_remaining e = None \<and> e_rank e = 0 \<and> cd_of s e = cd \<and> st_of s e = st"

definition duo :: "batch_scheduler \<Rightarrow> usize \<times> nat \<times> nat \<Rightarrow> usize \<times> nat \<times> nat \<Rightarrow> bool" where
  "duo s a b \<longleftrightarrow>
     (case (a, b) of ((f, cf, mf), (g, cg, mg)) \<Rightarrow>
        f \<noteq> g \<and> (\<exists>x y. bs_queue s = [x, y] \<and> seat s x f cf mf \<and> seat s y g cg mg)) \<and>
     bs_in_flight s = fmempty \<and> bs_deferred s = fmempty \<and> cooldowns_ok (bs_cooldown s)"

text \<open>Outcomes of rank zero; the functions in \<open>M\<close> find no new coverage, the others do.\<close>

definition rank_zero_report :: "(batch_config \<Rightarrow> batch_outcome) \<Rightarrow> usize set \<Rightarrow> bool" where
  "rank_zero_report report M \<longleftrightarrow>
     (\<forall>c. bo_task_index (report c) = bc_task_index c \<and> bo_rank (report c) = 0 \<and> \<not> bo_exhausted (report c) \<and>
        (is_miss (report c) \<longleftrightarrow> bc_task_index c \<in> M))"

definition after_batch :: "usize set \<Rightarrow> usize \<Rightarrow> nat \<Rightarrow> nat" where
  "after_batch M t st = (if t \<in> M then Suc st else 0)"

lemma duo_record:
  assumes r: "rank_zero_report report M" and c: "bc_task_index c = f"
    and x: "seat s x f cf mf" and y: "seat s y g cg mg" and fg: "f \<noteq> g"
    and s: "bs_deferred s = fmempty" "cooldowns_ok (bs_cooldown s)" and mf: "Suc mf < 2 ^ 32"
  shows "\<exists>s2. record_outcome (s\<lparr>bs_queue := [y], bs_in_flight := fmupd f x fmempty\<rparr>) (report c) = Inr s2 \<and>
    duo s2 (g, cg - 1, mg) (f, 3, after_batch M f mf)"
proof -
  let ?x = "(charge_entry x (report c))\<lparr>e_rank := 0\<rparr>"
  let ?s2 = "s\<lparr>bs_queue := [y, ?x], bs_in_flight := fmempty, bs_deferred := fmempty,
     bs_miss_streak := (if f \<in> M then fmupd f (fm_get_or (bs_miss_streak s) f 0 + 1) (bs_miss_streak s)
                        else fmdrop f (bs_miss_streak s)),
     bs_cooldown := fmupd f COOLDOWN_PENALTY (decay_cooldowns (bs_cooldown s))\<rparr>"
  have rec: "record_outcome (s\<lparr>bs_queue := [y], bs_in_flight := fmupd f x fmempty\<rparr>) (report c) = Inr ?s2"
    using r c x s by (simp add: record_outcome_def Let_def rank_zero_report_def seat_def charge_entry_def fmdrop_fmupd_same)
  have "seat ?s2 ?x f 3 (after_batch M f mf)"
    using x mf by (auto simp: seat_def charge_entry_def cooldown_score_def COOLDOWN_PENALTY_def after_batch_def
        fm_get_or_def unat_word_ariths)
  moreover have "seat ?s2 y g (cg - 1) mg"
    using y fg decay_get_or(1) [OF s(2), of g] by (auto simp: seat_def cooldown_score_def fm_get_or_def)
  moreover have "cooldowns_ok (bs_cooldown ?s2)"
    using s(2) by auto
  ultimately have "duo ?s2 (g, cg - 1, mg) (f, 3, after_batch M f mf)" using fg by (simp add: duo_def)
  with rec show ?thesis by blast
qed

lemma duo_next:
  assumes q: "bs_queue s = [x, y]" and x: "seat s x f cf mf" and y: "seat s y g cg mg"
    and s: "bs_in_flight s = fmempty" "cooldowns_ok (bs_cooldown s)"
  shows "\<exists>c. next_batch s =
      (if cf + 2 * mf \<le> cg + 2 * mg then (Some c, s\<lparr>bs_queue := [y], bs_in_flight := fmupd f x fmempty\<rparr>)
       else (Some c, s\<lparr>bs_queue := [x], bs_in_flight := fmupd g y fmempty\<rparr>)) \<and>
    bc_task_index c = (if cf + 2 * mf \<le> cg + 2 * mg then f else g)"
proof -
  have eff: "sint (effective_rank s e) = - int (cd + 2 * st)" if e: "seat s e t cd st" for e t cd st
  proof -
    have "sint (effective_rank s e) = - int (cd_of s e) - 2 * int (st_of s e)"
      using effective_rank_sint [of e s] s(2) e by (simp add: seat_def)
    moreover have "cd_of s e = cd" "st_of s e = st" using e unfolding seat_def by blast+
    ultimately show ?thesis by simp
  qed
  have live: "filter (\<lambda>e. e_remaining e \<noteq> Some 0) (bs_queue s) = [x, y]" using q x y by (simp add: seat_def)
  have same: "s\<lparr>bs_queue := [x, y]\<rparr> = s" using q by simp
  have scan: "max_scan (\<lambda>e. sint (effective_rank s e)) 0 None [x, y] =
      (if cf + 2 * mf \<le> cg + 2 * mg then Some (0, - int (cf + 2 * mf)) else Some (1, - int (cg + 2 * mg)))"
    unfolding max_scan.simps eff [OF x] eff [OF y] by (simp add: not_less)
  show ?thesis
  proof (cases "cf + 2 * mf \<le> cg + 2 * mg")
    case True
    then show ?thesis
      unfolding next_batch_def live Let_def same unfolding q scan using x s(1) by (simp add: seat_def remove_nth_def)
  next
    case False
    then show ?thesis
      unfolding next_batch_def live Let_def same unfolding q scan using y s(1) by (simp add: seat_def remove_nth_def)
  qed
qed

lemma duo_step:
  assumes "rank_zero_report report M" and "duo s (f, cf, mf) (g, cg, mg)" and "Suc mf < 2 ^ 32" and "Suc mg < 2 ^ 32"
  shows "cf + 2 * mf \<le> cg + 2 * mg \<Longrightarrow>
      \<exists>s2. duo s2 (g, cg - 1, mg) (f, 3, after_batch M f mf) \<and>
        (\<forall>k. serial_run report (Suc k) s = map_sum id (Cons f) (serial_run report k s2))"
    and "cg + 2 * mg < cf + 2 * mf \<Longrightarrow>
      \<exists>s2. duo s2 (f, cf - 1, mf) (g, 3, after_batch M g mg) \<and>
        (\<forall>k. serial_run report (Suc k) s = map_sum id (Cons g) (serial_run report k s2))"
proof -
  obtain x y where q: "bs_queue s = [x, y]" and x: "seat s x f cf mf" and y: "seat s y g cg mg" and fg: "f \<noteq> g"
    and s: "bs_in_flight s = fmempty" "bs_deferred s = fmempty" "cooldowns_ok (bs_cooldown s)"
    using assms(2) by (auto simp: duo_def)
  have cons: "(case r of Inl p \<Rightarrow> Inl p | Inr ts \<Rightarrow> Inr (t # ts)) = map_sum id (Cons t) r"
    for r :: "panic + usize list" and t by (cases r) simp_all
  note nb = duo_next [OF q x y s(1,3)]
  show "\<exists>s2. duo s2 (g, cg - 1, mg) (f, 3, after_batch M f mf) \<and>
        (\<forall>k. serial_run report (Suc k) s = map_sum id (Cons f) (serial_run report k s2))"
    if le: "cf + 2 * mf \<le> cg + 2 * mg"
  proof -
    from nb le obtain c where c: "next_batch s = (Some c, s\<lparr>bs_queue := [y], bs_in_flight := fmupd f x fmempty\<rparr>)"
      "bc_task_index c = f" by auto
    from duo_record [OF assms(1) c(2) x y fg s(2,3) assms(3)] obtain s2 where
      "record_outcome (s\<lparr>bs_queue := [y], bs_in_flight := fmupd f x fmempty\<rparr>) (report c) = Inr s2"
      "duo s2 (g, cg - 1, mg) (f, 3, after_batch M f mf)" by blast
    with c show ?thesis by (intro exI [of _ s2]) (simp add: cons)
  qed
  show "\<exists>s2. duo s2 (f, cf - 1, mf) (g, 3, after_batch M g mg) \<and>
        (\<forall>k. serial_run report (Suc k) s = map_sum id (Cons g) (serial_run report k s2))"
    if lt: "cg + 2 * mg < cf + 2 * mf"
  proof -
    from nb lt obtain c where c: "next_batch s = (Some c, s\<lparr>bs_queue := [x], bs_in_flight := fmupd g y fmempty\<rparr>)"
      "bc_task_index c = g" by auto
    from duo_record [OF assms(1) c(2) y x fg [symmetric] s(2,3) assms(4)] obtain s2 where
      "record_outcome (s\<lparr>bs_queue := [x], bs_in_flight := fmupd g y fmempty\<rparr>) (report c) = Inr s2"
      "duo s2 (f, cf - 1, mf) (g, 3, after_batch M g mg)" by blast
    with c show ?thesis by (intro exI [of _ s2]) (simp add: cons)
  qed
qed

text \<open>A function that missed two batches never gets another one while the other finds coverage.\<close>

lemma duo_starves:
  assumes "rank_zero_report report M" and "g \<notin> M" and "2 \<le> mf" and "Suc mf < 2 ^ 32"
  shows "duo s (f, cf, mf) (g, 3, 0) \<Longrightarrow> serial_run report k s = Inr (replicate k g)"
proof (induction k arbitrary: s cf)
  case (Suc k)
  from duo_step(2) [OF assms(1) Suc.prems assms(4)] assms(2,3) obtain s2 where
    "duo s2 (f, cf - 1, mf) (g, 3, 0)" "serial_run report (Suc k) s = map_sum id (Cons g) (serial_run report k s2)"
    by (auto simp: after_batch_def)
  with Suc.IH show ?case by simp
qed simp

lemma duo_new: "duo (sched_new 2 None z) (0, 0, 0) (1, 0, 0)"
  by (simp add: duo_def seat_def sched_new_def cooldown_score_def upt_rec numeral_2_eq_2 cooldowns_ok_def)

lemma duo_schedule:
  assumes r: "rank_zero_report report {1}"
  shows "serial_run report (5 + k) (sched_new 2 None z) = Inr ([0, 1, 0, 0, 1] @ replicate k 0)"
proof -
  note first = duo_step(1) [OF r] and second = duo_step(2) [OF r]
  obtain s1 where 1: "duo s1 (1, 0, 0) (0, 3, 0)"
    "\<And>k. serial_run report (Suc k) (sched_new 2 None z) = map_sum id (Cons 0) (serial_run report k s1)"
    using first [OF duo_new] by (auto simp: after_batch_def)
  obtain s2 where 2: "duo s2 (0, 2, 0) (1, 3, 1)"
    "\<And>k. serial_run report (Suc k) s1 = map_sum id (Cons 1) (serial_run report k s2)"
    using first [OF 1(1)] by (auto simp: after_batch_def)
  obtain s3 where 3: "duo s3 (1, 2, 1) (0, 3, 0)"
    "\<And>k. serial_run report (Suc k) s2 = map_sum id (Cons 0) (serial_run report k s3)"
    using first [OF 2(1)] by (auto simp: after_batch_def)
  obtain s4 where 4: "duo s4 (1, 1, 1) (0, 3, 0)"
    "\<And>k. serial_run report (Suc k) s3 = map_sum id (Cons 0) (serial_run report k s4)"
    using second [OF 3(1)] by (auto simp: after_batch_def)
  obtain s5 where 5: "duo s5 (0, 2, 0) (1, 3, Suc (Suc 0))"
    "\<And>k. serial_run report (Suc k) s4 = map_sum id (Cons 1) (serial_run report k s5)"
    using first [OF 4(1)] by (auto simp: after_batch_def)
  have "serial_run report k s5 = Inr (replicate k 0)"
  proof (cases k)
    case (Suc n)
    obtain s6 where 6: "duo s6 (1, 2, Suc (Suc 0)) (0, 3, 0)"
      "serial_run report (Suc n) s5 = map_sum id (Cons 0) (serial_run report n s6)"
      using first [OF 5(1)] by (auto simp: after_batch_def)
    with duo_starves [OF r _ _ _ 6(1), of n] Suc show ?thesis by simp
  qed simp
  then show ?thesis using 1(2) 2(2) 3(2) 4(2) 5(2) by (simp add: eval_nat_numeral)
qed

text \<open>C24: with outcomes of rank zero the scheduler need not be a round robin, it can starve a
  function. Let two functions with unbounded budgets be run by a serial worker whose batches all
  report rank zero and no exhaustion; those of function 0 find coverage and those of function 1 do
  not. Then the batches go to 0, 1, 0, 0, 1 and from then on to function 0 only, however long the run
  is: after its second miss the penalty of function 1 exceeds the cooldown of function 0 for ever.\<close>

theorem rank_zero_starves:
  assumes "\<And>c. bo_task_index (report c) = bc_task_index c \<and> bo_rank (report c) = 0 \<and> \<not> bo_exhausted (report c)"
    and "\<And>c. is_miss (report c) \<longleftrightarrow> bc_task_index c = 1"
  shows "serial_run report (5 + k) (sched_new 2 None z) = Inr ([0, 1, 0, 0, 1] @ replicate k 0)"
  by (rule duo_schedule) (simp add: rank_zero_report_def assms)

text \<open>Function 0 reports a new class in each batch.\<close>

definition summary_of_classes :: "usize \<Rightarrow> worker_batch_summary" where
  "summary_of_classes n =
     (let c = \<lparr>cc_total_branches = 4, cc_covered = 1, cc_z3_solved = 0, cc_random_found = 1,
               cc_user_provided = 0, cc_uncovered = 3\<rparr>
      in \<lparr>wbs_executions_run = 5, wbs_coverage_before = c, wbs_coverage_after = c,
          wbs_uncovered_remaining = 3, wbs_new_classes = n, wbs_new_retained_inputs = 0,
          wbs_failures = 0\<rparr>)"

definition summarised_outcome :: "batch_config \<Rightarrow> batch_outcome" where
  "summarised_outcome c =
     (unranked_outcome c)\<lparr>bo_summary := Some (summary_of_classes (if bc_task_index c = 1 then 0 else 1))\<rparr>"

theorem rank_zero_starves_witness:
  "serial_run summarised_outcome (5 + 100) (sched_new 2 None 50) = Inr ([0, 1, 0, 0, 1] @ replicate 100 0)"
  by (rule rank_zero_starves)
    (simp_all add: summarised_outcome_def unranked_outcome_def is_miss_def summary_of_classes_def Let_def)

end
