(* ===== verification/Json_Value.thy ===== *)
theory Json_Value
  imports Shatter_Prelude "HOL-Library.List_Lexorder" "HOL-Library.Char_ord"
begin

text \<open>
  The JSON values that the engine passes around (\<open>serde_json::Value\<close>): a number is a
  non-negative integer, a negative integer or a finite double, kept as its 64-bit
  pattern; the entries of an object are listed in key order, as the crate's
  \<open>BTreeMap\<close>-backed map iterates them. Strings are byte strings (UTF-8), ordered
  byte-lexicographically like Rust's.
\<close>

type_synonym f64 = "64 word"

text \<open>
  A float is its bit pattern. Rust's \<open>==\<close> on floats is not the equality of bits: a NaN (all
  exponent bits set, a non-zero fraction) differs from everything, and the two zeros are equal.
\<close>

definition f64_is_nan :: "f64 \<Rightarrow> bool" where
  "f64_is_nan x \<longleftrightarrow> uint x mod 2 ^ 63 > 0x7FF0000000000000"

definition f64_is_zero :: "f64 \<Rightarrow> bool" where
  "f64_is_zero x \<longleftrightarrow> uint x mod 2 ^ 63 = 0"

definition f64_eq :: "f64 \<Rightarrow> f64 \<Rightarrow> bool" where
  "f64_eq x y \<longleftrightarrow> \<not> f64_is_nan x \<and> \<not> f64_is_nan y \<and> (x = y \<or> f64_is_zero x \<and> f64_is_zero y)"

datatype json_number = PosInt u64 | NegInt i64 | Float f64

datatype json =
    JNull
  | JBool bool
  | JNumber json_number
  | JString string
  | JArray "json list"
  | JObject "(string \<times> json) list"

end
