(* ===== verification/Type_Info.thy ===== *)
theory Type_Info
  imports Rust_Strings Json_Value "HOL-Library.Multiset"
begin

text \<open>
  The type descriptions that language frontends report (\<open>shatter-core/src/types.rs\<close>): the
  type tree, the search for opaque nodes with the nesting path it leaves behind, integer
  ranges, and the recognition of tuples encoded as objects with positional field names.
\<close>

section \<open>Data\<close>

datatype static_opacity_reason =
    NoConstructor | TransitivelyOpaque | AbstractType | NoImplementors

datatype medium_opacity_reason =
    InfrastructurePackage | CloseableInterface | NativeHandleField

datatype complex_kind =
    CkDate | CkDateTime | CkTime | CkDuration
  | CkRegExp | CkChar | CkSymbol
  | CkBigInt | CkBigDecimal | CkComplex | CkRational | CkRange
  | CkBuffer | CkBitSet
  | CkError | CkOption | CkResult
  | CkClosure | CkIterator
  | CkUrl | CkIpAddress
  | CkUuid
  | CkPath
  | CkMoney | CkSemVer | CkEmail | CkMimeType | CkColor | CkGeoPoint | CkLocale
  | CkRune | CkGoByte | CkGoUint | CkGoDuration

datatype type_info =
    TInt "u8 option" "bool option"
  | TFloat
  | TStr
  | TBool
  | TArray type_info
  | TObject "(string \<times> type_info) list"
  | TUnion "type_info list" "json list"
  | TNullable type_info
  | TComplex complex_kind "(string \<times> json) list" "type_info option"
  | TOpaque string "static_opacity_reason option" "medium_opacity_reason option"
  | TUnknown

datatype path_segment =
    SegParam string
  | SegField string
  | SegArrayElement
  | SegMapValue
  | SegUnionVariant
  | SegNullableInner
  | SegComplexInner

record param_info =
  pi_name :: string
  pi_typ :: type_info
  pi_type_name :: "string option"

type_synonym opaque_node = "string \<times> static_opacity_reason option \<times> medium_opacity_reason option"

section \<open>Operations\<close>

fun has_opaque :: "type_info \<Rightarrow> bool" where
  "has_opaque (TOpaque _ _ _) = True"
| "has_opaque (TArray element) = has_opaque element"
| "has_opaque (TObject fs) = list_ex (\<lambda>(_, t). has_opaque t) fs"
| "has_opaque (TUnion variants _) = list_ex has_opaque variants"
| "has_opaque (TNullable inner) = has_opaque inner"
| "has_opaque (TComplex _ _ inner) = (case inner of None \<Rightarrow> False | Some t \<Rightarrow> has_opaque t)"
| "has_opaque (TInt _ _) = False"
| "has_opaque TFloat = False"
| "has_opaque TStr = False"
| "has_opaque TBool = False"
| "has_opaque TUnknown = False"

fun is_map_encoding :: "(string \<times> type_info) list \<Rightarrow> bool" where
  "is_map_encoding [k, v] = (fst k = ''_key'' \<and> fst v = ''_value'')"
| "is_map_encoding _ = False"

text \<open>
  The search pushes a segment before it descends and pops it when it comes back
  empty-handed; the path is passed along as the caller's \<open>Vec\<close> is.
\<close>

fun find_opaque_node :: "type_info \<Rightarrow> path_segment list \<Rightarrow> opaque_node option \<times> path_segment list"
  and find_opaque_field :: "(string \<times> type_info) list \<Rightarrow> path_segment list \<Rightarrow> opaque_node option \<times> path_segment list"
  and find_opaque_variant :: "type_info list \<Rightarrow> path_segment list \<Rightarrow> opaque_node option \<times> path_segment list"
where
  "find_opaque_node (TOpaque label static medium) path = (Some (label, static, medium), path)"
| "find_opaque_node (TArray element) path =
     (case find_opaque_node element (path @ [SegArrayElement]) of
        (Some r, path') \<Rightarrow> (Some r, path')
      | (None, path') \<Rightarrow> (None, butlast path'))"
| "find_opaque_node (TObject fs) path =
     (if is_map_encoding fs then (None, path) else find_opaque_field fs path)"
| "find_opaque_node (TUnion variants _) path = find_opaque_variant variants path"
| "find_opaque_node (TNullable inner) path =
     (case find_opaque_node inner (path @ [SegNullableInner]) of
        (Some r, path') \<Rightarrow> (Some r, path')
      | (None, path') \<Rightarrow> (None, butlast path'))"
| "find_opaque_node (TComplex _ _ inner) path =
     (case inner of
        None \<Rightarrow> (None, path)
      | Some t \<Rightarrow>
          (case find_opaque_node t (path @ [SegComplexInner]) of
             (Some r, path') \<Rightarrow> (Some r, path')
           | (None, path') \<Rightarrow> (None, butlast path')))"
| "find_opaque_node (TInt _ _) path = (None, path)"
| "find_opaque_node TFloat path = (None, path)"
| "find_opaque_node TStr path = (None, path)"
| "find_opaque_node TBool path = (None, path)"
| "find_opaque_node TUnknown path = (None, path)"
| "find_opaque_field [] path = (None, path)"
| "find_opaque_field ((name, t) # fs) path =
     (case find_opaque_node t (path @ [SegField name]) of
        (Some r, path') \<Rightarrow> (Some r, path')
      | (None, path') \<Rightarrow> find_opaque_field fs (butlast path'))"
| "find_opaque_variant [] path = (None, path)"
| "find_opaque_variant (t # ts) path =
     (case find_opaque_node t (path @ [SegUnionVariant]) of
        (Some r, path') \<Rightarrow> (Some r, path')
      | (None, path') \<Rightarrow> find_opaque_variant ts (butlast path'))"

definition int_range :: "u8 option \<Rightarrow> bool option \<Rightarrow> (int \<times> int) option" where
  "int_range int_width int_signed =
     (case (int_width, int_signed) of
        (Some w, Some s) \<Rightarrow>
          if w = 8 \<and> \<not> s then Some (0, 255)
          else if w = 8 \<and> s then Some (-128, 127)
          else if w = 16 \<and> \<not> s then Some (0, 65535)
          else if w = 16 \<and> s then Some (-32768, 32767)
          else if w = 32 \<and> \<not> s then Some (0, 4294967295)
          else if w = 32 \<and> s then Some (-2147483648, 2147483647)
          else None
      | _ \<Rightarrow> None)"

fun type_int_range :: "type_info \<Rightarrow> (int \<times> int) option" where
  "type_int_range (TInt int_width int_signed) = int_range int_width int_signed"
| "type_int_range _ = None"

definition MAX_POSITIONAL_ARITY_INDEX :: nat where
  "MAX_POSITIONAL_ARITY_INDEX = 63"

definition index_spelling :: "string \<Rightarrow> nat option" where
  "index_spelling segment =
     (if segment = [] \<or> \<not> list_all is_ascii_digit segment then None
      else if length segment > 1 \<and> hd segment = CHR ''0'' then None
      else (case parse_unsigned 64 segment of
              None \<Rightarrow> None
            | Some index \<Rightarrow> if index \<le> MAX_POSITIONAL_ARITY_INDEX then Some index else None))"

text \<open>The index of a declared field name that is below the number of fields.\<close>

definition field_index :: "nat \<Rightarrow> string \<Rightarrow> nat option" where
  "field_index n name =
     (case index_spelling name of None \<Rightarrow> None | Some index \<Rightarrow> if index < n then Some index else None)"

fun mark_positions :: "nat \<Rightarrow> bool list \<Rightarrow> (string \<times> type_info) list \<Rightarrow> bool list option" where
  "mark_positions n seen [] = Some seen"
| "mark_positions n seen ((declared, _) # fs) =
     (case field_index n declared of
        Some index \<Rightarrow> mark_positions n (seen[index := True]) fs
      | None \<Rightarrow> None)"

definition positional_object_arity :: "(string \<times> type_info) list \<Rightarrow> nat" where
  "positional_object_arity fs =
     (if fs = [] then 0
      else case mark_positions (length fs) (replicate (length fs) False) fs of
             None \<Rightarrow> 0
           | Some seen \<Rightarrow> if list_all id seen then length fs else 0)"

fun place_fields :: "nat \<Rightarrow> type_info option list \<Rightarrow> (string \<times> type_info) list \<Rightarrow> type_info option list" where
  "place_fields n ordered [] = ordered"
| "place_fields n ordered ((name, typ) # fs) =
     place_fields n
       (case field_index n name of Some index \<Rightarrow> ordered[index := Some typ] | None \<Rightarrow> ordered) fs"

fun unwrap_all :: "nat \<Rightarrow> type_info option list \<Rightarrow> panic + type_info list" where
  "unwrap_all i [] = Inr []"
| "unwrap_all i (None # _) = Inl (Panic (''positional_field_types: index '' @ show_nat i @ '' missing ''
     @ em_dash @ '' caller must check positional_object_arity first''))"
| "unwrap_all i (Some t # ts) =
     (case unwrap_all (Suc i) ts of Inl p \<Rightarrow> Inl p | Inr us \<Rightarrow> Inr (t # us))"

definition positional_field_types :: "(string \<times> type_info) list \<Rightarrow> panic + type_info list" where
  "positional_field_types fs =
     unwrap_all 0 (place_fields (length fs) (replicate (length fs) None) fs)"

section \<open>The opaque search finds what it should\<close>

text \<open>
  \<open>type_path maps t segs u\<close>: following the segments from \<open>t\<close> leads to the subtree \<open>u\<close>;
  with \<open>maps\<close> the walk may also enter objects that encode maps.
\<close>

inductive type_path :: "bool \<Rightarrow> type_info \<Rightarrow> path_segment list \<Rightarrow> type_info \<Rightarrow> bool" for maps where
  tp_here: "type_path maps t [] t"
| tp_array: "type_path maps t segs u \<Longrightarrow> type_path maps (TArray t) (SegArrayElement # segs) u"
| tp_field: "(name, t) \<in> set fs \<Longrightarrow> maps \<or> \<not> is_map_encoding fs \<Longrightarrow> type_path maps t segs u \<Longrightarrow>
    type_path maps (TObject fs) (SegField name # segs) u"
| tp_variant: "t \<in> set variants \<Longrightarrow> type_path maps t segs u \<Longrightarrow>
    type_path maps (TUnion variants vals) (SegUnionVariant # segs) u"
| tp_nullable: "type_path maps t segs u \<Longrightarrow> type_path maps (TNullable t) (SegNullableInner # segs) u"
| tp_complex: "type_path maps t segs u \<Longrightarrow> type_path maps (TComplex k meta (Some t)) (SegComplexInner # segs) u"

inductive_cases tp_arrayE: "type_path maps (TArray t) segs (TOpaque l s m)"
inductive_cases tp_objectE: "type_path maps (TObject fs) segs (TOpaque l s m)"
inductive_cases tp_unionE: "type_path maps (TUnion vs vals) segs (TOpaque l s m)"
inductive_cases tp_nullableE: "type_path maps (TNullable t) segs (TOpaque l s m)"
inductive_cases tp_complexE: "type_path maps (TComplex k meta inner) segs (TOpaque l s m)"
inductive_cases tp_leafE: "type_path maps (TInt w sg) segs (TOpaque l s m)"
  "type_path maps TFloat segs (TOpaque l s m)" "type_path maps TStr segs (TOpaque l s m)"
  "type_path maps TBool segs (TOpaque l s m)" "type_path maps TUnknown segs (TOpaque l s m)"

lemmas tp_elims = tp_arrayE tp_objectE tp_unionE tp_nullableE tp_complexE tp_leafE

definition leads_to_opaque :: "type_info \<Rightarrow> path_segment list \<Rightarrow> opaque_node \<Rightarrow> bool" where
  "leads_to_opaque t segs node \<longleftrightarrow>
     (case node of (label, static, medium) \<Rightarrow> type_path False t segs (TOpaque label static medium))"

lemma find_opaque_None:
  "find_opaque_node t path = (None, path') \<Longrightarrow> path' = path"
  "find_opaque_field fs path = (None, path') \<Longrightarrow> path' = path"
  "find_opaque_variant ts path = (None, path') \<Longrightarrow> path' = path"
  by (induction t path and fs path and ts path arbitrary: path' and path' and path'
      rule: find_opaque_node_find_opaque_field_find_opaque_variant.induct)
    (fastforce split: prod.splits option.splits if_splits)+

lemma leads_to_opaque_intros [intro]:
  "leads_to_opaque (TOpaque l st md) [] (l, st, md)"
  "leads_to_opaque t segs n \<Longrightarrow> leads_to_opaque (TArray t) (SegArrayElement # segs) n"
  "leads_to_opaque t segs n \<Longrightarrow> (name, t) \<in> set fs \<Longrightarrow> \<not> is_map_encoding fs \<Longrightarrow>
     leads_to_opaque (TObject fs) (SegField name # segs) n"
  "leads_to_opaque t segs n \<Longrightarrow> t \<in> set vs \<Longrightarrow> leads_to_opaque (TUnion vs vals) (SegUnionVariant # segs) n"
  "leads_to_opaque t segs n \<Longrightarrow> leads_to_opaque (TNullable t) (SegNullableInner # segs) n"
  "leads_to_opaque t segs n \<Longrightarrow> leads_to_opaque (TComplex k meta (Some t)) (SegComplexInner # segs) n"
  by (auto simp: leads_to_opaque_def intro: type_path.intros split: prod.splits)

lemma find_opaque_sound:
  "find_opaque_node t path = (Some node, path') \<Longrightarrow> \<exists>segs. path' = path @ segs \<and> leads_to_opaque t segs node"
  "find_opaque_field fs path = (Some node, path') \<Longrightarrow>
     \<exists>name t segs. (name, t) \<in> set fs \<and> path' = path @ SegField name # segs \<and> leads_to_opaque t segs node"
  "find_opaque_variant ts path = (Some node, path') \<Longrightarrow>
     \<exists>t segs. t \<in> set ts \<and> path' = path @ SegUnionVariant # segs \<and> leads_to_opaque t segs node"
  by (induction t path and fs path and ts path arbitrary: path' and path' and path'
      rule: find_opaque_node_find_opaque_field_find_opaque_variant.induct)
    (fastforce dest: find_opaque_None split: prod.splits option.splits if_splits)+

lemma find_opaque_complete:
  "find_opaque_node t path = (None, path') \<Longrightarrow> \<not> type_path False t segs (TOpaque l st md)"
  "find_opaque_field fs path = (None, path') \<Longrightarrow> (name, u) \<in> set fs \<Longrightarrow> \<not> type_path False u segs (TOpaque l st md)"
  "find_opaque_variant ts path = (None, path') \<Longrightarrow> u \<in> set ts \<Longrightarrow> \<not> type_path False u segs (TOpaque l st md)"
  by (induction t path and fs path and ts path arbitrary: path' segs and path' name u segs and path' u segs
      rule: find_opaque_node_find_opaque_field_find_opaque_variant.induct)
    (fastforce dest: find_opaque_None elim: tp_elims split: prod.splits option.splits if_splits)+

lemma has_opaque_iff: "has_opaque t \<longleftrightarrow> (\<exists>segs l st md. type_path True t segs (TOpaque l st md))"
proof
  show "has_opaque t \<Longrightarrow> \<exists>segs l st md. type_path True t segs (TOpaque l st md)"
    by (induction t rule: has_opaque.induct)
      (fastforce simp: list_ex_iff intro: type_path.intros split: option.splits)+
next
  assume "\<exists>segs l st md. type_path True t segs (TOpaque l st md)"
  then obtain segs l st md where "type_path True t segs (TOpaque l st md)" by blast
  then show "has_opaque t"
    by (induction t segs "TOpaque l st md" rule: type_path.induct) (auto simp: list_ex_iff)
qed

lemma type_path_maps: "type_path maps t segs u \<Longrightarrow> type_path True t segs u"
  by (induction rule: type_path.induct) (auto intro: type_path.intros)

section \<open>Positional objects\<close>

lemma index_spelling_iff: "index_spelling s = Some i \<longleftrightarrow> i \<le> 63 \<and> s = show_nat i"
proof
  assume *: "index_spelling s = Some i"
  then have s: "s \<noteq> []" "list_all is_ascii_digit s" "\<not> (length s > 1 \<and> hd s = CHR ''0'')"
    by (auto simp: index_spelling_def split: if_splits)
  then have "parse_unsigned 64 s = (if digits_val s < 2 ^ 64 then Some (digits_val s) else None)"
    using not_digit(1) by (auto simp: parse_unsigned_def Let_def split: list.splits)
  with * s have "digits_val s = i \<and> i \<le> 63"
    by (auto simp: index_spelling_def MAX_POSITIONAL_ARITY_INDEX_def split: if_splits option.splits)
  with show_digits [OF s] show "i \<le> 63 \<and> s = show_nat i" by auto
next
  assume *: "i \<le> 63 \<and> s = show_nat i"
  have "\<not> (length (show_nat i) > 1 \<and> hd (show_nat i) = CHR ''0'')"
    using show_nat_no_leading_zero [of i] by (cases "i = 0") (auto simp: show_nat.simps [of 0])
  with * parse_show [of i 64] show "index_spelling s = Some i"
    by (auto simp: index_spelling_def show_nat_nonempty show_nat_digits MAX_POSITIONAL_ARITY_INDEX_def)
qed

lemma field_index_iff: "field_index n s = Some i \<longleftrightarrow> i < n \<and> i \<le> 63 \<and> s = show_nat i"
  by (auto simp: field_index_def index_spelling_iff split: option.splits)
    (metis index_spelling_iff not_None_eq)+

lemma mark_positions_spec:
  "length seen = n \<Longrightarrow> mark_positions n seen fs = Some seen' \<longleftrightarrow>
     (\<forall>(name, t) \<in> set fs. \<exists>i. field_index n name = Some i) \<and>
     length seen' = n \<and> (\<forall>i<n. seen' ! i \<longleftrightarrow> seen ! i \<or> i \<le> 63 \<and> show_nat i \<in> fst ` set fs)"
proof (induction n seen fs rule: mark_positions.induct)
  case (1 n seen)
  then show ?case by (auto intro: nth_equalityI)
next
  case (2 n seen declared t fs)
  show ?case
  proof (cases "field_index n declared")
    case None
    then show ?thesis by simp
  next
    case (Some i)
    then have i: "i < n" "i \<le> 63" "declared = show_nat i" by (simp_all add: field_index_iff)
    have len: "length (seen[i := True]) = n" using 2 by simp
    have "(seen[i := True] ! j \<or> j \<le> 63 \<and> show_nat j \<in> fst ` set fs) \<longleftrightarrow>
        (seen ! j \<or> j \<le> 63 \<and> show_nat j \<in> fst ` set ((declared, t) # fs))" if "j < n" for j
      using 2 i that by (auto simp: nth_list_update)
    then show ?thesis using 2(1) [OF Some len] Some by auto
  qed
qed

lemma length_place_fields [simp]: "length (place_fields n ordered fs) = length ordered"
  by (induction n ordered fs rule: place_fields.induct) (simp_all split: option.splits)

lemma place_fields_nth:
  "length ordered = n \<Longrightarrow> i < n \<Longrightarrow> place_fields n ordered fs ! i =
     (case (if i \<le> 63 then map_of (rev fs) (show_nat i) else None) of Some t \<Rightarrow> Some t | None \<Rightarrow> ordered ! i)"
proof (induction n ordered fs rule: place_fields.induct)
  case (2 n ordered name u fs)
  show ?case
  proof (cases "field_index n name")
    case None
    then have "\<not> (i \<le> 63 \<and> name = show_nat i)" using field_index_iff [of n name i] 2(3) by auto
    with 2 None show ?thesis by (auto simp: map_add_def split: option.splits)
  next
    case (Some j)
    then have j: "j < n" "j \<le> 63" "name = show_nat j" by (simp_all add: field_index_iff)
    with 2 Some show ?thesis by (simp add: map_add_def nth_list_update split: option.splits)
  qed
qed simp

lemma unwrap_all_spec:
  "unwrap_all k xs = Inr ts \<longleftrightarrow> xs = map Some ts"
  "(\<exists>p. unwrap_all k xs = Inl p) \<longleftrightarrow> None \<in> set xs"
  by (induction k xs arbitrary: ts rule: unwrap_all.induct) (auto split: sum.splits)

lemma positional_arity_iff:
  "positional_object_arity fs =
     (if fs \<noteq> [] \<and> length fs \<le> 64 \<and> fst ` set fs = show_nat ` {..<length fs} then length fs else 0)"
proof -
  let ?n = "length fs"
  have all: "(\<exists>seen. mark_positions ?n (replicate ?n False) fs = Some seen \<and> list_all id seen) \<longleftrightarrow>
      ?n \<le> 64 \<and> fst ` set fs = show_nat ` {..<?n}" (is "?L \<longleftrightarrow> ?R")
  proof
    assume ?L
    then obtain seen where "mark_positions ?n (replicate ?n False) fs = Some seen" and all: "list_all id seen" by blast
    then have names: "\<forall>(name, t) \<in> set fs. \<exists>i. field_index ?n name = Some i" and len: "length seen = ?n"
      and at: "\<forall>i<?n. seen ! i \<longleftrightarrow> i \<le> 63 \<and> show_nat i \<in> fst ` set fs"
      by (simp_all add: mark_positions_spec)
    have "\<forall>i<?n. i \<le> 63 \<and> show_nat i \<in> fst ` set fs" using at all len by (simp add: list_all_length)
    moreover from this have "?n \<le> 64" by (cases "?n") auto
    ultimately show ?R using names by (fastforce simp: field_index_iff)
  next
    assume R: ?R
    have "\<forall>(name, t) \<in> set fs. \<exists>i. field_index ?n name = Some i"
    proof safe
      fix name t assume "(name, t) \<in> set fs"
      with R have "name \<in> show_nat ` {..<?n}" by force
      with R show "\<exists>i. field_index ?n name = Some i" by (auto simp: field_index_iff)
    qed
    with R have "mark_positions ?n (replicate ?n False) fs = Some (replicate ?n True)"
      by (auto simp: mark_positions_spec)
    then show ?L by (auto simp: list_all_iff)
  qed
  show ?thesis
    unfolding positional_object_arity_def all [symmetric] by (auto split: option.splits)
qed

lemma positional_field_types_iff:
  "positional_field_types fs = Inr ts \<longleftrightarrow>
     length fs \<le> 64 \<and> distinct (map fst fs) \<and> fst ` set fs = show_nat ` {..<length fs} \<and>
     length ts = length fs \<and> (\<forall>i < length fs. (show_nat i, ts ! i) \<in> set fs)" (is "?L \<longleftrightarrow> ?R")
proof -
  let ?n = "length fs"
  have inj: "inj_on show_nat {..<?n}" by (simp add: inj_on_def)
  have pt: "place_fields ?n (replicate ?n None) fs ! i = Some t \<longleftrightarrow>
      i \<le> 63 \<and> map_of (rev fs) (show_nat i) = Some t" if "i < ?n" for i t
    using that by (auto simp: place_fields_nth split: option.splits)
  have "?L \<longleftrightarrow> length ts = ?n \<and> (\<forall>i<?n. place_fields ?n (replicate ?n None) fs ! i = Some (ts ! i))"
    by (auto simp: positional_field_types_def unwrap_all_spec list_eq_iff_nth_eq)
  then have L: "?L \<longleftrightarrow> length ts = ?n \<and> (\<forall>i<?n. i \<le> 63 \<and> map_of (rev fs) (show_nat i) = Some (ts ! i))"
    using pt by metis
  show ?thesis
  proof
    assume ?L
    then have len: "length ts = ?n" and at: "\<forall>i<?n. i \<le> 63 \<and> map_of (rev fs) (show_nat i) = Some (ts ! i)"
      by (simp_all add: L)
    have mem: "\<forall>i<?n. (show_nat i, ts ! i) \<in> set fs" using at map_of_SomeD by (metis set_rev)
    then have sub: "show_nat ` {..<?n} \<subseteq> fst ` set fs" by force
    have card: "card (show_nat ` {..<?n}) = ?n" using inj by (simp add: card_image)
    have "card (set (map fst fs)) \<le> ?n" using card_length [of "map fst fs"] by simp
    then have eq: "show_nat ` {..<?n} = fst ` set fs" using sub card
      by (intro card_seteq) auto
    then have "distinct (map fst fs)" using card by (intro card_distinct) simp
    moreover have "?n \<le> 64" using at by (cases "?n") auto
    ultimately show ?R using mem len eq by simp
  next
    assume ?R
    then show ?L unfolding L
      by (auto intro!: map_of_is_SomeI simp: rev_map [symmetric])
  qed
qed

section \<open>Properties\<close>

text \<open>C25: the depth-first search for an opaque node is exact. When it succeeds, the caller's path
  has been extended by segments that lead from the searched type to an opaque node with the
  returned label and reasons, without entering an object that encodes a map; when it fails, the
  path is as before and no opaque node can be reached that way.\<close>

theorem find_opaque_node_exact:
  "case find_opaque_node t path of
     (Some node, path') \<Rightarrow> \<exists>segs. path' = path @ segs \<and> leads_to_opaque t segs node
   | (None, path') \<Rightarrow> path' = path \<and> (\<nexists>segs l st md. type_path False t segs (TOpaque l st md))"
  by (auto dest: find_opaque_sound find_opaque_None find_opaque_complete split: prod.splits option.splits)

text \<open>\<open>has_opaque\<close> holds exactly when some path through the type, map encodings included,
  ends in an opaque node; the search therefore misses an opaque node only below a map encoding.\<close>

theorem has_opaque_exact:
  "(has_opaque t \<longleftrightarrow> (\<exists>segs l st md. type_path True t segs (TOpaque l st md))) \<and>
   (fst (find_opaque_node t path) = None \<or> has_opaque t)"
proof -
  have "has_opaque t" if found: "find_opaque_node t path = (Some node, path')" for node path'
  proof -
    obtain l st md segs where "type_path False t segs (TOpaque l st md)"
      using find_opaque_sound(1) [OF found] by (cases node) (auto simp: leads_to_opaque_def)
    from type_path_maps [OF this] show ?thesis unfolding has_opaque_iff by blast
  qed
  then have "fst (find_opaque_node t path) = None \<or> has_opaque t" by (metis option.exhaust prod.collapse)
  then show ?thesis by (simp add: has_opaque_iff)
qed

text \<open>An object is recognised as positional exactly when asking for its field types by
  position does not panic, and that is so exactly when its field names are the decimal numerals
  of \<open>0..n-1\<close>, each once and at most 64 of them; the i-th type is then that of the field named i.\<close>

theorem positional_object_exact:
  "positional_object_arity fs =
     (if fs \<noteq> [] \<and> (\<exists>ts. positional_field_types fs = Inr ts) then length fs else 0) \<and>
   (positional_field_types fs = Inr ts \<longleftrightarrow>
     length fs \<le> 64 \<and> distinct (map fst fs) \<and> fst ` set fs = show_nat ` {..<length fs} \<and>
     length ts = length fs \<and> list_all (\<lambda>i. (show_nat i, ts ! i) \<in> set fs) [0..<length fs])"
proof -
  have "(\<exists>ts. positional_field_types fs = Inr ts) \<longleftrightarrow> length fs \<le> 64 \<and> fst ` set fs = show_nat ` {..<length fs}"
  proof
    assume R: "length fs \<le> 64 \<and> fst ` set fs = show_nat ` {..<length fs}"
    then have "card (set (map fst fs)) = length (map fst fs)" by (simp add: card_image inj_on_def)
    then have "distinct (map fst fs)" by (rule card_distinct)
    moreover have "(show_nat i, the (map_of fs (show_nat i))) \<in> set fs" if "i < length fs" for i
    proof -
      have "show_nat i \<in> fst ` set fs" using R that by blast
      then show ?thesis by (metis map_of_SomeD map_of_eq_None_iff option.collapse)
    qed
    ultimately show "\<exists>ts. positional_field_types fs = Inr ts"
      using R by (intro exI [of _ "map (\<lambda>i. the (map_of fs (show_nat i))) [0..<length fs]"])
        (simp add: positional_field_types_iff)
  qed (auto simp: positional_field_types_iff)
  then show ?thesis
    by (auto simp: positional_arity_iff positional_field_types_iff list_all_iff)
qed

text \<open>C26: a tuple of up to 64 types, encoded as an object whose fields are named by position and
  declared in any order, is decoded to the same sequence of types.\<close>

theorem tuple_fields_any_order:
  assumes "mset fs = mset (zip (map show_nat [0..<length ts]) ts)" and "length ts \<le> 64"
  shows "positional_field_types fs = Inr ts"
proof -
  let ?z = "zip (map show_nat [0..<length ts]) ts"
  have len: "length fs = length ts" using assms(1) mset_eq_length by fastforce
  have set_eq: "set fs = set ?z" using assms(1) by (rule mset_eq_setD)
  have "mset (map fst fs) = mset (map fst ?z)" using assms(1) by (metis mset_map)
  then have "distinct (map fst fs) \<longleftrightarrow> distinct (map fst ?z)" by (metis distinct_count_atmost_1 set_mset_mset)
  moreover have "distinct (map fst ?z)" by (simp add: distinct_map inj_on_def)
  moreover have "fst ` set fs = show_nat ` {..<length fs}"
  proof -
    have "fst ` set fs = set (map fst ?z)" by (simp only: set_eq set_map)
    then show ?thesis by (simp add: len lessThan_atLeast0)
  qed
  moreover have "\<forall>i < length fs. (show_nat i, ts ! i) \<in> set fs"
    by (auto simp: set_eq len set_zip intro!: exI)
  ultimately show ?thesis using assms(2) len by (simp add: positional_field_types_iff)
qed

theorem tuple_fields_any_order_witness:
  "positional_field_types [(''1'', TStr), (''2'', TBool), (''0'', TFloat)] = Inr [TFloat, TStr, TBool]"
  by (rule tuple_fields_any_order) code_simp+

end
