(* ===== verification/Executability.thy ===== *)
theory Executability
  imports Type_Info "HOL-Library.Product_Lexorder"
begin

text \<open>
  The gate that decides before exploration whether a function's parameters can be built
  (\<open>shatter-core/src/executability.rs\<close>): categories of opaque types, the search for an opaque
  node that blocks execution, the skip reasons with their messages and hints, and the
  suggestions made after exploration. \<open>CustomOpaqueType\<close> comes from \<open>config.rs\<close>.
\<close>

section \<open>Categories\<close>

datatype opaque_category =
    OcNetworkHandle
  | OcIoStream
  | OcDatabaseConnection
  | OcConcurrencyPrimitive
  | OcProcessHandle
  | OcUserConfigured
  | OcUnknown
  | OcNoConstructor
  | OcTransitivelyOpaque
  | OcAbstractType
  | OcNoImplementors
  | OcInfrastructurePackage
  | OcCloseableResource
  | OcNativeHandle

fun category_label :: "opaque_category \<Rightarrow> string" where
  "category_label OcNetworkHandle = ''network handle''"
| "category_label OcIoStream = ''I/O stream''"
| "category_label OcDatabaseConnection = ''database connection''"
| "category_label OcConcurrencyPrimitive = ''concurrency primitive''"
| "category_label OcProcessHandle = ''process handle''"
| "category_label OcUserConfigured = ''user-configured opaque type''"
| "category_label OcUnknown = ''opaque type''"
| "category_label OcNoConstructor = ''type with no constructor''"
| "category_label OcTransitivelyOpaque = ''transitively opaque type''"
| "category_label OcAbstractType = ''abstract type''"
| "category_label OcNoImplementors = ''interface with no implementors''"
| "category_label OcInfrastructurePackage = ''infrastructure package''"
| "category_label OcCloseableResource = ''closeable resource''"
| "category_label OcNativeHandle = ''native handle''"

fun category_reason :: "opaque_category \<Rightarrow> string" where
  "category_reason OcNetworkHandle = ''requires live network binding''"
| "category_reason OcIoStream = ''wraps OS file descriptor or pipe''"
| "category_reason OcDatabaseConnection = ''requires live database connection''"
| "category_reason OcConcurrencyPrimitive = ''runtime scheduling state''"
| "category_reason OcProcessHandle = ''wraps OS process''"
| "category_reason OcUserConfigured = ''marked as non-synthesizable''"
| "category_reason OcUnknown = ''type cannot be automatically synthesized''"
| "category_reason OcNoConstructor = ''has no exported constructor or factory function''"
| "category_reason OcTransitivelyOpaque = ''constructor requires an opaque argument''"
| "category_reason OcAbstractType = ''abstract class or private constructor cannot be instantiated''"
| "category_reason OcNoImplementors = ''no concrete implementation visible in scope''"
| "category_reason OcInfrastructurePackage = ''comes from a known infrastructure package''"
| "category_reason OcCloseableResource = ''implements a close or dispose interface''"
| "category_reason OcNativeHandle = ''contains an OS handle field''"

definition category_for_label :: "string \<Rightarrow> opaque_category" where
  "category_for_label label =
    (if label \<in> set
     [''net.Socket'', ''net.Server'', ''net.Conn'', ''net.Listener'', ''net.PacketConn'',
      ''tls.TLSSocket'', ''tls.Server'', ''dgram.Socket'', ''http.Server'']
     then OcNetworkHandle
     else if label \<in> set
     [''stream.Readable'', ''stream.Writable'', ''stream.Transform'', ''stream.Duplex'',
      ''stream.PassThrough'', ''fs.ReadStream'', ''fs.WriteStream'', ''os.File'',
      ''io.Reader'', ''io.Writer'', ''io.ReadWriter'', ''io.Closer'', ''io.ReadCloser'',
      ''io.WriteCloser'', ''http.IncomingMessage'', ''http.ResponseWriter'',
      ''http.ServerResponse'']
     then OcIoStream
     else if label \<in> set
     [''pg.Client'', ''pg.Pool'', ''sql.DB'', ''sql.Tx'', ''sql.Rows'']
     then OcDatabaseConnection
     else if starts_with label ''database/sql.'' then OcDatabaseConnection
     else if starts_with label ''chan '' \<or> label = ''worker_threads.Worker'' then OcConcurrencyPrimitive
     else if label = ''child_process.ChildProcess'' then OcProcessHandle
     else OcUnknown)"

fun category_for_static_reason :: "static_opacity_reason \<Rightarrow> opaque_category" where
  "category_for_static_reason NoConstructor = OcNoConstructor"
| "category_for_static_reason TransitivelyOpaque = OcTransitivelyOpaque"
| "category_for_static_reason AbstractType = OcAbstractType"
| "category_for_static_reason NoImplementors = OcNoImplementors"

fun category_for_medium_reason :: "medium_opacity_reason \<Rightarrow> opaque_category" where
  "category_for_medium_reason InfrastructurePackage = OcInfrastructurePackage"
| "category_for_medium_reason CloseableInterface = OcCloseableResource"
| "category_for_medium_reason NativeHandleField = OcNativeHandle"

section \<open>Nesting paths\<close>

fun segment_display :: "path_segment \<Rightarrow> string" where
  "segment_display (SegParam name) = ''param '' @ dquote @ name @ dquote"
| "segment_display (SegField name) = ''field '' @ dquote @ name @ dquote"
| "segment_display SegArrayElement = ''[]''"
| "segment_display SegMapValue = ''value''"
| "segment_display SegUnionVariant = ''variant''"
| "segment_display SegNullableInner = ''inner''"
| "segment_display SegComplexInner = ''inner''"

definition format_nesting_path :: "path_segment list \<Rightarrow> string" where
  "format_nesting_path path =
     (if length path \<le> 3 then str_join ('' '' @ right_arrow @ '' '') (map segment_display path)
      else str_join ('' '' @ right_arrow @ '' '')
             (map segment_display (take 2 path) @ [''...'', segment_display (path ! (length path - 1))]))"

section \<open>Skip reasons and hints\<close>

record skip_reason =
  sr_param_name :: string
  sr_opaque_label :: string
  sr_category :: opaque_category
  sr_nesting_path :: "path_segment list"
  sr_user_reason :: "string option"

definition SQLX_HINT :: string where
  "SQLX_HINT = ''construct via `sqlx::PgPool::connect('' @ dquote @ ''postgres://...'' @ dquote @ '')` (or a test pool) and ''
       @ ''register it under `generators` in `.shatter/config.yaml`; or mark the type ''
       @ ''non-synthesizable under `opaque_types`''"

definition AXUM_HINT :: string where
  "AXUM_HINT = ''Axum extractor '' @ em_dash @ '' wire a constructor via `generators` in `.shatter/config.yaml`, ''
       @ ''or refactor the handler body into a pure function that takes the unwrapped value ''
       @ ''so Shatter can drive that directly''"

definition CHRONO_HINT :: string where
  "CHRONO_HINT = ''chrono '' @ em_dash @ '' construct with `NaiveDate::from_ymd_opt(2024, 1, 1).unwrap()`, ''
       @ ''`Utc::now()`, or `DateTime::<Utc>::from_timestamp('' @ ellipsis @ '')`; register a custom ''
       @ ''constructor under `generators` in `.shatter/config.yaml` for repeated use''"

definition GENERIC_HINT :: string where
  "GENERIC_HINT = ''register a constructor for this type under `generators` in `.shatter/config.yaml` ''
       @ ''(e.g. `generators: { TypeName: ./generators/typename.rs }`), or list it under ''
       @ ''`opaque_types` to silence this warning''"

definition guidance_for_opaque_label :: "string \<Rightarrow> opaque_category \<Rightarrow> string option" where
  "guidance_for_opaque_label label category =
    (if label \<in> set [''PgPool'', ''SqlitePool'', ''MySqlPool'', ''AnyPool'']
       \<or> list_ex (\<lambda>p. starts_with label p) [''Pool<'', ''PoolConnection<'', ''Transaction<''] \<or> label = ''Transaction''
     then Some SQLX_HINT
     else if label \<in> set [''State'', ''Request'', ''Next'', ''Extension'', ''Json'', ''Path'', ''Query'',
      ''Form'', ''TypedHeader'', ''Multipart'', ''WebSocketUpgrade'', ''ConnectInfo'',
      ''Host'']
       \<or> list_ex (\<lambda>p. starts_with label p) [''State<'', ''Extension<'', ''Json<'', ''Path<'', ''Query<'', ''Form<'',
      ''ConnectInfo<'', ''TypedHeader<'']
     then Some AXUM_HINT
     else if label \<in> set [''NaiveDate'', ''NaiveDateTime'', ''NaiveTime'', ''Date'', ''DateTime'', ''Time'',
      ''Duration'']
       \<or> list_ex (\<lambda>p. starts_with label p) [''DateTime<'', ''Date<'']
     then Some CHRONO_HINT
     else if category = OcUnknown then Some GENERIC_HINT
     else None)"


definition guidance :: "skip_reason \<Rightarrow> string option" where
  "guidance r = guidance_for_opaque_label (sr_opaque_label r) (sr_category r)"

definition format_human :: "skip_reason \<Rightarrow> string" where
  "format_human r =
     (let path = format_nesting_path (sr_nesting_path r);
          reason_text = (case sr_user_reason r of Some t \<Rightarrow> t | None \<Rightarrow> category_reason (sr_category r));
          base = path @ '' '' @ right_arrow @ '' '' @ sr_opaque_label r @ '' ('' @ category_label (sr_category r)
                   @ '' '' @ em_dash @ '' '' @ reason_text @ '')''
      in case guidance r of Some hint \<Rightarrow> base @ ''; hint: '' @ hint | None \<Rightarrow> base)"

section \<open>The gate\<close>

datatype custom_opaque_type = OtName string | OtNamed string "string option"

fun custom_name :: "custom_opaque_type \<Rightarrow> string" where
  "custom_name (OtName s) = s"
| "custom_name (OtNamed name _) = name"

fun custom_reason :: "custom_opaque_type \<Rightarrow> string option" where
  "custom_reason (OtName _) = None"
| "custom_reason (OtNamed _ reason) = reason"

definition NILABLE_STDLIB_INTERFACE_FIELDS :: "string list" where
  "NILABLE_STDLIB_INTERFACE_FIELDS = [''http.CookieJar'', ''http.RoundTripper'']"

definition is_nilable_named_interface_field :: "string \<Rightarrow> path_segment list \<Rightarrow> bool" where
  "is_nilable_named_interface_field label path \<longleftrightarrow>
     label \<in> set NILABLE_STDLIB_INTERFACE_FIELDS \<and>
     path \<noteq> [] \<and> (case last path of SegField _ \<Rightarrow> True | _ \<Rightarrow> False)"

fun find_blocking_opaque_node :: "type_info \<Rightarrow> path_segment list \<Rightarrow> opaque_node option \<times> path_segment list"
  and find_blocking_field :: "(string \<times> type_info) list \<Rightarrow> path_segment list \<Rightarrow> opaque_node option \<times> path_segment list"
  and find_blocking_variant :: "type_info list \<Rightarrow> path_segment list \<Rightarrow> opaque_node option \<times> path_segment list"
where
  "find_blocking_opaque_node (TOpaque label static medium) path =
     (if is_nilable_named_interface_field label path then (None, path)
      else (Some (label, static, medium), path))"
| "find_blocking_opaque_node (TArray element) path =
     (case find_blocking_opaque_node element (path @ [SegArrayElement]) of
        (Some r, path') \<Rightarrow> (Some r, path')
      | (None, path') \<Rightarrow> (None, butlast path'))"
| "find_blocking_opaque_node (TObject fs) path =
     (if is_map_encoding fs then (None, path) else find_blocking_field fs path)"
| "find_blocking_opaque_node (TUnion variants _) path = find_blocking_variant variants path"
| "find_blocking_opaque_node (TNullable _) path = (None, path)"
| "find_blocking_opaque_node (TComplex _ _ inner) path =
     (case inner of
        None \<Rightarrow> (None, path)
      | Some t \<Rightarrow>
          (case find_blocking_opaque_node t (path @ [SegComplexInner]) of
             (Some r, path') \<Rightarrow> (Some r, path')
           | (None, path') \<Rightarrow> (None, butlast path')))"
| "find_blocking_opaque_node (TInt _ _) path = (None, path)"
| "find_blocking_opaque_node TFloat path = (None, path)"
| "find_blocking_opaque_node TStr path = (None, path)"
| "find_blocking_opaque_node TBool path = (None, path)"
| "find_blocking_opaque_node TUnknown path = (None, path)"
| "find_blocking_field [] path = (None, path)"
| "find_blocking_field ((name, t) # fs) path =
     (case find_blocking_opaque_node t (path @ [SegField name]) of
        (Some r, path') \<Rightarrow> (Some r, path')
      | (None, path') \<Rightarrow> find_blocking_field fs (butlast path'))"
| "find_blocking_variant [] path = (None, path)"
| "find_blocking_variant (t # ts) path =
     (case find_blocking_opaque_node t (path @ [SegUnionVariant]) of
        (Some r, path') \<Rightarrow> (Some r, path')
      | (None, path') \<Rightarrow> find_blocking_variant ts (butlast path'))"

text \<open>The closure \<open>check_executability\<close> maps over the parameters.\<close>

definition param_skip_reason :: "custom_opaque_type list \<Rightarrow> param_info \<Rightarrow> skip_reason option" where
  "param_skip_reason custom p =
     (case find_blocking_opaque_node (pi_typ p) [SegParam (pi_name p)] of
        (Some (label, static_reason, medium_reason), path) \<Rightarrow>
          if medium_reason \<noteq> None \<and> static_reason = None \<and> category_for_label label = OcUnknown then None
          else Some \<lparr> sr_param_name = pi_name p, sr_opaque_label = label,
                 sr_category = (case static_reason of
                     Some r \<Rightarrow> category_for_static_reason r
                   | None \<Rightarrow> (case medium_reason of
                       Some r \<Rightarrow> category_for_medium_reason r
                     | None \<Rightarrow> category_for_label label)),
                 sr_nesting_path = path, sr_user_reason = None \<rparr>
      | (None, _) \<Rightarrow>
          (case pi_type_name p of
             None \<Rightarrow> None
           | Some tn \<Rightarrow>
               (case find (\<lambda>c. custom_name c = tn) custom of
                  None \<Rightarrow> None
                | Some entry \<Rightarrow>
                    Some \<lparr> sr_param_name = pi_name p, sr_opaque_label = tn, sr_category = OcUserConfigured,
                      sr_nesting_path = [SegParam (pi_name p)], sr_user_reason = custom_reason entry \<rparr>)))"

definition check_executability :: "param_info list \<Rightarrow> custom_opaque_type list \<Rightarrow> skip_reason list" where
  "check_executability ps custom = List.map_filter (param_skip_reason custom) ps"

section \<open>Suggestions after exploration\<close>

definition OPAQUE_SUGGEST_THRESHOLD :: nat where
  "OPAQUE_SUGGEST_THRESHOLD = 3"

datatype opaque_suggestion_reason = OsUnknownType | OsFrequentSolveFailure

record opaque_suggestion =
  os_param_name :: string
  os_type_name :: "string option"
  os_failed_solve_count :: usize
  os_reason :: opaque_suggestion_reason

definition param_suggestion :: "(string, usize) fmap \<Rightarrow> param_info \<Rightarrow> opaque_suggestion option" where
  "param_suggestion fail_counts p =
     (if has_opaque (pi_typ p) then None
      else
        let failed = fm_get_or fail_counts (pi_name p) 0 in
        if pi_typ p = TUnknown \<and> pi_type_name p \<noteq> None then
          Some \<lparr> os_param_name = pi_name p, os_type_name = pi_type_name p,
            os_failed_solve_count = failed, os_reason = OsUnknownType \<rparr>
        else if OPAQUE_SUGGEST_THRESHOLD \<le> failed then
          Some \<lparr> os_param_name = pi_name p, os_type_name = pi_type_name p,
            os_failed_solve_count = failed, os_reason = OsFrequentSolveFailure \<rparr>
        else None)"

fun suggestion_rank :: "opaque_suggestion_reason \<Rightarrow> nat" where
  "suggestion_rank OsUnknownType = 0"
| "suggestion_rank OsFrequentSolveFailure = 1"

text \<open>The comparison function of the source, as a key for the (stable) library sort.\<close>

definition suggestion_key :: "opaque_suggestion \<Rightarrow> nat \<times> string" where
  "suggestion_key s = (suggestion_rank (os_reason s), os_param_name s)"

definition build_opaque_suggestions :: "param_info list \<Rightarrow> (string, usize) fmap \<Rightarrow> opaque_suggestion list" where
  "build_opaque_suggestions ps fail_counts =
     sort_key suggestion_key (List.map_filter (param_suggestion fail_counts) ps)"

section \<open>The search for a blocking node\<close>

text \<open>
  \<open>blocks path t segs node\<close>: from a type reached by \<open>path\<close>, the segments lead to an opaque node
  without passing through a nullable or a map encoding, and the node is not an interface field
  that may be left nil.
\<close>

definition blocks :: "path_segment list \<Rightarrow> type_info \<Rightarrow> path_segment list \<Rightarrow> opaque_node \<Rightarrow> bool" where
  "blocks path t segs node \<longleftrightarrow> leads_to_opaque t segs node \<and> SegNullableInner \<notin> set segs \<and>
     \<not> is_nilable_named_interface_field (fst node) (path @ segs)"

lemma blocks_intros [intro]:
  "\<not> is_nilable_named_interface_field l path \<Longrightarrow> blocks path (TOpaque l st md) [] (l, st, md)"
  "blocks (path @ [SegArrayElement]) t segs n \<Longrightarrow> blocks path (TArray t) (SegArrayElement # segs) n"
  "blocks (path @ [SegField name]) t segs n \<Longrightarrow> (name, t) \<in> set fs \<Longrightarrow> \<not> is_map_encoding fs \<Longrightarrow>
     blocks path (TObject fs) (SegField name # segs) n"
  "blocks (path @ [SegUnionVariant]) t segs n \<Longrightarrow> t \<in> set vs \<Longrightarrow> blocks path (TUnion vs vals) (SegUnionVariant # segs) n"
  "blocks (path @ [SegComplexInner]) t segs n \<Longrightarrow> blocks path (TComplex k meta (Some t)) (SegComplexInner # segs) n"
  by (auto simp: blocks_def)

lemma find_blocking_None:
  "find_blocking_opaque_node t path = (None, path') \<Longrightarrow> path' = path"
  "find_blocking_field fs path = (None, path') \<Longrightarrow> path' = path"
  "find_blocking_variant ts path = (None, path') \<Longrightarrow> path' = path"
  by (induction t path and fs path and ts path arbitrary: path' and path' and path'
      rule: find_blocking_opaque_node_find_blocking_field_find_blocking_variant.induct)
    (fastforce split: prod.splits option.splits if_splits)+

lemma find_blocking_sound:
  "find_blocking_opaque_node t path = (Some node, path') \<Longrightarrow> \<exists>segs. path' = path @ segs \<and> blocks path t segs node"
  "find_blocking_field fs path = (Some node, path') \<Longrightarrow>
     \<exists>name t segs. (name, t) \<in> set fs \<and> path' = path @ SegField name # segs \<and> blocks (path @ [SegField name]) t segs node"
  "find_blocking_variant ts path = (Some node, path') \<Longrightarrow>
     \<exists>t segs. t \<in> set ts \<and> path' = path @ SegUnionVariant # segs \<and> blocks (path @ [SegUnionVariant]) t segs node"
  by (induction t path and fs path and ts path arbitrary: path' and path' and path'
      rule: find_blocking_opaque_node_find_blocking_field_find_blocking_variant.induct)
    (fastforce dest: find_blocking_None split: prod.splits option.splits if_splits)+

inductive_cases tp_opaqueE: "type_path maps (TOpaque l s m) segs (TOpaque l' s' m')"

lemma blocks_shape:
  "blocks path (TOpaque l st md) segs n \<Longrightarrow>
     segs = [] \<and> n = (l, st, md) \<and> \<not> is_nilable_named_interface_field l path"
  "blocks path (TArray t) segs n \<Longrightarrow>
     \<exists>segs'. segs = SegArrayElement # segs' \<and> blocks (path @ [SegArrayElement]) t segs' n"
  "blocks path (TObject fs) segs n \<Longrightarrow>
     \<exists>name t segs'. segs = SegField name # segs' \<and> (name, t) \<in> set fs \<and> \<not> is_map_encoding fs \<and>
       blocks (path @ [SegField name]) t segs' n"
  "blocks path (TUnion vs vals) segs n \<Longrightarrow>
     \<exists>t segs'. segs = SegUnionVariant # segs' \<and> t \<in> set vs \<and> blocks (path @ [SegUnionVariant]) t segs' n"
  "blocks path (TComplex k meta i) segs n \<Longrightarrow>
     \<exists>t segs'. segs = SegComplexInner # segs' \<and> i = Some t \<and> blocks (path @ [SegComplexInner]) t segs' n"
  by (cases n, fastforce simp: blocks_def leads_to_opaque_def elim: tp_elims tp_opaqueE)+

lemma blocks_dests:
  "blocks path (TOpaque l st md) segs n \<Longrightarrow> n = (l, st, md) \<and> \<not> is_nilable_named_interface_field l path"
  "blocks path (TArray t) segs n \<Longrightarrow> \<exists>segs'. blocks (path @ [SegArrayElement]) t segs' n"
  "blocks path (TObject fs) segs n \<Longrightarrow>
     \<exists>name t segs'. (name, t) \<in> set fs \<and> \<not> is_map_encoding fs \<and> blocks (path @ [SegField name]) t segs' n"
  "blocks path (TUnion vs vals) segs n \<Longrightarrow> \<exists>t segs'. t \<in> set vs \<and> blocks (path @ [SegUnionVariant]) t segs' n"
  "blocks path (TComplex k meta i) segs n \<Longrightarrow> \<exists>t segs'. i = Some t \<and> blocks (path @ [SegComplexInner]) t segs' n"
  by (drule blocks_shape, blast)+

lemma not_blocks [simp]:
  "\<not> blocks path (TNullable t) segs n" "\<not> blocks path (TInt w s) segs n" "\<not> blocks path TFloat segs n"
  "\<not> blocks path TStr segs n" "\<not> blocks path TBool segs n" "\<not> blocks path TUnknown segs n"
  by (cases n, fastforce simp: blocks_def leads_to_opaque_def elim: tp_elims)+

lemma find_blocking_complete:
  "find_blocking_opaque_node t path = (None, path') \<Longrightarrow> \<not> blocks path t segs n"
  "find_blocking_field fs path = (None, path') \<Longrightarrow> (name, u) \<in> set fs \<Longrightarrow> \<not> blocks (path @ [SegField name]) u segs n"
  "find_blocking_variant ts path = (None, path') \<Longrightarrow> u \<in> set ts \<Longrightarrow> \<not> blocks (path @ [SegUnionVariant]) u segs n"
  by (induction t path and fs path and ts path arbitrary: path' segs and path' name u segs and path' u segs
      rule: find_blocking_opaque_node_find_blocking_field_find_blocking_variant.induct)
    (fastforce dest: find_blocking_None blocks_dests split: prod.splits option.splits if_splits)+

text \<open>
  All blocking nodes of a type with the segments that lead to them, in the order in which the types are
  written. The gate stops at the first one.
\<close>

fun blocking_nodes :: "path_segment list \<Rightarrow> type_info \<Rightarrow> (path_segment list \<times> opaque_node) list" where
  "blocking_nodes path (TOpaque l st md) =
     (if is_nilable_named_interface_field l path then [] else [([], l, st, md)])"
| "blocking_nodes path (TArray t) = map (apfst (Cons SegArrayElement)) (blocking_nodes (path @ [SegArrayElement]) t)"
| "blocking_nodes path (TObject fs) =
     (if is_map_encoding fs then []
      else concat (map (\<lambda>(name, t).
        map (apfst (Cons (SegField name))) (blocking_nodes (path @ [SegField name]) t)) fs))"
| "blocking_nodes path (TUnion vs _) =
     concat (map (\<lambda>t. map (apfst (Cons SegUnionVariant)) (blocking_nodes (path @ [SegUnionVariant]) t)) vs)"
| "blocking_nodes path (TComplex _ _ (Some t)) =
     map (apfst (Cons SegComplexInner)) (blocking_nodes (path @ [SegComplexInner]) t)"
| "blocking_nodes path _ = []"

lemma blocks_cases:
  "blocks path (TOpaque l st md) segs n \<longleftrightarrow>
     segs = [] \<and> n = (l, st, md) \<and> \<not> is_nilable_named_interface_field l path"
  "blocks path (TArray t) segs n \<longleftrightarrow>
     (\<exists>segs'. segs = SegArrayElement # segs' \<and> blocks (path @ [SegArrayElement]) t segs' n)"
  "blocks path (TObject fs) segs n \<longleftrightarrow>
     (\<exists>name t segs'. segs = SegField name # segs' \<and> (name, t) \<in> set fs \<and> \<not> is_map_encoding fs \<and>
       blocks (path @ [SegField name]) t segs' n)"
  "blocks path (TUnion vs vals) segs n \<longleftrightarrow>
     (\<exists>t segs'. segs = SegUnionVariant # segs' \<and> t \<in> set vs \<and> blocks (path @ [SegUnionVariant]) t segs' n)"
  "blocks path (TComplex k meta i) segs n \<longleftrightarrow>
     (\<exists>t segs'. segs = SegComplexInner # segs' \<and> i = Some t \<and> blocks (path @ [SegComplexInner]) t segs' n)"
  by (rule iffI, erule blocks_shape, blast intro: blocks_intros)+

lemma apfst_Cons_mem: "(segs, n) \<in> apfst (Cons x) ` A \<longleftrightarrow> (\<exists>segs'. segs = x # segs' \<and> (segs', n) \<in> A)"
  by force

lemma blocking_nodes_exact: "(segs, node) \<in> set (blocking_nodes path t) \<longleftrightarrow> blocks path t segs node"
proof (induction path t arbitrary: segs rule: blocking_nodes.induct)
  case (3 path fs)
  then show ?case by (auto simp: blocks_cases(3) apfst_Cons_mem simp del: apfst_conv) blast
next
  case (4 path vs vals)
  then show ?case by (auto simp: blocks_cases(4) apfst_Cons_mem simp del: apfst_conv)
qed (simp_all add: blocks_cases apfst_Cons_mem)

text \<open>What the search returns for a list of blocking nodes.\<close>

definition first_node :: "path_segment list \<Rightarrow> (path_segment list \<times> opaque_node) list
    \<Rightarrow> opaque_node option \<times> path_segment list" where
  "first_node path ns = (case ns of [] \<Rightarrow> (None, path) | (segs, node) # _ \<Rightarrow> (Some node, path @ segs))"

lemma first_node_simps [simp]:
  "first_node path [] = (None, path)"
  "first_node path ((segs, node) # ns) = (Some node, path @ segs)"
  by (simp_all add: first_node_def)

lemma find_blocking_first:
  "find_blocking_opaque_node t path = first_node path (blocking_nodes path t)"
  "find_blocking_field fs path = first_node path (concat (map (\<lambda>(name, t).
     map (apfst (Cons (SegField name))) (blocking_nodes (path @ [SegField name]) t)) fs))"
  "find_blocking_variant ts path = first_node path (concat (map (\<lambda>t.
     map (apfst (Cons SegUnionVariant)) (blocking_nodes (path @ [SegUnionVariant]) t)) ts))"
proof (induction t path and fs path and ts path
    rule: find_blocking_opaque_node_find_blocking_field_find_blocking_variant.induct)
  case (2 element path)
  then show ?case by (cases "blocking_nodes (path @ [SegArrayElement]) element") auto
next
  case (6 k m inner path)
  then show ?case by (cases inner; cases "blocking_nodes (path @ [SegComplexInner]) (the inner)") auto
next
  case (13 name t fs path)
  then show ?case by (cases "blocking_nodes (path @ [SegField name]) t") auto
next
  case (15 t ts path)
  then show ?case by (cases "blocking_nodes (path @ [SegUnionVariant]) t") auto
qed simp_all

section \<open>Properties\<close>

lemma find_blocking_cases:
  obtains (found) segs l st md where
    "find_blocking_opaque_node t path = (Some (l, st, md), path @ segs)" "blocks path t segs (l, st, md)"
  | (clear) "find_blocking_opaque_node t path = (None, path)" "\<nexists>segs node. blocks path t segs node"
  by (cases "find_blocking_opaque_node t path"; cases "fst (find_blocking_opaque_node t path)")
    (auto dest: find_blocking_sound find_blocking_None find_blocking_complete)

definition advisory :: "opaque_node \<Rightarrow> bool" where
  "advisory node = (case node of (label, static_reason, medium_reason) \<Rightarrow>
     medium_reason \<noteq> None \<and> static_reason = None \<and> category_for_label label = OcUnknown)"

text \<open>C27: every skip reason names a parameter of the function and is justified: either its nesting
  path leads from that parameter to a blocking opaque node with the reported label that carries
  more than a medium-confidence signal, or no node of the parameter's type blocks and its type
  name is one the user listed.\<close>

theorem skip_reasons_justified:
  assumes "r \<in> set (check_executability ps custom)"
  shows "\<exists>p \<in> set ps. sr_param_name r = pi_name p \<and>
    ((\<exists>segs st md. sr_nesting_path r = SegParam (pi_name p) # segs \<and> sr_user_reason r = None \<and>
        blocks [SegParam (pi_name p)] (pi_typ p) segs (sr_opaque_label r, st, md) \<and>
        \<not> advisory (sr_opaque_label r, st, md)) \<or>
     (sr_category r = OcUserConfigured \<and> pi_type_name p = Some (sr_opaque_label r) \<and>
        sr_opaque_label r \<in> custom_name ` set custom \<and>
        (\<nexists>segs node. blocks [SegParam (pi_name p)] (pi_typ p) segs node)))"
proof -
  obtain p where p: "p \<in> set ps" "param_skip_reason custom p = Some r"
    using assms by (auto simp: check_executability_def set_map_filter)
  show ?thesis
  proof (cases rule: find_blocking_cases [of "pi_typ p" "[SegParam (pi_name p)]"])
    case (found segs l st md)
    then have "sr_param_name r = pi_name p \<and> sr_nesting_path r = SegParam (pi_name p) # segs \<and>
        sr_opaque_label r = l \<and> sr_user_reason r = None \<and> \<not> advisory (l, st, md)"
      using p(2) by (auto simp: param_skip_reason_def advisory_def split: if_splits)
    with p(1) found(2) show ?thesis
      by (intro bexI [of _ p] conjI disjI1 exI [of _ segs] exI [of _ st] exI [of _ md]) simp_all
  next
    case clear
    with p show ?thesis
      by (intro bexI [of _ p]) (auto simp: param_skip_reason_def find_Some_iff split: option.splits)
  qed
qed

theorem skip_reasons_justified_witness:
  "let p = \<lparr> pi_name = ''cfg'', pi_typ = TObject [(''db'', TOpaque ''pg.Client'' None None)], pi_type_name = None \<rparr>;
       r = hd (check_executability [p] [])
   in sr_nesting_path r = [SegParam ''cfg'', SegField ''db''] \<and> \<not> advisory (sr_opaque_label r, None, None) \<and>
      sr_param_name r = ''cfg''"
proof -
  let ?p = "\<lparr> pi_name = ''cfg'', pi_typ = TObject [(''db'', TOpaque ''pg.Client'' None None)], pi_type_name = None \<rparr>"
  let ?r = "\<lparr> sr_param_name = ''cfg'', sr_opaque_label = ''pg.Client'', sr_category = OcDatabaseConnection,
    sr_nesting_path = [SegParam ''cfg'', SegField ''db''], sr_user_reason = None \<rparr>"
  have eq: "check_executability [?p] [] = [?r]" by code_simp
  then have mem: "?r \<in> set (check_executability [?p] [])" by simp
  have adv: "\<not> advisory (''pg.Client'', None, None)" by code_simp
  show ?thesis using skip_reasons_justified [OF mem] eq adv by simp
qed

lemma param_clear_iff:
  "param_skip_reason custom p = None \<longleftrightarrow>
     (case blocking_nodes [SegParam (pi_name p)] (pi_typ p) of
        [] \<Rightarrow> (case pi_type_name p of None \<Rightarrow> True | Some tn \<Rightarrow> tn \<notin> custom_name ` set custom)
      | (_, node) # _ \<Rightarrow> advisory node)"
proof (cases "blocking_nodes [SegParam (pi_name p)] (pi_typ p)")
  case Nil
  have listed: "(case find (\<lambda>c. custom_name c = tn) custom of None \<Rightarrow> None | Some e \<Rightarrow> Some (f e)) = None \<longleftrightarrow>
      tn \<notin> custom_name ` set custom" for tn f
    by (auto simp: find_None_iff find_Some_iff split: option.splits)
  show ?thesis
    using Nil by (cases "pi_type_name p") (simp_all add: param_skip_reason_def find_blocking_first(1) listed)
next
  case (Cons n ns)
  obtain segs l st md where "n = (segs, l, st, md)" by (metis surj_pair)
  with Cons show ?thesis by (simp add: param_skip_reason_def find_blocking_first(1) advisory_def)
qed



text \<open>
  A parameter without an opaque node is suggested for one of two reasons: its type is unknown but has a
  name, or, when that is not so, at least three solver calls for it failed.
\<close>

definition suggests :: "(string, usize) fmap \<Rightarrow> opaque_suggestion_reason \<Rightarrow> param_info \<Rightarrow> bool" where
  "suggests fails reason p \<longleftrightarrow> \<not> has_opaque (pi_typ p) \<and>
     (case reason of
        OsUnknownType \<Rightarrow> pi_typ p = TUnknown \<and> pi_type_name p \<noteq> None
      | OsFrequentSolveFailure \<Rightarrow> \<not> (pi_typ p = TUnknown \<and> pi_type_name p \<noteq> None) \<and> 3 \<le> fm_get_or fails (pi_name p) 0)"

lemma suggestions_of_params:
  "filter (\<lambda>s. os_reason s = reason \<and> os_param_name s = name) (List.map_filter (param_suggestion fails) ps) =
   map (\<lambda>p. \<lparr> os_param_name = pi_name p, os_type_name = pi_type_name p,
       os_failed_solve_count = fm_get_or fails (pi_name p) 0, os_reason = reason \<rparr>)
     (filter (\<lambda>p. suggests fails reason p \<and> pi_name p = name) ps)"
  by (induction ps; cases reason)
    (auto simp: List.map_filter_def param_suggestion_def suggests_def Let_def OPAQUE_SUGGEST_THRESHOLD_def)

lemma suggestion_key_eq:
  "(\<lambda>s. os_reason s = reason \<and> os_param_name s = name) = (\<lambda>s. suggestion_key s = (suggestion_rank reason, name))"
proof
  fix s show "(os_reason s = reason \<and> os_param_name s = name) = (suggestion_key s = (suggestion_rank reason, name))"
    by (cases "os_reason s"; cases reason) (auto simp: suggestion_key_def)
qed

lemma key_le_iff:
  "suggestion_key a \<le> suggestion_key b \<longleftrightarrow>
     os_reason a = OsUnknownType \<and> os_reason b = OsFrequentSolveFailure \<or>
     os_reason a = os_reason b \<and> os_param_name a \<le> os_param_name b"
  by (cases "os_reason a"; cases "os_reason b") (simp_all add: suggestion_key_def)

lemma sorted_suggestions_split:
  "sorted (map suggestion_key ss) \<Longrightarrow> \<exists>unknown frequent. ss = unknown @ frequent \<and>
      list_all (\<lambda>s. os_reason s = OsUnknownType) unknown \<and> sorted (map os_param_name unknown) \<and>
      list_all (\<lambda>s. os_reason s = OsFrequentSolveFailure) frequent \<and> sorted (map os_param_name frequent)"
proof (induction ss)
  case (Cons s ss)
  then obtain unknown frequent where ss: "ss = unknown @ frequent"
    and u: "list_all (\<lambda>s. os_reason s = OsUnknownType) unknown" "sorted (map os_param_name unknown)"
    and f: "list_all (\<lambda>s. os_reason s = OsFrequentSolveFailure) frequent" "sorted (map os_param_name frequent)"
    by auto
  have le: "x \<in> set ss \<Longrightarrow> suggestion_key s \<le> suggestion_key x" for x using Cons.prems by simp
  show ?case
  proof (cases "os_reason s")
    case OsUnknownType
    moreover have "\<forall>x \<in> set unknown. os_param_name s \<le> os_param_name x"
      using le u(1) OsUnknownType by (fastforce simp: ss key_le_iff list_all_iff)
    ultimately show ?thesis using ss u f by (intro exI [of _ "s # unknown"] exI [of _ frequent]) simp
  next
    case OsFrequentSolveFailure
    then have "unknown = []" using le u(1) by (cases unknown) (auto simp: ss key_le_iff)
    moreover have "\<forall>x \<in> set frequent. os_param_name s \<le> os_param_name x"
      using le OsFrequentSolveFailure by (fastforce simp: ss key_le_iff)
    ultimately show ?thesis using ss f OsFrequentSolveFailure by (intro exI [of _ "[]"] exI [of _ "s # frequent"]) simp
  qed
qed simp

text \<open>C28: the suggestions for parameters of unknown type come before those for parameters with failed
  solver calls, and each of the two groups is in the order of the parameter names. For every reason
  and name the suggestions are exactly one per parameter that has the reason, in the order of the
  parameters, with its type name and its number of failures. A parameter with an opaque node is never
  suggested; a parameter whose type the user listed is suggested like any other.\<close>

theorem opaque_suggestions_spec:
  "(\<exists>unknown frequent. build_opaque_suggestions ps fails = unknown @ frequent \<and>
      list_all (\<lambda>s. os_reason s = OsUnknownType) unknown \<and> sorted (map os_param_name unknown) \<and>
      list_all (\<lambda>s. os_reason s = OsFrequentSolveFailure) frequent \<and> sorted (map os_param_name frequent)) \<and>
   (\<forall>reason name. filter (\<lambda>s. os_reason s = reason \<and> os_param_name s = name) (build_opaque_suggestions ps fails) =
      map (\<lambda>p. \<lparr> os_param_name = pi_name p, os_type_name = pi_type_name p,
          os_failed_solve_count = fm_get_or fails (pi_name p) 0, os_reason = reason \<rparr>)
        (filter (\<lambda>p. suggests fails reason p \<and> pi_name p = name) ps))"
proof (intro conjI allI)
  let ?xs = "List.map_filter (param_suggestion fails) ps" and ?S = "build_opaque_suggestions ps fails"
  show "filter (\<lambda>s. os_reason s = reason \<and> os_param_name s = name) ?S =
      map (\<lambda>p. \<lparr> os_param_name = pi_name p, os_type_name = pi_type_name p,
          os_failed_solve_count = fm_get_or fails (pi_name p) 0, os_reason = reason \<rparr>)
        (filter (\<lambda>p. suggests fails reason p \<and> pi_name p = name) ps)" for reason name
    unfolding suggestions_of_params [symmetric] build_opaque_suggestions_def suggestion_key_eq
    by (rule sort_key_stable)
  show "\<exists>unknown frequent. ?S = unknown @ frequent \<and>
      list_all (\<lambda>s. os_reason s = OsUnknownType) unknown \<and> sorted (map os_param_name unknown) \<and>
      list_all (\<lambda>s. os_reason s = OsFrequentSolveFailure) frequent \<and> sorted (map os_param_name frequent)"
    by (rule sorted_suggestions_split) (simp add: build_opaque_suggestions_def)
qed

text \<open>
  The documentation of \<open>build_opaque_suggestions\<close> says that the parameters detected by
  \<open>check_executability\<close> are excluded. A parameter of unknown type that the user listed is detected and
  suggested.
\<close>

lemma listed_unknown_detected_and_suggested:
  assumes "p \<in> set ps" and "pi_typ p = TUnknown" and "pi_type_name p = Some tn" and "tn \<in> custom_name ` set custom"
  shows "\<exists>r \<in> set (check_executability ps custom). sr_param_name r = pi_name p \<and> sr_opaque_label r = tn"
    and "\<exists>s \<in> set (build_opaque_suggestions ps fails). os_param_name s = pi_name p \<and> os_reason s = OsUnknownType"
proof -
  obtain c where "find (\<lambda>c. custom_name c = tn) custom = Some c"
    using assms(4) by (cases "find (\<lambda>c. custom_name c = tn) custom") (auto simp: find_None_iff)
  then have "\<exists>r. param_skip_reason custom p = Some r \<and> sr_param_name r = pi_name p \<and> sr_opaque_label r = tn"
    using assms(2,3) by (simp add: param_skip_reason_def)
  with assms(1) show "\<exists>r \<in> set (check_executability ps custom). sr_param_name r = pi_name p \<and> sr_opaque_label r = tn"
    by (force simp: check_executability_def set_map_filter)
  have "\<exists>s. param_suggestion fails p = Some s \<and> os_param_name s = pi_name p \<and> os_reason s = OsUnknownType"
    using assms(2,3) by (simp add: param_suggestion_def Let_def)
  with assms(1) show "\<exists>s \<in> set (build_opaque_suggestions ps fails). os_param_name s = pi_name p \<and> os_reason s = OsUnknownType"
    by (force simp: build_opaque_suggestions_def set_map_filter)
qed

end
