(* ===== verification/Function_Registry.thy ===== *)
theory Function_Registry
  imports Type_Info
begin

text \<open>
  The registry of analysed functions (\<open>shatter-core/src/batch_analyze.rs\<close>) and the parts of the
  frontend protocol it stores (\<open>protocol.rs\<close>, \<open>crypto_registry.rs\<close>). A path is the string of its
  bytes, taken to be UTF-8; \<open>path_components\<close> is what \<open>std::path\<close> iterates over on Unix. The full
  frontend analysis kept beside each entry is a type parameter.
\<close>

section \<open>Paths\<close>

datatype path_component = PcRoot | PcCurDir | PcParentDir | PcNormal string

fun split_slash :: "string \<Rightarrow> string list" where
  "split_slash [] = [[]]"
| "split_slash (c # cs) =
     (if c = CHR ''/'' then [] # split_slash cs
      else case split_slash cs of seg # segs \<Rightarrow> (c # seg) # segs | [] \<Rightarrow> [[c]])"

definition path_components :: "string \<Rightarrow> path_component list" where
  "path_components p =
     (let segs = split_slash p in
      (if starts_with p ''/'' then [PcRoot] else if hd segs = ''.'' then [PcCurDir] else []) @
      map (\<lambda>s. if s = ''..'' then PcParentDir else PcNormal s) (filter (\<lambda>s. s \<noteq> [] \<and> s \<noteq> ''.'') segs))"

text \<open>\<open>path.parent().and_then(|p| p.file_name())\<close>, with the empty string for none.\<close>

definition parent_dir_name :: "string \<Rightarrow> string" where
  "parent_dir_name p =
     (let cs = path_components p in
      if cs = [] \<or> last cs = PcRoot then []
      else case rev (butlast cs) of PcNormal s # _ \<Rightarrow> s | _ \<Rightarrow> [])"

definition path_eq :: "string \<Rightarrow> string \<Rightarrow> bool" where
  "path_eq p q \<longleftrightarrow> path_components p = path_components q"

section \<open>What frontends report\<close>

datatype dependency_kind = FunctionCall | MethodCall | PropertyAccess | ModuleImport

record external_dependency =
  ed_kind :: dependency_kind
  ed_symbol :: string
  ed_source_module :: string
  ed_return_type :: type_info
  ed_param_types :: "type_info list"
  ed_call_sites :: "u32 list"

datatype crypto_direction = CdEncrypt | CdDecrypt | CdBoth

datatype param_role = PrKey | PrData | PrIv | PrNonce | PrTag | PrAad | PrAlgorithm

datatype output_semantics = OutCiphertext | OutPlaintext | OutKey | OutHash | OutSignature | OutVerified

datatype confidence = CfLow | CfMedium | CfHigh

record crypto_boundary =
  cb_symbol :: string
  cb_source_module :: string
  cb_direction :: crypto_direction
  cb_output :: "output_semantics option"
  cb_confidence :: confidence
  cb_param_roles :: "(string, param_role) fmap"
  cb_call_sites :: "u32 list"
  cb_input_entropy :: "f64 option"
  cb_output_entropy :: "f64 option"

section \<open>The registry\<close>

record function_entry =
  fe_file_path :: string
  fe_name :: string
  fe_exported :: bool
  fe_params :: "param_info list"
  fe_return_type :: type_info
  fe_dependencies :: "external_dependency list"
  fe_crypto_boundaries :: "crypto_boundary list"
  fe_branch_count :: usize
  fe_start_line :: u32
  fe_end_line :: u32

record 'a function_registry =
  fr_entries :: "function_entry list"
  fr_index :: "(string, usize) fmap"
  fr_analyses :: "(string, 'a) fmap"

definition from_raw :: "function_entry list \<Rightarrow> (string, usize) fmap \<Rightarrow> 'a function_registry" where
  "from_raw entries index = \<lparr> fr_entries = entries, fr_index = index, fr_analyses = fmempty \<rparr>"

definition from_raw_with_analyses ::
  "function_entry list \<Rightarrow> (string, usize) fmap \<Rightarrow> (string, 'a) fmap \<Rightarrow> 'a function_registry" where
  "from_raw_with_analyses entries index analyses =
     \<lparr> fr_entries = entries, fr_index = index, fr_analyses = analyses \<rparr>"

definition registry_analysis :: "'a function_registry \<Rightarrow> string \<Rightarrow> 'a option" where
  "registry_analysis reg qn = fmlookup (fr_analyses reg) qn"

definition registry_len :: "'a function_registry \<Rightarrow> usize" where
  "registry_len reg = length (fr_entries reg)"

definition registry_get :: "'a function_registry \<Rightarrow> string \<Rightarrow> panic + function_entry option" where
  "registry_get reg qn =
     (case fmlookup (fr_index reg) qn of
        None \<Rightarrow> Inr None
      | Some i \<Rightarrow> if i < length (fr_entries reg) then Inr (Some (fr_entries reg ! i))
                 else Inl (Panic ''index out of bounds''))"

definition functions_in_file :: "'a function_registry \<Rightarrow> string \<Rightarrow> function_entry list" where
  "functions_in_file reg path = filter (\<lambda>e. path_eq (fe_file_path e) path) (fr_entries reg)"

definition exported_functions :: "'a function_registry \<Rightarrow> function_entry list" where
  "exported_functions reg = filter fe_exported (fr_entries reg)"

definition qualified_name :: "string \<Rightarrow> string \<Rightarrow> string" where
  "qualified_name file_path function_name = file_path @ ''::'' @ function_name"

end
