(* ===== verification/Kahn.thy ===== *)
theory Kahn
  imports Shatter_Prelude
begin

text \<open>
  Layering a directed graph bottom-up. The two loops of \<open>shatter-core/src/call_graph.rs\<close> that
  follow Kahn's algorithm (\<open>topological_layers\<close> on the functions, \<open>topological_batches\<close> on the
  condensation) are one loop over node indices here. Decrementing a zero counter and indexing
  out of range are panics of the model, and the locale shows that they cannot occur.
\<close>

section \<open>The loop\<close>

fun kahn_callers :: "nat list \<Rightarrow> nat list \<Rightarrow> nat list \<Rightarrow> panic + (nat list \<times> nat list)" where
  "kahn_callers [] out_degree next_queue = Inr (out_degree, next_queue)"
| "kahn_callers (caller # callers) out_degree next_queue =
     (if length out_degree \<le> caller then Inl (Panic ''index out of bounds'')
      else if out_degree ! caller = 0 then Inl (Panic ''attempt to subtract with overflow'')
      else kahn_callers callers (out_degree[caller := out_degree ! caller - 1])
             (if out_degree ! caller - 1 = 0 then next_queue @ [caller] else next_queue))"

fun kahn_layer :: "nat list list \<Rightarrow> nat list \<Rightarrow> nat list \<Rightarrow> nat list \<Rightarrow> panic + (nat list \<times> nat list)" where
  "kahn_layer rev_adj [] out_degree next_queue = Inr (out_degree, next_queue)"
| "kahn_layer rev_adj (node # nodes) out_degree next_queue =
     (if length rev_adj \<le> node then Inl (Panic ''index out of bounds'')
      else case kahn_callers (rev_adj ! node) out_degree next_queue of
             Inl p \<Rightarrow> Inl p
           | Inr (out_degree', next_queue') \<Rightarrow> kahn_layer rev_adj nodes out_degree' next_queue')"

lemma kahn_callers_measure:
  "kahn_callers cs deg nxt = Inr (deg', nxt') \<Longrightarrow>
     sum_list deg' + length nxt' \<le> sum_list deg + length nxt \<and> sum_list deg' \<le> sum_list deg"
proof (induction cs deg nxt rule: kahn_callers.induct)
  case (2 c cs deg nxt)
  then have c: "c < length deg" "0 < deg ! c" by (auto split: if_splits)
  have "deg ! c \<le> sum_list deg" using c by (simp add: elem_le_sum_list)
  then have "sum_list (deg[c := deg ! c - 1]) = sum_list deg - 1"
    using c by (simp add: sum_list_update)
  moreover have "0 < sum_list deg" using c \<open>deg ! c \<le> sum_list deg\<close> by linarith
  ultimately show ?case using 2 c by (auto split: if_splits)
qed simp

lemma kahn_layer_measure:
  "kahn_layer rv ns deg nxt = Inr (deg', nxt') \<Longrightarrow>
     sum_list deg' + length nxt' \<le> sum_list deg + length nxt \<and> sum_list deg' \<le> sum_list deg"
  by (induction rv ns deg nxt rule: kahn_layer.induct)
    (fastforce dest: kahn_callers_measure split: if_splits sum.splits prod.splits)+

function kahn :: "nat list list \<Rightarrow> nat list \<Rightarrow> nat list \<Rightarrow> panic + (nat list list \<times> nat list)" where
  "kahn rev_adj out_degree queue =
     (if queue = [] then Inr ([], out_degree)
      else case kahn_layer rev_adj queue out_degree [] of
             Inl p \<Rightarrow> Inl p
           | Inr (out_degree', next_queue) \<Rightarrow>
               (case kahn rev_adj out_degree' next_queue of
                  Inl p \<Rightarrow> Inl p
                | Inr (layers, final_degree) \<Rightarrow> Inr (queue # layers, final_degree)))"
  by pat_completeness auto
termination
  by (relation "measure (\<lambda>(rv, deg, q). 2 * sum_list deg + length q)")
    (auto dest!: kahn_layer_measure sym [of "Inr _"] simp: neq_Nil_conv)

declare kahn.simps [simp del]

definition initial_queue :: "nat list \<Rightarrow> nat list" where
  "initial_queue out_degree = filter (\<lambda>i. out_degree ! i = 0) [0..<length out_degree]"

section \<open>Layers\<close>

text \<open>The nodes that can be placed once the nodes of \<open>P\<close> are.\<close>

definition ready :: "nat list list \<Rightarrow> nat set \<Rightarrow> nat set" where
  "ready adj P = {v. v < length adj \<and> v \<notin> P \<and> set (adj ! v) \<subseteq> P}"

text \<open>Each layer holds exactly the nodes that are ready, and after the last one none is.\<close>

fun layered :: "nat list list \<Rightarrow> nat set \<Rightarrow> nat list list \<Rightarrow> bool" where
  "layered adj P [] \<longleftrightarrow> ready adj P = {}"
| "layered adj P (l # ls) \<longleftrightarrow> l \<noteq> [] \<and> distinct l \<and> set l = ready adj P \<and> layered adj (P \<union> set l) ls"

lemma kahn_callers_correct:
  assumes "\<forall>c \<in> set cs. c < length deg" and "\<forall>c. c < length deg \<longrightarrow> count_list cs c \<le> deg ! c"
  shows "\<exists>deg' xs. kahn_callers cs deg nxt = Inr (deg', nxt @ xs) \<and> length deg' = length deg \<and>
    (\<forall>c < length deg. deg' ! c = deg ! c - count_list cs c) \<and>
    distinct xs \<and> set xs = {c \<in> set cs. deg ! c = count_list cs c}"
  using assms
proof (induction cs deg nxt rule: kahn_callers.induct)
  case (2 c cs deg nxt)
  have c: "c < length deg" using 2 by simp
  have le: "Suc (count_list cs c) \<le> deg ! c" using 2(3) c by (metis count_list.simps(2) Suc_eq_plus1)
  let ?deg = "deg[c := deg ! c - 1]"
  have "\<forall>c' \<in> set cs. c' < length ?deg" using 2 by simp
  moreover have "\<forall>c'. c' < length ?deg \<longrightarrow> count_list cs c' \<le> ?deg ! c'"
    using 2(3) le c by (auto simp: nth_list_update split: if_splits)
  ultimately obtain deg' xs where
    IH: "kahn_callers cs ?deg (if deg ! c - 1 = 0 then nxt @ [c] else nxt)
           = Inr (deg', (if deg ! c - 1 = 0 then nxt @ [c] else nxt) @ xs)"
      "length deg' = length deg" "\<forall>c' < length deg. deg' ! c' = ?deg ! c' - count_list cs c'"
      "distinct xs" "set xs = {c' \<in> set cs. ?deg ! c' = count_list cs c'}"
    using 2(1) c le by auto
  let ?xs = "(if deg ! c - 1 = 0 then [c] else []) @ xs"
  have zero: "deg ! c - 1 = 0 \<Longrightarrow> c \<notin> set cs" using le by (cases "count_list cs c") (auto simp: count_list_0_iff)
  have "kahn_callers (c # cs) deg nxt = Inr (deg', nxt @ ?xs)" using IH(1) c le by simp
  moreover have "\<forall>c' < length deg. deg' ! c' = deg ! c' - count_list (c # cs) c'"
    using IH(3) c by (simp add: nth_list_update)
  moreover have "distinct ?xs" using IH(4,5) zero by auto
  moreover have "set ?xs = {c' \<in> set (c # cs). deg ! c' = count_list (c # cs) c'}"
  proof (rule set_eqI)
    fix c'
    show "c' \<in> set ?xs \<longleftrightarrow> c' \<in> {c' \<in> set (c # cs). deg ! c' = count_list (c # cs) c'}"
    proof (cases "c' = c")
      case True
      have "c \<in> set xs \<longleftrightarrow> c \<in> set cs \<and> deg ! c - 1 = count_list cs c" using IH(5) c by simp
      moreover have "count_list cs c = 0 \<longleftrightarrow> c \<notin> set cs" by (simp add: count_list_0_iff)
      ultimately show ?thesis using le True by auto
    next
      case False
      then show ?thesis using IH(5) by auto
    qed
  qed
  ultimately show ?case using IH(2) by blast
qed simp

lemma kahn_callers_append:
  "kahn_callers (cs @ ds) deg nxt =
     (case kahn_callers cs deg nxt of Inl p \<Rightarrow> Inl p | Inr (deg', nxt') \<Rightarrow> kahn_callers ds deg' nxt')"
  by (induction cs deg nxt rule: kahn_callers.induct) simp_all

lemma kahn_layer_concat:
  "\<forall>u \<in> set q. u < length rv \<Longrightarrow> kahn_layer rv q deg nxt = kahn_callers (concat (map ((!) rv) q)) deg nxt"
  by (induction rv q deg nxt rule: kahn_layer.induct)
    (auto simp: kahn_callers_append split: sum.splits)

lemma count_list_concat: "count_list (concat xss) x = sum_list (map (\<lambda>xs. count_list xs x) xss)"
  by (induction xss) auto

lemma sum_count_filter:
  "distinct q \<Longrightarrow> sum_list (map (count_list xs) q) = length (filter (\<lambda>x. x \<in> set q) xs)"
proof (induction xs)
  case (Cons x xs)
  have "sum_list (map (\<lambda>u. if x = u then 1 else 0) q) = (if x \<in> set q then 1 else (0::nat))"
    using \<open>distinct q\<close> by (induction q) auto
  moreover have "sum_list (map (count_list (x # xs)) q) =
      sum_list (map (\<lambda>u. if x = u then 1 else 0) q) + sum_list (map (count_list xs) q)"
    by (subst sum_list_addf [symmetric]) (rule arg_cong [of _ _ sum_list], simp)
  ultimately show ?case using Cons by (simp del: count_list.simps)
qed (simp add: sum_list_0)

lemma length_filter_split:
  "P \<inter> Q = {} \<Longrightarrow> length (filter (\<lambda>w. w \<notin> P) xs) =
     length (filter (\<lambda>w. w \<notin> P \<union> Q) xs) + length (filter (\<lambda>w. w \<in> Q) xs)"
  by (induction xs) auto

text \<open>
  What the loop relies on: the reverse adjacency lists are the transpose of the adjacency lists,
  edges counted with multiplicity.
\<close>

locale digraph =
  fixes adj rev_adj :: "nat list list"
  assumes length_rev: "length rev_adj = length adj"
    and adj_bound: "u < length adj \<Longrightarrow> v \<in> set (adj ! u) \<Longrightarrow> v < length adj"
    and rev_bound: "v < length adj \<Longrightarrow> u \<in> set (rev_adj ! v) \<Longrightarrow> u < length adj"
    and transpose: "u < length adj \<Longrightarrow> v < length adj \<Longrightarrow> count_list (adj ! u) v = count_list (rev_adj ! v) u"
begin

definition pending :: "nat set \<Rightarrow> nat \<Rightarrow> nat" where
  "pending P v = length (filter (\<lambda>w. w \<notin> P) (adj ! v))"

lemma pending_0: "pending P v = 0 \<longleftrightarrow> set (adj ! v) \<subseteq> P"
  by (auto simp: pending_def filter_empty_conv)

lemma pending_split: "P \<inter> Q = {} \<Longrightarrow> pending P v = pending (P \<union> Q) v + length (filter (\<lambda>w. w \<in> Q) (adj ! v))"
  unfolding pending_def by (rule length_filter_split)

text \<open>
  The state of the loop when the nodes of \<open>P\<close> are placed: counters hold the number of edges to
  nodes not yet placed, and the queue holds the ready nodes.
\<close>

definition kahn_inv :: "nat set \<Rightarrow> nat list \<Rightarrow> nat list \<Rightarrow> bool" where
  "kahn_inv P deg q \<longleftrightarrow> length deg = length adj \<and> (\<forall>v < length adj. deg ! v = pending P v) \<and>
     distinct q \<and> set q = ready adj P \<and> (\<forall>v \<in> P. set (adj ! v) \<subseteq> P)"

lemma kahn_layer_step:
  assumes "kahn_inv P deg q"
  shows "\<exists>deg' nxt. kahn_layer rev_adj q deg [] = Inr (deg', nxt) \<and> kahn_inv (P \<union> set q) deg' nxt"
proof -
  let ?cs = "concat (map ((!) rev_adj) q)"
  have q: "distinct q" "set q = ready adj P" and deg: "length deg = length adj" "\<forall>v < length adj. deg ! v = pending P v"
    and closed: "\<forall>v \<in> P. set (adj ! v) \<subseteq> P"
    using assms by (auto simp: kahn_inv_def)
  have qb: "u < length adj" if "u \<in> set q" for u using that q(2) by (auto simp: ready_def)
  have disj: "P \<inter> set q = {}" using q(2) by (auto simp: ready_def)
  have cnt: "count_list ?cs v = length (filter (\<lambda>w. w \<in> set q) (adj ! v))" if "v < length adj" for v
  proof -
    have "count_list ?cs v = sum_list (map (count_list (adj ! v)) q)"
      unfolding count_list_concat using that qb transpose by (auto intro!: arg_cong [of _ _ sum_list])
    then show ?thesis using q(1) by (simp add: sum_count_filter)
  qed
  have bnd: "v < length adj" if "v \<in> set ?cs" for v using that qb rev_bound by auto
  have split: "deg ! v = pending (P \<union> set q) v + count_list ?cs v" if "v < length adj" for v
    using that deg cnt pending_split [OF disj, of v] by simp
  obtain deg' xs where run: "kahn_callers ?cs deg [] = Inr (deg', xs)" "length deg' = length deg"
      "\<forall>c < length deg. deg' ! c = deg ! c - count_list ?cs c"
      "distinct xs" "set xs = {c \<in> set ?cs. deg ! c = count_list ?cs c}"
    using kahn_callers_correct [of ?cs deg "[]"] bnd split deg(1) by auto
  have "set xs = ready adj (P \<union> set q)"
  proof -
    have "v \<in> set ?cs \<longleftrightarrow> count_list ?cs v \<noteq> 0" for v by (simp only: count_list_0_iff) simp
    then have "v \<in> set xs \<longleftrightarrow> v < length adj \<and> count_list ?cs v \<noteq> 0 \<and> pending (P \<union> set q) v = 0" for v
      using run(5) split bnd by auto
    moreover have "pending P v = 0 \<longleftrightarrow> count_list ?cs v = 0" if "v < length adj" "pending (P \<union> set q) v = 0" for v
      using that split deg by simp
    ultimately show ?thesis using q(2) closed by (auto simp: ready_def pending_0)
  qed
  moreover have "\<forall>v \<in> P \<union> set q. set (adj ! v) \<subseteq> P \<union> set q" using closed q(2) by (auto simp: ready_def)
  ultimately show ?thesis
    using run split deg q by (auto simp: kahn_inv_def kahn_layer_concat qb length_rev)
qed

lemma kahn_correct:
  "kahn_inv P deg q \<Longrightarrow> \<exists>ls deg'. kahn rev_adj deg q = Inr (ls, deg') \<and> layered adj P ls \<and>
     length deg' = length adj \<and> (\<forall>v < length adj. deg' ! v = pending (P \<union> set (concat ls)) v)"
proof (induction rv \<equiv> rev_adj deg q arbitrary: P rule: kahn.induct)
  case (1 deg q)
  show ?case
  proof (cases "q = []")
    case True
    with "1.prems" show ?thesis by (auto simp: kahn_inv_def kahn.simps [of rev_adj deg])
  next
    case False
    from kahn_layer_step [OF "1.prems"] obtain deg' nxt where
      step: "kahn_layer rev_adj q deg [] = Inr (deg', nxt)" "kahn_inv (P \<union> set q) deg' nxt" by blast
    from "1.hyps" [OF False step(1) refl step(2)] obtain ls fin where
      "kahn rev_adj deg' nxt = Inr (ls, fin)" "layered adj (P \<union> set q) ls" "length fin = length adj"
      "\<forall>v < length adj. fin ! v = pending (P \<union> set q \<union> set (concat ls)) v" by blast
    with step(1) "1.prems" False show ?thesis
      by (intro exI [of _ "q # ls"] exI [of _ fin]) (auto simp: kahn_inv_def kahn.simps [of rev_adj deg q] Un_assoc)
  qed
qed

lemma kahn_initial: "kahn_inv {} (map length adj) (initial_queue (map length adj))"
  by (auto simp: kahn_inv_def initial_queue_def pending_def ready_def)

lemma kahn_layers:
  obtains ls deg where "kahn rev_adj (map length adj) (initial_queue (map length adj)) = Inr (ls, deg)"
    "layered adj {} ls" "length deg = length adj"
    "\<And>v. v < length adj \<Longrightarrow> 0 < deg ! v \<longleftrightarrow> \<not> set (adj ! v) \<subseteq> set (concat ls)"
  using kahn_correct [OF kahn_initial] pending_0 by (metis Un_empty_left neq0_conv)

end

section \<open>Consequences\<close>

lemma layered_placed:
  assumes "layered adj P ls"
  shows "distinct (concat ls) \<and> set (concat ls) \<inter> P = {} \<and> set (concat ls) \<subseteq> {..<length adj}"
  using assms
proof (induction adj P ls rule: layered.induct)
  case (2 adj P l ls)
  then have l: "distinct l" "set l = ready adj P" "layered adj (P \<union> set l) ls" unfolding layered.simps by blast+
  have "distinct (concat ls) \<and> set (concat ls) \<inter> (P \<union> set l) = {} \<and> set (concat ls) \<subseteq> {..<length adj}"
    using 2 l(3) by blast
  moreover have "set l \<inter> P = {}" "set l \<subseteq> {..<length adj}" unfolding l(2) by (auto simp: ready_def)
  ultimately show ?case using l(1) by auto
qed simp

lemma in_concat_take: "v \<in> set (concat (take k ls)) \<longleftrightarrow> (\<exists>j < k. j < length ls \<and> v \<in> set (ls ! j))"
  by (auto simp: set_conv_nth [of "take k ls"])

lemma layered_callees:
  "layered adj P ls \<Longrightarrow> k < length ls \<Longrightarrow> v \<in> set (ls ! k) \<Longrightarrow> set (adj ! v) \<subseteq> P \<union> set (concat (take k ls))"
proof (induction adj P ls arbitrary: k rule: layered.induct)
  case (2 adj P l ls)
  then show ?case by (cases k) (fastforce simp: ready_def)+
qed simp

lemma layered_tight:
  "layered adj P ls \<Longrightarrow> Suc k < length ls \<Longrightarrow> v \<in> set (ls ! Suc k) \<Longrightarrow> \<exists>w \<in> set (adj ! v). w \<in> set (ls ! k)"
proof (induction adj P ls arbitrary: k rule: layered.induct)
  case (2 adj P l ls)
  show ?case
  proof (cases k)
    case 0
    then obtain l' ls' where "ls = l' # ls'" using 2 by (cases ls) auto
    with 2 0 have "v \<in> ready adj (P \<union> set l)" "set l = ready adj P" by auto
    then show ?thesis using 0 by (auto simp: ready_def)
  next
    case (Suc m)
    have "layered adj (P \<union> set l) ls" using "2.prems"(1) unfolding layered.simps by blast
    from "2.IH" [OF this, of m] show ?thesis using "2.prems"(2,3) Suc by simp
  qed
qed simp

lemma layered_stuck:
  "layered adj P ls \<Longrightarrow> v < length adj \<Longrightarrow> v \<notin> P \<Longrightarrow> v \<notin> set (concat ls) \<Longrightarrow>
     \<exists>w \<in> set (adj ! v). w \<notin> P \<and> w \<notin> set (concat ls)"
  by (induction adj P ls rule: layered.induct) (fastforce simp: ready_def)+

definition arcs :: "nat list list \<Rightarrow> (nat \<times> nat) set" where
  "arcs adj = {(u, v). u < length adj \<and> v \<in> set (adj ! u)}"

lemma layered_rank:
  assumes "layered adj {} ls" "(u, v) \<in> (arcs adj)\<^sup>+" "k < length ls" "u \<in> set (ls ! k)"
  shows "\<exists>j < k. v \<in> set (ls ! j)"
  using assms(2-)
proof (induction arbitrary: rule: trancl_induct)
  case (base v)
  then have "v \<in> set (concat (take k ls))" using layered_callees [OF assms(1)] by (fastforce simp: arcs_def)
  then show ?case unfolding in_concat_take by blast
next
  case (step v w)
  then obtain j where j: "j < k" "v \<in> set (ls ! j)" by blast
  then have "w \<in> set (concat (take j ls))" using step layered_callees [OF assms(1), of j v] by (fastforce simp: arcs_def)
  then show ?case unfolding in_concat_take using j by (meson less_trans)
qed

definition reaches_cycle :: "nat list list \<Rightarrow> nat \<Rightarrow> bool" where
  "reaches_cycle adj v \<longleftrightarrow> (\<exists>w. (v, w) \<in> (arcs adj)\<^sup>* \<and> (w, w) \<in> (arcs adj)\<^sup>+)"

lemma stuck_reaches_cycle:
  assumes fin: "finite U" and v: "v \<in> U" and succ: "\<And>u. u \<in> U \<Longrightarrow> \<exists>w \<in> U. (u, w) \<in> arcs adj"
  shows "reaches_cycle adj v"
proof (rule ccontr)
  assume no: "\<not> reaches_cycle adj v"
  let ?R = "{(a, b). a \<in> U \<and> b \<in> U \<and> (v, a) \<in> (arcs adj)\<^sup>* \<and> (a, b) \<in> arcs adj}"
  have finR: "finite ?R" by (rule finite_subset [of _ "U \<times> U"]) (use fin in auto)
  have "acyclic ?R"
  proof (rule acyclicI, rule allI, rule notI)
    fix a assume cyc: "(a, a) \<in> ?R\<^sup>+"
    have "(a, a) \<in> (arcs adj)\<^sup>+" by (rule trancl_mono [OF cyc]) auto
    moreover from cyc have "(v, a) \<in> (arcs adj)\<^sup>*" by (auto dest: tranclD)
    ultimately show False using no by (auto simp: reaches_cycle_def)
  qed
  with finR have wf: "wf (?R\<inverse>)" by (rule finite_acyclic_wf_converse)
  let ?Q = "{a \<in> U. (v, a) \<in> (arcs adj)\<^sup>*}"
  have "v \<in> ?Q" using v by simp
  with wf obtain a where a: "a \<in> ?Q" "\<And>b. (b, a) \<in> ?R\<inverse> \<Longrightarrow> b \<notin> ?Q"
    by (rule wfE_min) blast
  from a(1) succ obtain b where b: "b \<in> U" "(a, b) \<in> arcs adj" by blast
  with a(1) have "(b, a) \<in> ?R\<inverse>" "b \<in> ?Q" by (auto intro: rtrancl.rtrancl_into_rtrancl)
  with a(2) show False by blast
qed

lemma distinct_concat_disjoint:
  "distinct (concat ls) \<Longrightarrow> i < j \<Longrightarrow> j < length ls \<Longrightarrow> set (ls ! i) \<inter> set (ls ! j) = {}"
proof (induction ls arbitrary: i j)
  case (Cons l ls)
  then show ?case
  proof (cases i)
    case 0
    then have "ls ! (j - 1) \<in> set ls" "(l # ls) ! j = ls ! (j - 1)" using Cons.prems by (auto simp: nth_Cons')
    then show ?thesis using Cons.prems(1) 0 by fastforce
  next
    case (Suc m)
    then show ?thesis using Cons by (cases j) auto
  qed
qed simp

lemma placed_no_cycle:
  assumes "layered adj {} ls" and "v \<in> set (concat ls)"
  shows "\<not> reaches_cycle adj v"
proof
  assume "reaches_cycle adj v"
  then obtain w where w: "(v, w) \<in> (arcs adj)\<^sup>*" "(w, w) \<in> (arcs adj)\<^sup>+" by (auto simp: reaches_cycle_def)
  then have "(v, w) \<in> (arcs adj)\<^sup>+" by simp
  moreover obtain k where "k < length ls" "v \<in> set (ls ! k)" 
    using assms(2) in_concat_take [of v "length ls" ls] by auto
  ultimately obtain j where j: "j < length ls" "w \<in> set (ls ! j)" using layered_rank [OF assms(1)] by (meson less_trans)
  obtain i where i: "i < j" "w \<in> set (ls ! i)" using layered_rank [OF assms(1) w(2) j] by blast
  have "distinct (concat ls)" using layered_placed [OF assms(1)] by blast
  then have "set (ls ! i) \<inter> set (ls ! j) = {}" using i(1) j(1) by (rule distinct_concat_disjoint)
  with i j show False by blast
qed

lemma layered_unplaced:
  assumes "layered adj {} ls" and "\<And>u v. u < length adj \<Longrightarrow> v \<in> set (adj ! u) \<Longrightarrow> v < length adj" and "v < length adj"
  shows "v \<notin> set (concat ls) \<longleftrightarrow> reaches_cycle adj v"
proof
  assume v: "v \<notin> set (concat ls)"
  let ?U = "{..<length adj} - set (concat ls)"
  show "reaches_cycle adj v"
  proof (rule stuck_reaches_cycle [of ?U])
    fix u assume "u \<in> ?U"
    then show "\<exists>w \<in> ?U. (u, w) \<in> arcs adj"
      using layered_stuck [OF assms(1), of u] assms(2) by (auto simp: arcs_def)
  qed (use v assms(3) in auto)
qed (use placed_no_cycle [OF assms(1)] in blast)

end
