(* ===== verification/Tarjan.thy ===== *)
theory Tarjan
  imports Kahn
begin

text \<open>
  Strongly connected components by Tarjan's algorithm (\<open>TarjanState\<close>, \<open>tarjan_strongconnect\<close> and
  \<open>compute_sccs\<close> of \<open>shatter-core/src/call_graph.rs\<close>) and its correctness. The stack is a list
  whose head is the top. The recursion carries fuel; \<open>compute_sccs\<close> starts with the number of
  nodes, which bounds the depth, and the result is shown never to be \<open>None\<close>.
\<close>

section \<open>The algorithm\<close>

record tarjan_state =
  ts_index_counter :: usize
  ts_stack :: "nat list"
  ts_on_stack :: "bool list"
  ts_node_index :: "usize option list"
  ts_lowlink :: "usize list"
  ts_sccs :: "nat list list"

definition tarjan_enter :: "nat \<Rightarrow> tarjan_state \<Rightarrow> tarjan_state" where
  "tarjan_enter v st = st\<lparr>
     ts_node_index := (ts_node_index st)[v := Some (ts_index_counter st)],
     ts_lowlink := (ts_lowlink st)[v := ts_index_counter st],
     ts_index_counter := ts_index_counter st + 1,
     ts_stack := v # ts_stack st,
     ts_on_stack := (ts_on_stack st)[v := True] \<rparr>"

definition lower_link :: "nat \<Rightarrow> usize \<Rightarrow> tarjan_state \<Rightarrow> tarjan_state" where
  "lower_link v k st = st\<lparr> ts_lowlink := (ts_lowlink st)[v := min (ts_lowlink st ! v) k] \<rparr>"

fun pop_scc :: "nat \<Rightarrow> nat list \<Rightarrow> bool list \<Rightarrow> nat list \<Rightarrow> nat list \<times> nat list \<times> bool list" where
  "pop_scc v [] on_stack scc = (scc, [], on_stack)"
| "pop_scc v (w # stack) on_stack scc =
     (if w = v then (scc @ [w], stack, on_stack[w := False])
      else pop_scc v stack (on_stack[w := False]) (scc @ [w]))"

definition tarjan_leave :: "nat \<Rightarrow> tarjan_state \<Rightarrow> tarjan_state" where
  "tarjan_leave v st =
     (if ts_lowlink st ! v = (case ts_node_index st ! v of Some i \<Rightarrow> i | None \<Rightarrow> 0) then
        (case pop_scc v (ts_stack st) (ts_on_stack st) [] of (scc, stack, on_stack) \<Rightarrow>
           st\<lparr> ts_stack := stack, ts_on_stack := on_stack, ts_sccs := ts_sccs st @ [scc] \<rparr>)
      else st)"

function (sequential) tarjan_strongconnect :: "nat \<Rightarrow> nat \<Rightarrow> nat list list \<Rightarrow> tarjan_state \<Rightarrow> tarjan_state option"
  and tarjan_callees :: "nat \<Rightarrow> nat \<Rightarrow> nat list \<Rightarrow> nat list list \<Rightarrow> tarjan_state \<Rightarrow> tarjan_state option"
where
  "tarjan_strongconnect 0 v adj st = None"
| "tarjan_strongconnect (Suc fuel) v adj st =
     map_option (tarjan_leave v) (tarjan_callees fuel v (adj ! v) adj (tarjan_enter v st))"
| "tarjan_callees fuel v [] adj st = Some st"
| "tarjan_callees fuel v (w # ws) adj st =
     (case ts_node_index st ! w of
        None \<Rightarrow>
          (case tarjan_strongconnect fuel w adj st of
             None \<Rightarrow> None
           | Some st' \<Rightarrow> tarjan_callees fuel v ws adj (lower_link v (ts_lowlink st' ! w) st'))
      | Some i \<Rightarrow>
          if ts_on_stack st ! w then tarjan_callees fuel v ws adj (lower_link v i st)
          else tarjan_callees fuel v ws adj st)"
  by pat_completeness auto
termination
  by (relation "measures [\<lambda>x. case x of Inl (k, v, adj, st) \<Rightarrow> 2 * k | Inr (k, v, ws, adj, st) \<Rightarrow> 2 * k + 1,
      \<lambda>x. case x of Inl _ \<Rightarrow> 0 | Inr (k, v, ws, adj, st) \<Rightarrow> length ws]") auto

fun tarjan_roots :: "nat \<Rightarrow> nat list \<Rightarrow> nat list list \<Rightarrow> tarjan_state \<Rightarrow> tarjan_state option" where
  "tarjan_roots fuel [] adj st = Some st"
| "tarjan_roots fuel (i # is) adj st =
     (if ts_node_index st ! i = None then
        (case tarjan_strongconnect fuel i adj st of None \<Rightarrow> None | Some st' \<Rightarrow> tarjan_roots fuel is adj st')
      else tarjan_roots fuel is adj st)"

definition tarjan_init :: "nat \<Rightarrow> tarjan_state" where
  "tarjan_init n = \<lparr> ts_index_counter = 0, ts_stack = [], ts_on_stack = replicate n False,
     ts_node_index = replicate n None, ts_lowlink = replicate n 0, ts_sccs = [] \<rparr>"

definition compute_sccs :: "nat list list \<Rightarrow> nat list list option" where
  "compute_sccs adj = map_option ts_sccs (tarjan_roots (length adj) [0..<length adj] adj (tarjan_init (length adj)))"

section \<open>The invariant\<close>

definition visited :: "tarjan_state \<Rightarrow> nat set" where
  "visited st = {v. v < length (ts_node_index st) \<and> ts_node_index st ! v \<noteq> None}"

definition num :: "tarjan_state \<Rightarrow> nat \<Rightarrow> nat" where
  "num st v = the (ts_node_index st ! v)"

definition finished :: "tarjan_state \<Rightarrow> nat set" where
  "finished st = set (concat (ts_sccs st))"

text \<open>\<open>C\<close> is a class of mutual reachability.\<close>

definition is_scc :: "nat list list \<Rightarrow> nat set \<Rightarrow> bool" where
  "is_scc adj C \<longleftrightarrow> C \<noteq> {} \<and> (\<forall>x \<in> C. \<forall>y. y \<in> C \<longleftrightarrow> (x, y) \<in> (arcs adj)\<^sup>* \<and> (y, x) \<in> (arcs adj)\<^sup>*)"

definition shape_ok :: "nat list list \<Rightarrow> tarjan_state \<Rightarrow> bool" where
  "shape_ok adj st \<longleftrightarrow>
     length (ts_node_index st) = length adj \<and> length (ts_lowlink st) = length adj \<and>
     length (ts_on_stack st) = length adj \<and>
     (\<forall>v < length adj. ts_on_stack st ! v \<longleftrightarrow> v \<in> set (ts_stack st)) \<and>
     (\<forall>v \<in> visited st. num st v < ts_index_counter st) \<and>
     sorted_wrt (\<lambda>a b. num st b < num st a) (ts_stack st) \<and>
     distinct (concat (ts_sccs st)) \<and>
     set (ts_stack st) \<inter> finished st = {} \<and> set (ts_stack st) \<union> finished st = visited st"

text \<open>\<open>G\<close> are the nodes whose calls are active.\<close>

definition reach_ok :: "nat list list \<Rightarrow> nat set \<Rightarrow> tarjan_state \<Rightarrow> bool" where
  "reach_ok adj G st \<longleftrightarrow>
     G \<subseteq> set (ts_stack st) \<and>
     (\<forall>v \<in> visited st - G. set (adj ! v) \<subseteq> visited st) \<and>
     (\<forall>x \<in> set (ts_stack st). \<exists>g \<in> G. num st g \<le> num st x \<and> (x, g) \<in> (arcs adj)\<^sup>*) \<and>
     (\<forall>g \<in> G. \<forall>x \<in> set (ts_stack st). num st g \<le> num st x \<longrightarrow> (g, x) \<in> (arcs adj)\<^sup>*) \<and>
     (\<forall>C \<in> set (ts_sccs st). is_scc adj (set C)) \<and>
     (\<forall>v \<in> finished st. set (adj ! v) \<subseteq> finished st)"

text \<open>What a call leaves unchanged: numbers, and the low links of nodes already visited.\<close>

definition extends :: "tarjan_state \<Rightarrow> tarjan_state \<Rightarrow> bool" where
  "extends st st' \<longleftrightarrow> visited st \<subseteq> visited st' \<and>
     (\<forall>v \<in> visited st. num st' v = num st v)"

text \<open>
  While the callees of \<open>v\<close> are scanned: \<open>old\<close> is the stack below \<open>v\<close>, and \<open>D\<close> are the callees
  seen so far.
\<close>

definition loop_ok :: "nat list list \<Rightarrow> nat set \<Rightarrow> nat \<Rightarrow> nat list \<Rightarrow> nat set \<Rightarrow> tarjan_state \<Rightarrow> bool" where
  "loop_ok adj G v old D st \<longleftrightarrow>
     shape_ok adj st \<and> reach_ok adj (insert v G) st \<and> G \<subseteq> set old \<and>
     (\<exists>new. ts_stack st = new @ v # old) \<and>
     ts_lowlink st ! v \<le> num st v \<and>
     (ts_lowlink st ! v = num st v \<or> (\<exists>y \<in> set old. num st y = ts_lowlink st ! v \<and> (v, y) \<in> (arcs adj)\<^sup>*)) \<and>
     (\<forall>x \<in> set (ts_stack st) - insert v (set old). \<forall>y \<in> set old. (x, y) \<in> arcs adj \<longrightarrow> ts_lowlink st ! v \<le> num st y) \<and>
     D \<subseteq> visited st \<and> (\<forall>w \<in> D \<inter> set old. ts_lowlink st ! v \<le> num st w)"

definition call_ok :: "nat list list \<Rightarrow> nat set \<Rightarrow> nat \<Rightarrow> tarjan_state \<Rightarrow> tarjan_state \<Rightarrow> bool" where
  "call_ok adj G v st st' \<longleftrightarrow>
     shape_ok adj st' \<and> reach_ok adj G st' \<and> extends st st' \<and> v \<in> visited st' \<and>
     (\<forall>x \<in> visited st. ts_lowlink st' ! x = ts_lowlink st ! x) \<and>
     (\<exists>new. ts_stack st' = new @ ts_stack st) \<and>
     (ts_index_counter st \<le> ts_lowlink st' ! v \<or>
      (\<exists>y \<in> set (ts_stack st). num st y = ts_lowlink st' ! v \<and> (v, y) \<in> (arcs adj)\<^sup>*)) \<and>
     (\<forall>x \<in> set (ts_stack st') - set (ts_stack st). \<forall>y \<in> set (ts_stack st). (x, y) \<in> arcs adj \<longrightarrow> ts_lowlink st' ! v \<le> num st y)"

section \<open>Steps preserve the invariant\<close>

lemma shape_okD:
  assumes "shape_ok adj st"
  shows "length (ts_node_index st) = length adj" and "length (ts_lowlink st) = length adj"
    and "length (ts_on_stack st) = length adj"
    and "v < length adj \<Longrightarrow> ts_on_stack st ! v \<longleftrightarrow> v \<in> set (ts_stack st)"
    and "v \<in> visited st \<Longrightarrow> num st v < ts_index_counter st"
    and "sorted_wrt (\<lambda>a b. num st b < num st a) (ts_stack st)"
    and "distinct (concat (ts_sccs st))" and "set (ts_stack st) \<inter> finished st = {}"
    and "visited st = set (ts_stack st) \<union> finished st"
  using assms by (auto simp: shape_ok_def)

lemma visited_bound: "shape_ok adj st \<Longrightarrow> v \<in> visited st \<Longrightarrow> v < length adj"
  by (simp add: visited_def shape_okD)

lemma node_index_visited:
  "shape_ok adj st \<Longrightarrow> v < length adj \<Longrightarrow> ts_node_index st ! v = (if v \<in> visited st then Some (num st v) else None)"
  by (auto simp: visited_def num_def shape_okD)

lemma stack_visited: "shape_ok adj st \<Longrightarrow> x \<in> set (ts_stack st) \<Longrightarrow> x \<in> visited st"
  by (simp add: shape_okD(9))

lemma stack_num_less:
  assumes "shape_ok adj st" "ts_stack st = new @ v # old"
  shows "y \<in> set old \<Longrightarrow> num st y < num st v" and "x \<in> set new \<Longrightarrow> num st v < num st x"
    and "x \<in> set new \<Longrightarrow> y \<in> set old \<Longrightarrow> num st y < num st x"
  using shape_okD(6) [OF assms(1)] by (auto simp: assms(2) sorted_wrt_append)

lemma sorted_wrt_num_cong:
  assumes "sorted_wrt (\<lambda>a b. num st b < num st a) xs" "\<And>x. x \<in> set xs \<Longrightarrow> num st' x = num st x"
  shows "sorted_wrt (\<lambda>a b. num st' b < num st' a) xs"
  by (rule sorted_wrt_mono_rel [OF _ assms(1)]) (simp add: assms(2))

lemma shape_enter:
  assumes sh: "shape_ok adj st" and v: "v < length adj" "v \<notin> visited st"
  shows "shape_ok adj (tarjan_enter v st)" and "visited (tarjan_enter v st) = insert v (visited st)"
    and "\<And>x. x \<in> visited st \<Longrightarrow> num (tarjan_enter v st) x = num st x"
    and "num (tarjan_enter v st) v = ts_index_counter st"
proof -
  let ?st = "tarjan_enter v st"
  have len: "length (ts_node_index st) = length adj" using sh by (rule shape_okD)
  show vis: "visited ?st = insert v (visited st)"
    using v len by (auto simp: tarjan_enter_def visited_def nth_list_update)
  show same: "\<And>x. x \<in> visited st \<Longrightarrow> num ?st x = num st x"
    using v len by (auto simp: tarjan_enter_def num_def nth_list_update)
  show nv: "num ?st v = ts_index_counter st"
    using v len by (simp add: tarjan_enter_def num_def)
  have fin: "finished ?st = finished st" and stk: "ts_stack ?st = v # ts_stack st"
    and cnt: "ts_index_counter ?st = ts_index_counter st + 1" and scc: "ts_sccs ?st = ts_sccs st"
    by (simp_all add: finished_def tarjan_enter_def)
  have "sorted_wrt (\<lambda>a b. num ?st b < num ?st a) (ts_stack ?st)"
    using shape_okD(5,6) [OF sh] stack_visited [OF sh] same
    by (simp add: stk nv) (rule sorted_wrt_num_cong, auto)
  moreover have "\<forall>x \<in> visited ?st. num ?st x < ts_index_counter ?st"
    using shape_okD(5) [OF sh] same nv by (auto simp: vis cnt intro: less_SucI)
  moreover have "set (ts_stack ?st) \<union> finished ?st = visited ?st" "set (ts_stack ?st) \<inter> finished ?st = {}"
    using shape_okD(8,9) [OF sh] v(2) by (auto simp: vis fin stk)
  moreover have "\<forall>x < length adj. ts_on_stack ?st ! x \<longleftrightarrow> x \<in> set (ts_stack ?st)"
    using shape_okD(3,4) [OF sh] v by (auto simp: tarjan_enter_def nth_list_update)
  moreover have "length (ts_node_index ?st) = length adj" "length (ts_lowlink ?st) = length adj"
    "length (ts_on_stack ?st) = length adj"
    using shape_okD(1-3) [OF sh] by (simp_all add: tarjan_enter_def)
  ultimately show "shape_ok adj ?st"
    using shape_okD(7) [OF sh] by (simp add: shape_ok_def scc)
qed

lemma reach_okD:
  assumes "reach_ok adj G st"
  shows "G \<subseteq> set (ts_stack st)"
    and "v \<in> visited st \<Longrightarrow> v \<notin> G \<Longrightarrow> set (adj ! v) \<subseteq> visited st"
    and "x \<in> set (ts_stack st) \<Longrightarrow> \<exists>g \<in> G. num st g \<le> num st x \<and> (x, g) \<in> (arcs adj)\<^sup>*"
    and "g \<in> G \<Longrightarrow> x \<in> set (ts_stack st) \<Longrightarrow> num st g \<le> num st x \<Longrightarrow> (g, x) \<in> (arcs adj)\<^sup>*"
    and "C \<in> set (ts_sccs st) \<Longrightarrow> is_scc adj (set C)"
    and "v \<in> finished st \<Longrightarrow> set (adj ! v) \<subseteq> finished st"
  using assms by (auto simp: reach_ok_def)

lemma loop_enter:
  assumes sh: "shape_ok adj st" and re: "reach_ok adj G st" and v: "v < length adj" "v \<notin> visited st"
    and gv: "\<And>g. g \<in> G \<Longrightarrow> (g, v) \<in> (arcs adj)\<^sup>*"
  shows "loop_ok adj G v (ts_stack st) {} (tarjan_enter v st)"
proof -
  let ?st = "tarjan_enter v st"
  note en = shape_enter [OF sh v]
  have fin: "finished ?st = finished st" and stk: "ts_stack ?st = v # ts_stack st" and scc: "ts_sccs ?st = ts_sccs st"
    by (simp_all add: finished_def tarjan_enter_def)
  have low: "ts_lowlink ?st ! v = ts_index_counter st"
    using v shape_okD(2) [OF sh] by (simp add: tarjan_enter_def)
  have snum: "x \<in> set (ts_stack st) \<Longrightarrow> num ?st x = num st x \<and> num st x < ts_index_counter st" for x
    using stack_visited [OF sh] en(3) shape_okD(5) [OF sh] by blast
  have "reach_ok adj (insert v G) ?st"
    unfolding reach_ok_def
  proof (intro conjI ballI impI)
    show "insert v G \<subseteq> set (ts_stack ?st)" using reach_okD(1) [OF re] by (auto simp: stk)
    show "set (adj ! x) \<subseteq> visited ?st" if "x \<in> visited ?st - insert v G" for x
      using that reach_okD(2) [OF re, of x] by (auto simp: en(2))
    show "\<exists>g \<in> insert v G. num ?st g \<le> num ?st x \<and> (x, g) \<in> (arcs adj)\<^sup>*" if "x \<in> set (ts_stack ?st)" for x
    proof (cases "x = v")
      case False
      then have x: "x \<in> set (ts_stack st)" using that by (simp add: stk)
      obtain g where "g \<in> G" "num st g \<le> num st x" "(x, g) \<in> (arcs adj)\<^sup>*" using reach_okD(3) [OF re x] by blast
      then show ?thesis using snum x reach_okD(1) [OF re] by (intro bexI [of _ g]) auto
    qed simp
    show "(g, x) \<in> (arcs adj)\<^sup>*" if "g \<in> insert v G" "x \<in> set (ts_stack ?st)" "num ?st g \<le> num ?st x" for g x
    proof (cases "x = v")
      case True
      then show ?thesis using that gv by auto
    next
      case False
      then have x: "x \<in> set (ts_stack st)" using that by (simp add: stk)
      then have "g \<noteq> v" using that(3) snum [OF x] en(4) by auto
      then have g: "g \<in> G" using that by simp
      then show ?thesis using reach_okD(4) [OF re g x] snum reach_okD(1) [OF re] x that(3) by auto
    qed
    show "is_scc adj (set C)" if "C \<in> set (ts_sccs ?st)" for C using that reach_okD(5) [OF re] by (simp add: scc)
    show "set (adj ! x) \<subseteq> finished ?st" if "x \<in> finished ?st" for x
      using that reach_okD(6) [OF re] by (simp add: fin)
  qed
  then show ?thesis using en(1) reach_okD(1) [OF re] by (simp add: loop_ok_def stk low en(4))
qed

lemma loop_okD:
  assumes "loop_ok adj G v old D st"
  shows "shape_ok adj st" and "reach_ok adj (insert v G) st" and "G \<subseteq> set old"
    and "\<exists>new. ts_stack st = new @ v # old" and "ts_lowlink st ! v \<le> num st v"
    and "ts_lowlink st ! v = num st v \<or> (\<exists>y \<in> set old. num st y = ts_lowlink st ! v \<and> (v, y) \<in> (arcs adj)\<^sup>*)"
    and "x \<in> set (ts_stack st) \<Longrightarrow> x \<noteq> v \<Longrightarrow> x \<notin> set old \<Longrightarrow> y \<in> set old \<Longrightarrow> (x, y) \<in> arcs adj \<Longrightarrow> ts_lowlink st ! v \<le> num st y"
    and "D \<subseteq> visited st" and "w \<in> D \<Longrightarrow> w \<in> set old \<Longrightarrow> ts_lowlink st ! v \<le> num st w"
  using assms by (auto simp: loop_ok_def)

lemma lower_link_simps [simp]:
  "ts_index_counter (lower_link v k st) = ts_index_counter st" "ts_stack (lower_link v k st) = ts_stack st"
  "ts_on_stack (lower_link v k st) = ts_on_stack st" "ts_node_index (lower_link v k st) = ts_node_index st"
  "ts_sccs (lower_link v k st) = ts_sccs st" "visited (lower_link v k st) = visited st"
  "num (lower_link v k st) = num st" "finished (lower_link v k st) = finished st"
  "shape_ok adj (lower_link v k st) = shape_ok adj st" "reach_ok adj G (lower_link v k st) = reach_ok adj G st"
  by (simp_all add: lower_link_def visited_def num_def [abs_def] finished_def shape_ok_def reach_ok_def)

lemma lower_link_at:
  "v < length (ts_lowlink st) \<Longrightarrow> ts_lowlink (lower_link v k st) ! v = min (ts_lowlink st ! v) k"
  "x \<noteq> v \<Longrightarrow> ts_lowlink (lower_link v k st) ! x = ts_lowlink st ! x"
  by (simp_all add: lower_link_def)

lemma loop_v:
  assumes "loop_ok adj G v old D st"
  shows "v \<in> visited st" and "v < length adj" and "v < length (ts_lowlink st)"
    and "set old \<subseteq> set (ts_stack st)" and "\<And>y. y \<in> set old \<Longrightarrow> num st y < num st v"
    and "\<And>y. y \<in> set (ts_stack st) \<Longrightarrow> num st y < num st v \<Longrightarrow> y \<in> set old"
proof -
  note sh = loop_okD(1) [OF assms]
  obtain new where new: "ts_stack st = new @ v # old" using loop_okD(4) [OF assms] by blast
  show v: "v \<in> visited st" using stack_visited [OF sh] new by simp
  show "v < length adj" using visited_bound [OF sh v] .
  then show "v < length (ts_lowlink st)" using shape_okD(2) [OF sh] by simp
  show "set old \<subseteq> set (ts_stack st)" using new by auto
  show "\<And>y. y \<in> set old \<Longrightarrow> num st y < num st v" using stack_num_less(1) [OF sh new] .
  show "\<And>y. y \<in> set (ts_stack st) \<Longrightarrow> num st y < num st v \<Longrightarrow> y \<in> set old"
    using stack_num_less(2) [OF sh new] new by fastforce
qed

text \<open>Lowering the link of \<open>v\<close> to the number of a stack node it reaches.\<close>

lemma loop_lower:
  assumes lo: "loop_ok adj G v old D st"
    and k: "k < ts_lowlink st ! v \<Longrightarrow> \<exists>y \<in> set (ts_stack st). num st y = k \<and> (v, y) \<in> (arcs adj)\<^sup>*"
    and w: "w \<in> visited st" "w \<in> set old \<Longrightarrow> k \<le> num st w"
  shows "loop_ok adj G v old (insert w D) (lower_link v k st)"
proof -
  note v = loop_v [OF lo]
  have low: "ts_lowlink (lower_link v k st) ! v = min (ts_lowlink st ! v) k" by (rule lower_link_at) (rule v)
  have "min (ts_lowlink st ! v) k = num st v \<or>
      (\<exists>y \<in> set old. num st y = min (ts_lowlink st ! v) k \<and> (v, y) \<in> (arcs adj)\<^sup>*)"
  proof (cases "k < ts_lowlink st ! v")
    case True
    then obtain y where y: "y \<in> set (ts_stack st)" "num st y = k" "(v, y) \<in> (arcs adj)\<^sup>*" using k by blast
    then have "y \<in> set old" using v(6) True loop_okD(5) [OF lo] by auto
    then show ?thesis using y True by auto
  next
    case False
    then show ?thesis using loop_okD(6) [OF lo] by (auto simp: min_def)
  qed
  moreover have "min (ts_lowlink st ! v) k \<le> num st v" using loop_okD(5) [OF lo] by auto
  moreover have "min (ts_lowlink st ! v) k \<le> num st y"
    if "x \<in> set (ts_stack st) - insert v (set old)" "y \<in> set old" "(x, y) \<in> arcs adj" for x y
    using loop_okD(7) [OF lo] that by (auto simp: min.coboundedI1)
  moreover have "min (ts_lowlink st ! v) k \<le> num st u" if "u \<in> insert w D \<inter> set old" for u
    using that w(2) loop_okD(9) [OF lo] by (auto simp: min.coboundedI1 min.coboundedI2)
  ultimately show ?thesis
    using loop_okD(1-4,8) [OF lo] w(1) by (simp add: loop_ok_def low)
qed

lemma loop_skip:
  "loop_ok adj G v old D st \<Longrightarrow> w \<in> visited st \<Longrightarrow> w \<notin> set (ts_stack st) \<Longrightarrow> loop_ok adj G v old (insert w D) st"
  using loop_v(4) by (fastforce simp: loop_ok_def)

lemma call_okD:
  assumes "call_ok adj G v st st'"
  shows "shape_ok adj st'" and "reach_ok adj G st'" and "visited st \<subseteq> visited st'"
    and "x \<in> visited st \<Longrightarrow> num st' x = num st x" and "v \<in> visited st'"
    and "x \<in> visited st \<Longrightarrow> ts_lowlink st' ! x = ts_lowlink st ! x"
    and "\<exists>new. ts_stack st' = new @ ts_stack st"
    and "ts_index_counter st \<le> ts_lowlink st' ! v \<or>
      (\<exists>y \<in> set (ts_stack st). num st y = ts_lowlink st' ! v \<and> (v, y) \<in> (arcs adj)\<^sup>*)"
    and "x \<in> set (ts_stack st') \<Longrightarrow> x \<notin> set (ts_stack st) \<Longrightarrow> y \<in> set (ts_stack st) \<Longrightarrow> (x, y) \<in> arcs adj \<Longrightarrow>
      ts_lowlink st' ! v \<le> num st y"
  using assms by (auto simp: call_ok_def extends_def)

text \<open>After a recursive call on an unvisited callee.\<close>

lemma loop_call:
  assumes lo: "loop_ok adj G v old D st" and w: "(v, w) \<in> arcs adj" "w \<notin> visited st"
    and ca: "call_ok adj (insert v G) w st st'"
  shows "loop_ok adj G v old (insert w D) (lower_link v (ts_lowlink st' ! w) st')"
proof -
  note v = loop_v [OF lo] and sh = loop_okD(1) [OF lo] and sh' = call_okD(1) [OF ca]
  obtain new1 where new1: "ts_stack st = new1 @ v # old" using loop_okD(4) [OF lo] by blast
  obtain new2 where new2: "ts_stack st' = new2 @ ts_stack st" using call_okD(7) [OF ca] by blast
  have sv: "y \<in> visited st" if "y \<in> set (ts_stack st)" for y using stack_visited [OF sh that] .
  have num: "num st' y = num st y" if "y \<in> set (ts_stack st)" for y using call_okD(4) [OF ca sv [OF that]] .
  have old: "y \<in> set old \<Longrightarrow> num st' y = num st y" for y using num v(4) by blast
  have low: "ts_lowlink st' ! v = ts_lowlink st ! v" and nv: "num st' v = num st v"
    using call_okD(4,6) [OF ca v(1)] by simp_all
  let ?l = "ts_lowlink st' ! w"
  let ?st = "lower_link v ?l st'"
  have at: "ts_lowlink ?st ! v = min (ts_lowlink st ! v) ?l"
    using v(2) shape_okD(2) [OF sh'] low by (simp add: lower_link_at)
  have case_l: "min (ts_lowlink st ! v) ?l = num st' v \<or>
      (\<exists>y \<in> set old. num st' y = min (ts_lowlink st ! v) ?l \<and> (v, y) \<in> (arcs adj)\<^sup>*)"
  proof (cases "?l < ts_lowlink st ! v")
    case True
    then have "?l < num st v" using loop_okD(5) [OF lo] by simp
    then have "\<not> ts_index_counter st \<le> ?l" using shape_okD(5) [OF sh v(1)] by simp
    then obtain y where y: "y \<in> set (ts_stack st)" "num st y = ?l" "(w, y) \<in> (arcs adj)\<^sup>*"
      using call_okD(8) [OF ca] by blast
    then have "y \<in> set old" using v(6) \<open>?l < num st v\<close> by auto
    moreover have "(v, y) \<in> (arcs adj)\<^sup>*" using w(1) y(3) by (rule converse_rtrancl_into_rtrancl)
    ultimately show ?thesis using y True old by auto
  next
    case False
    then show ?thesis using loop_okD(6) [OF lo] old nv by (auto simp: min_def)
  qed
  have new_edges: "min (ts_lowlink st ! v) ?l \<le> num st' y"
    if x: "x \<in> set (ts_stack st') - insert v (set old)" and y: "y \<in> set old" and e: "(x, y) \<in> arcs adj" for x y
  proof (cases "x \<in> set (ts_stack st)")
    case True
    then have "ts_lowlink st ! v \<le> num st y" using loop_okD(7) [OF lo] x y e by blast
    then show ?thesis using old y by (simp add: min.coboundedI1)
  next
    case False
    then have "?l \<le> num st y" using call_okD(9) [OF ca] x y e v(4) by blast
    then show ?thesis using old y by (simp add: min.coboundedI2)
  qed
  have seen: "min (ts_lowlink st ! v) ?l \<le> num st' u" if "u \<in> insert w D \<inter> set old" for u
  proof -
    have "u \<noteq> w" using that w(2) sv v(4) by blast
    then have "ts_lowlink st ! v \<le> num st u" using loop_okD(9) [OF lo] that by blast
    then show ?thesis using old that by (simp add: min.coboundedI1)
  qed
  have "\<exists>new. ts_stack st' = new @ v # old" using new1 new2 by (intro exI [of _ "new2 @ new1"]) simp
  moreover have "insert w D \<subseteq> visited st'" using loop_okD(8) [OF lo] call_okD(3,5) [OF ca] by blast
  moreover have "min (ts_lowlink st ! v) ?l \<le> num st' v" using loop_okD(5) [OF lo] nv by auto
  ultimately show ?thesis
    using sh' call_okD(2) [OF ca] loop_okD(3) [OF lo] case_l new_edges seen by (simp add: loop_ok_def at)
qed

section \<open>Leaving a node\<close>

lemma nth_clear: "x < length bs \<Longrightarrow> bs[w := False] ! x \<longleftrightarrow> bs ! x \<and> x \<noteq> w"
  by (cases "x = w") simp_all

lemma pop_scc_spec:
  "v \<notin> set new \<Longrightarrow> \<exists>on'. pop_scc v (new @ v # old) on scc = (scc @ new @ [v], old, on') \<and> length on' = length on \<and>
     (\<forall>x < length on. on' ! x \<longleftrightarrow> on ! x \<and> x \<notin> set new \<and> x \<noteq> v)"
proof (induction new arbitrary: on scc)
  case Nil
  then show ?case by (auto simp: nth_clear)
next
  case (Cons w new)
  then obtain on' where "pop_scc v (new @ v # old) (on[w := False]) (scc @ [w]) = ((scc @ [w]) @ new @ [v], old, on')"
    "length on' = length on" "\<forall>x < length on. on' ! x \<longleftrightarrow> on[w := False] ! x \<and> x \<notin> set new \<and> x \<noteq> v"
    by (metis length_list_update list.set_intros(2))
  then show ?case using Cons.prems by (auto simp: nth_clear)
qed

text \<open>When the low link of \<open>v\<close> is its own number, the stack above and including \<open>v\<close> is closed up
  to finished nodes, hence a component.\<close>

lemma popped_closed:
  assumes lo: "loop_ok adj G v old (set (adj ! v)) st" and root: "ts_lowlink st ! v = num st v"
    and new: "ts_stack st = new @ v # old" and x: "x \<in> insert v (set new)" and path: "(x, y) \<in> (arcs adj)\<^sup>*"
  shows "y \<in> insert v (set new) \<union> finished st"
  using path
proof (induction rule: rtrancl_induct)
  case base
  then show ?case using x by blast
next
  case (step a b)
  note sh = loop_okD(1) [OF lo] and re = loop_okD(2) [OF lo] and v = loop_v [OF lo]
  have ab: "b \<in> set (adj ! a)" using step(2) by (simp add: arcs_def)
  show ?case
  proof (cases "a \<in> finished st")
    case True
    then show ?thesis using reach_okD(6) [OF re] ab by blast
  next
    case False
    then have a: "a \<in> insert v (set new)" using step by blast
    have nold: "a \<noteq> v \<Longrightarrow> a \<notin> set old" using a stack_num_less(3) [OF sh new, of a a] by blast
    have "b \<in> visited st"
    proof (cases "a = v")
      case True
      then show ?thesis using ab loop_okD(8) [OF lo] by blast
    next
      case False
      then have "a \<notin> insert v G" using nold loop_okD(3) [OF lo] by blast
      moreover have "a \<in> visited st" using stack_visited [OF sh] a new by auto
      ultimately show ?thesis using reach_okD(2) [OF re] ab by blast
    qed
    moreover have "b \<notin> set old"
    proof
      assume b: "b \<in> set old"
      have "ts_lowlink st ! v \<le> num st b"
      proof (cases "a = v")
        case True
        then show ?thesis using loop_okD(9) [OF lo _ b] ab by simp
      next
        case False
        then show ?thesis using loop_okD(7) [OF lo _ False nold b step(2)] a new by auto
      qed
      then show False using v(5) [OF b] root by simp
    qed
    ultimately show ?thesis using shape_okD(9) [OF sh] new by auto
  qed
qed

lemma popped_is_scc:
  assumes lo: "loop_ok adj G v old (set (adj ! v)) st" and root: "ts_lowlink st ! v = num st v"
    and new: "ts_stack st = new @ v # old"
  shows "is_scc adj (insert v (set new))"
proof -
  note sh = loop_okD(1) [OF lo] and re = loop_okD(2) [OF lo]
  have fwd: "(v, x) \<in> (arcs adj)\<^sup>*" if "x \<in> insert v (set new)" for x
    using that reach_okD(4) [OF re, of v x] stack_num_less(2) [OF sh new, of x] new by auto
  have notfin: "x \<notin> finished st" if "x \<in> set (ts_stack st)" for x
    using that shape_okD(8) [OF sh] by blast
  have bwd: "(x, v) \<in> (arcs adj)\<^sup>*" if x: "x \<in> insert v (set new)" for x
  proof -
    have "x \<in> set (ts_stack st)" using x new by auto
    then obtain g where g: "g \<in> insert v G" "(x, g) \<in> (arcs adj)\<^sup>*" using reach_okD(3) [OF re] by blast
    then have "g \<in> insert v (set new) \<union> finished st" using popped_closed [OF lo root new x] by blast
    moreover have "g \<in> set (ts_stack st)" using g(1) reach_okD(1) [OF re] by blast
    ultimately have "g \<in> insert v (set new)" using notfin by blast
    moreover have "g \<in> set new \<Longrightarrow> g \<notin> set old" using stack_num_less(3) [OF sh new, of g g] by blast
    ultimately have "g = v" using g(1) loop_okD(3) [OF lo] by blast
    with g show ?thesis by simp
  qed
  have fin_closed: "y \<in> finished st" if "(x, y) \<in> (arcs adj)\<^sup>*" "x \<in> finished st" for x y
    using that by (induction rule: rtrancl_induct) (use reach_okD(6) [OF re] in \<open>auto simp: arcs_def\<close>)
  have "y \<in> insert v (set new)"
    if x: "x \<in> insert v (set new)" and xy: "(x, y) \<in> (arcs adj)\<^sup>*" and yx: "(y, x) \<in> (arcs adj)\<^sup>*" for x y
    using popped_closed [OF lo root new x xy] fin_closed [OF yx] notfin [of x] x new by auto
  moreover have "(x, y) \<in> (arcs adj)\<^sup>*" if "x \<in> insert v (set new)" "y \<in> insert v (set new)" for x y
    using bwd [OF that(1)] fwd [OF that(2)] by (rule rtrancl_trans)
  ultimately show ?thesis unfolding is_scc_def by blast
qed

lemma sorted_num_distinct: "sorted_wrt (\<lambda>a b. num st b < num st a) xs \<Longrightarrow> distinct xs"
  by (induction xs) auto

lemma leave_root:
  assumes lo: "loop_ok adj G v old (set (adj ! v)) st" and root: "ts_lowlink st ! v = num st v"
  shows "shape_ok adj (tarjan_leave v st)" and "reach_ok adj G (tarjan_leave v st)"
    and "ts_stack (tarjan_leave v st) = old" and "visited (tarjan_leave v st) = visited st"
    and "num (tarjan_leave v st) = num st" and "ts_lowlink (tarjan_leave v st) = ts_lowlink st"
proof -
  note sh = loop_okD(1) [OF lo] and re = loop_okD(2) [OF lo] and v = loop_v [OF lo]
  obtain new where new: "ts_stack st = new @ v # old" using loop_okD(4) [OF lo] by blast
  have vnew: "v \<notin> set new" using stack_num_less(2) [OF sh new] by blast
  have disj: "set old \<inter> insert v (set new) = {}"
    using stack_num_less(1) [OF sh new, of v] stack_num_less(3) [OF sh new] by fastforce
  have ni: "ts_node_index st ! v = Some (num st v)" using node_index_visited [OF sh v(2)] v(1) by simp
  obtain on' where on': "pop_scc v (ts_stack st) (ts_on_stack st) [] = (new @ [v], old, on')"
    "length on' = length (ts_on_stack st)"
    "\<And>x. x < length (ts_on_stack st) \<Longrightarrow> on' ! x \<longleftrightarrow> ts_on_stack st ! x \<and> x \<notin> set new \<and> x \<noteq> v"
    using pop_scc_spec [OF vnew, of old "ts_on_stack st" "[]"] new by auto
  let ?st = "tarjan_leave v st"
  have st: "?st = st\<lparr> ts_stack := old, ts_on_stack := on', ts_sccs := ts_sccs st @ [new @ [v]] \<rparr>"
    using root by (simp add: tarjan_leave_def ni on'(1))
  show stk: "ts_stack ?st = old" and vis: "visited ?st = visited st" and num: "num ?st = num st"
    and "ts_lowlink ?st = ts_lowlink st"
    by (simp_all add: st visited_def num_def [abs_def])
  have fin: "finished ?st = finished st \<union> insert v (set new)" by (auto simp: st finished_def)
  have part: "visited st = set old \<union> (insert v (set new) \<union> finished st)" using shape_okD(9) [OF sh] new by auto
  have dist: "distinct (concat (ts_sccs ?st))"
  proof -
    have "distinct (new @ [v])" using sorted_num_distinct [OF shape_okD(6) [OF sh]] by (simp add: new)
    moreover have "set (new @ [v]) \<inter> finished st = {}" using shape_okD(8) [OF sh] new by auto
    ultimately show ?thesis using shape_okD(7) [OF sh] by (auto simp: st finished_def)
  qed
  have "sorted_wrt (\<lambda>a b. num st b < num st a) old" using shape_okD(6) [OF sh] by (simp add: new sorted_wrt_append)
  moreover have "set old \<inter> finished ?st = {}" using shape_okD(8) [OF sh] new disj by (auto simp: fin)
  moreover have "\<forall>x < length adj. ts_on_stack ?st ! x \<longleftrightarrow> x \<in> set old"
    using on'(3) shape_okD(3,4) [OF sh] new disj by (auto simp: st)
  moreover have "length (ts_node_index ?st) = length adj" "length (ts_lowlink ?st) = length adj"
    "length (ts_on_stack ?st) = length adj" "ts_index_counter ?st = ts_index_counter st"
    using shape_okD(1-3) [OF sh] on'(2) by (simp_all add: st)
  ultimately show "shape_ok adj ?st"
    using shape_okD(5) [OF sh] part dist by (auto simp: shape_ok_def stk vis num fin)
  show "reach_ok adj G ?st"
    unfolding reach_ok_def stk vis num
  proof (intro conjI ballI impI)
    show "G \<subseteq> set old" by (rule loop_okD(3) [OF lo])
    show "set (adj ! x) \<subseteq> visited st" if "x \<in> visited st - G" for x
      using that reach_okD(2) [OF re, of x] loop_okD(8) [OF lo] by (cases "x = v") auto
    show "\<exists>g \<in> G. num st g \<le> num st x \<and> (x, g) \<in> (arcs adj)\<^sup>*" if x: "x \<in> set old" for x
    proof -
      obtain g where "g \<in> insert v G" "num st g \<le> num st x" "(x, g) \<in> (arcs adj)\<^sup>*"
        using reach_okD(3) [OF re, of x] x v(4) by blast
      then show ?thesis using v(5) [OF x] by auto
    qed
    show "(g, x) \<in> (arcs adj)\<^sup>*" if "g \<in> G" "x \<in> set old" "num st g \<le> num st x" for g x
      using that reach_okD(4) [OF re, of g x] v(4) by blast
    show "is_scc adj (set C)" if "C \<in> set (ts_sccs ?st)" for C
      using that reach_okD(5) [OF re] popped_is_scc [OF lo root new] by (auto simp: st)
    show "set (adj ! x) \<subseteq> finished ?st" if x: "x \<in> finished ?st" for x
    proof (cases "x \<in> finished st")
      case True
      then show ?thesis using reach_okD(6) [OF re] by (auto simp: fin)
    next
      case False
      then have xs: "x \<in> insert v (set new)" using x by (auto simp: fin)
      then have "x < length adj" using visited_bound [OF sh, of x] part by blast
      then have "(x, y) \<in> (arcs adj)\<^sup>*" if "y \<in> set (adj ! x)" for y using that by (auto simp: arcs_def)
      then show ?thesis using popped_closed [OF lo root new xs] by (auto simp: fin)
    qed
  qed
qed

lemma leave_inner:
  assumes lo: "loop_ok adj G v old (set (adj ! v)) st" and root: "ts_lowlink st ! v \<noteq> num st v"
  shows "tarjan_leave v st = st" and "reach_ok adj G st"
proof -
  note sh = loop_okD(1) [OF lo] and re = loop_okD(2) [OF lo] and v = loop_v [OF lo]
  have ni: "ts_node_index st ! v = Some (num st v)" using node_index_visited [OF sh v(2)] v(1) by simp
  show "tarjan_leave v st = st" using root by (simp add: tarjan_leave_def ni)
  obtain y where y: "y \<in> set old" "(v, y) \<in> (arcs adj)\<^sup>*" using loop_okD(6) [OF lo] root by blast
  obtain h where h: "h \<in> insert v G" "num st h \<le> num st y" "(y, h) \<in> (arcs adj)\<^sup>*"
    using reach_okD(3) [OF re, of y] y(1) v(4) by blast
  have hG: "h \<in> G" "num st h < num st v" "(v, h) \<in> (arcs adj)\<^sup>*"
    using h v(5) [OF y(1)] y(2) by (auto intro: rtrancl_trans)
  show "reach_ok adj G st"
    unfolding reach_ok_def
  proof (intro conjI ballI impI)
    show "G \<subseteq> set (ts_stack st)" using reach_okD(1) [OF re] by blast
    show "set (adj ! x) \<subseteq> visited st" if "x \<in> visited st - G" for x
      using that reach_okD(2) [OF re, of x] loop_okD(8) [OF lo] by (cases "x = v") auto
    show "\<exists>g \<in> G. num st g \<le> num st x \<and> (x, g) \<in> (arcs adj)\<^sup>*" if x: "x \<in> set (ts_stack st)" for x
    proof -
      obtain g where g: "g \<in> insert v G" "num st g \<le> num st x" "(x, g) \<in> (arcs adj)\<^sup>*"
        using reach_okD(3) [OF re x] by blast
      show ?thesis
      proof (cases "g = v")
        case True
        then have "num st h \<le> num st x" "(x, h) \<in> (arcs adj)\<^sup>*" using g hG by (auto intro: rtrancl_trans)
        then show ?thesis using hG(1) by blast
      qed (use g in blast)
    qed
  qed (use reach_okD(4-6) [OF re] in auto)
qed

section \<open>Correctness\<close>

definition wf_adj :: "nat list list \<Rightarrow> bool" where
  "wf_adj adj \<longleftrightarrow> (\<forall>u < length adj. set (adj ! u) \<subseteq> {..<length adj})"

lemma unvisited_mono:
  "visited st \<subseteq> visited st' \<Longrightarrow> card ({..<n} - visited st') \<le> card ({..<n} - visited st)"
  by (rule card_mono) auto

text \<open>Entering, scanning all callees and leaving amounts to a call.\<close>

lemma call_from_loop:
  assumes sh: "shape_ok adj st" and v: "v < length adj" "v \<notin> visited st"
    and lo: "loop_ok adj G v (ts_stack st) (set (adj ! v)) st1" and ex: "extends (tarjan_enter v st) st1"
    and low: "\<And>x. x \<in> visited (tarjan_enter v st) \<Longrightarrow> x \<noteq> v \<Longrightarrow> ts_lowlink st1 ! x = ts_lowlink (tarjan_enter v st) ! x"
  shows "call_ok adj G v st (tarjan_leave v st1)"
proof -
  note en = shape_enter [OF sh v] and lv = loop_v [OF lo]
  have vis: "visited st \<subseteq> visited st1" and num: "x \<in> visited st \<Longrightarrow> num st1 x = num st x" for x
    using ex en(2,3) by (auto simp: extends_def)
  have nv: "num st1 v = ts_index_counter st" using ex en(2,4) by (simp add: extends_def)
  have low': "ts_lowlink st1 ! x = ts_lowlink st ! x" if "x \<in> visited st" for x
    using low [of x] that v(2) en(2) by (auto simp: tarjan_enter_def)
  have snum: "num st1 y = num st y" if "y \<in> set (ts_stack st)" for y using num stack_visited [OF sh that] by simp
  show ?thesis
  proof (cases "ts_lowlink st1 ! v = num st1 v")
    case True
    note le = leave_root [OF lo True]
    show ?thesis
      unfolding call_ok_def extends_def using le lv(1) vis num low' nv True by auto
  next
    case False
    note le = leave_inner [OF lo False]
    obtain new where new: "ts_stack st1 = new @ v # ts_stack st" using loop_okD(4) [OF lo] by blast
    have "\<exists>y \<in> set (ts_stack st). num st y = ts_lowlink st1 ! v \<and> (v, y) \<in> (arcs adj)\<^sup>*"
      using loop_okD(6) [OF lo] False snum by auto
    moreover have "ts_lowlink st1 ! v \<le> num st y"
      if x: "x \<in> set (ts_stack st1) - set (ts_stack st)" and y: "y \<in> set (ts_stack st)" and e: "(x, y) \<in> arcs adj" for x y
    proof (cases "x = v")
      case True
      then show ?thesis using loop_okD(9) [OF lo, of y] e y snum by (auto simp: arcs_def)
    next
      case False
      then show ?thesis using loop_okD(7) [OF lo, of x y] x y e snum by auto
    qed
    ultimately show ?thesis
      unfolding call_ok_def extends_def le(1)
      using le(2) loop_okD(1) [OF lo] lv(1) vis num low' new by auto
  qed
qed

lemma extends_trans: "extends a b \<Longrightarrow> extends b c \<Longrightarrow> extends a c"
  by (auto simp: extends_def)

lemma tarjan_correct:
  "wf_adj adj \<Longrightarrow> shape_ok adj st \<Longrightarrow> reach_ok adj G st \<Longrightarrow> v < length adj \<Longrightarrow> v \<notin> visited st \<Longrightarrow>
     \<forall>g \<in> G. (g, v) \<in> (arcs adj)\<^sup>* \<Longrightarrow> card ({..<length adj} - visited st) \<le> fuel \<Longrightarrow>
     \<exists>st'. tarjan_strongconnect fuel v adj st = Some st' \<and> call_ok adj G v st st'"
  "wf_adj adj \<Longrightarrow> loop_ok adj G v old D st \<Longrightarrow> set ws \<subseteq> set (adj ! v) \<Longrightarrow>
     \<forall>g \<in> G. (g, v) \<in> (arcs adj)\<^sup>* \<Longrightarrow> card ({..<length adj} - visited st) \<le> fuel \<Longrightarrow>
     \<exists>st'. tarjan_callees fuel v ws adj st = Some st' \<and> loop_ok adj G v old (D \<union> set ws) st' \<and>
       extends st st' \<and> (\<forall>x \<in> visited st. x \<noteq> v \<longrightarrow> ts_lowlink st' ! x = ts_lowlink st ! x)"
proof (induction fuel v adj st and fuel v ws adj st arbitrary: G and G old D
    rule: tarjan_strongconnect_tarjan_callees.induct)
  case (1 v adj st)
  then have "v \<in> {..<length adj} - visited st" by simp
  then have "card ({..<length adj} - visited st) \<noteq> 0" by (metis card_0_eq empty_iff finite_Diff finite_lessThan)
  with 1 show ?case by simp
next
  case (2 fuel v adj st)
  have v: "v < length adj" "v \<notin> visited st" using 2 by auto
  note en = shape_enter [OF 2(3) v]
  have lo: "loop_ok adj G v (ts_stack st) {} (tarjan_enter v st)" using loop_enter [OF 2(3,4) v] 2(7) by blast
  have "{..<length adj} - visited st = insert v ({..<length adj} - visited (tarjan_enter v st))"
    using v en(2) by auto
  moreover have "v \<notin> {..<length adj} - visited (tarjan_enter v st)" using en(2) by simp
  ultimately have "card ({..<length adj} - visited (tarjan_enter v st)) \<le> fuel" using 2(8) by simp
  from 2(1) [OF 2(2) lo order.refl 2(7) this] obtain st1 where
    "tarjan_callees fuel v (adj ! v) adj (tarjan_enter v st) = Some st1"
    "loop_ok adj G v (ts_stack st) (set (adj ! v)) st1" "extends (tarjan_enter v st) st1"
    "\<forall>x \<in> visited (tarjan_enter v st). x \<noteq> v \<longrightarrow> ts_lowlink st1 ! x = ts_lowlink (tarjan_enter v st) ! x"
    by auto
  then show ?case using call_from_loop [OF 2(3) v] by auto
next
  case (3 fuel v adj st)
  then show ?case by (simp add: extends_def)
next
  case (4 fuel v w ws adj st)
  note lo = "4.prems"(2) and v = loop_v [OF "4.prems"(2)] and sh = loop_okD(1) [OF "4.prems"(2)]
  have vw: "(v, w) \<in> arcs adj" using "4.prems"(3) v(2) by (simp add: arcs_def)
  have w: "w < length adj" using "4.prems"(1,3) v(2) by (auto simp: wf_adj_def)
  show ?case
  proof (cases "w \<in> visited st")
    case False
    then have ni: "ts_node_index st ! w = None" using node_index_visited [OF sh w] by simp
    have gw: "\<forall>g \<in> insert v G. (g, w) \<in> (arcs adj)\<^sup>*" using "4.prems"(4) vw by (auto intro: rtrancl_into_rtrancl)
    from "4.IH"(1) [OF ni "4.prems"(1) sh loop_okD(2) [OF lo] w False gw "4.prems"(5)] obtain st1 where
      st1: "tarjan_strongconnect fuel w adj st = Some st1" "call_ok adj (insert v G) w st st1" by blast
    let ?st = "lower_link v (ts_lowlink st1 ! w) st1"
    have lo1: "loop_ok adj G v old (insert w D) ?st" by (rule loop_call [OF lo vw False st1(2)])
    have ex1: "extends st ?st" using call_okD(3,4) [OF st1(2)] by (simp add: extends_def)
    have "card ({..<length adj} - visited ?st) \<le> fuel"
      using unvisited_mono [of st ?st "length adj"] ex1 "4.prems"(5) by (simp add: extends_def)
    from "4.IH"(2) [OF ni st1(1) "4.prems"(1) lo1 _ "4.prems"(4) this] "4.prems"(3) obtain st2 where
      st2: "tarjan_callees fuel v ws adj ?st = Some st2" "loop_ok adj G v old (insert w D \<union> set ws) st2"
      "extends ?st st2" "\<forall>x \<in> visited ?st. x \<noteq> v \<longrightarrow> ts_lowlink st2 ! x = ts_lowlink ?st ! x" by auto
    have "ts_lowlink st2 ! x = ts_lowlink st ! x" if "x \<in> visited st" "x \<noteq> v" for x
      using that st2(4) ex1 call_okD(6) [OF st1(2)] by (auto simp: extends_def lower_link_at)
    with st2 ni st1(1) extends_trans [OF ex1 st2(3)] show ?thesis by simp
  next
    case True
    then have ni: "ts_node_index st ! w = Some (num st w)" using node_index_visited [OF sh w] by simp
    show ?thesis
    proof (cases "ts_on_stack st ! w")
      case on: True
      then have ws: "w \<in> set (ts_stack st)" using shape_okD(4) [OF sh w] by simp
      let ?st = "lower_link v (num st w) st"
      have lo1: "loop_ok adj G v old (insert w D) ?st"
        by (rule loop_lower [OF lo]) (use True ws vw in auto)
      have "set ws \<subseteq> set (adj ! v)" using "4.prems"(3) by simp
      from "4.IH"(3) [OF ni on "4.prems"(1) lo1 this "4.prems"(4)] "4.prems"(5) obtain st2 where
        st2: "tarjan_callees fuel v ws adj ?st = Some st2" "loop_ok adj G v old (insert w D \<union> set ws) st2"
        "extends ?st st2" "\<forall>x \<in> visited ?st. x \<noteq> v \<longrightarrow> ts_lowlink st2 ! x = ts_lowlink ?st ! x" by auto
      then show ?thesis using ni on by (auto simp: extends_def lower_link_at)
    next
      case off: False
      then have ws: "w \<notin> set (ts_stack st)" using shape_okD(4) [OF sh w] by simp
      have lo1: "loop_ok adj G v old (insert w D) st" by (rule loop_skip [OF lo True ws])
      have "set ws \<subseteq> set (adj ! v)" using "4.prems"(3) by simp
      from "4.IH"(4) [OF ni off "4.prems"(1) lo1 this "4.prems"(4)] "4.prems"(5) show ?thesis using ni off by auto
    qed
  qed
qed

lemma tarjan_roots_correct:
  "wf_adj adj \<Longrightarrow> shape_ok adj st \<Longrightarrow> reach_ok adj {} st \<Longrightarrow> set is \<subseteq> {..<length adj} \<Longrightarrow>
     length adj \<le> fuel \<Longrightarrow> \<exists>st'. tarjan_roots fuel is adj st = Some st' \<and> shape_ok adj st' \<and> reach_ok adj {} st' \<and>
       visited st \<union> set is \<subseteq> visited st'"
proof (induction fuel "is" adj st rule: tarjan_roots.induct)
  case (2 fuel i "is" adj st)
  have i: "i < length adj" using "2.prems" by simp
  show ?case
  proof (cases "i \<in> visited st")
    case True
    then have "ts_node_index st ! i \<noteq> None" using node_index_visited [OF "2.prems"(2) i] by simp
    then show ?thesis using 2 True by auto
  next
    case False
    then have ni: "ts_node_index st ! i = None" using node_index_visited [OF "2.prems"(2) i] by simp
    have "card ({..<length adj} - visited st) \<le> length adj" by (metis card_Diff_subset_Int card_lessThan diff_le_self finite_Int finite_lessThan)
    then have "card ({..<length adj} - visited st) \<le> fuel" using "2.prems"(5) by simp
    then obtain st1 where st1: "tarjan_strongconnect fuel i adj st = Some st1" "call_ok adj {} i st st1"
      using tarjan_correct(1) [OF "2.prems"(1-3) i False] by blast
    from "2.IH"(1) [OF ni st1(1) "2.prems"(1) call_okD(1,2) [OF st1(2)]] "2.prems"(4,5)
    obtain st2 where "tarjan_roots fuel is adj st1 = Some st2" "shape_ok adj st2" "reach_ok adj {} st2"
      "visited st1 \<union> set is \<subseteq> visited st2" by auto
    then show ?thesis using ni st1(1) call_okD(3,5) [OF st1(2)] by auto
  qed
qed simp

lemma tarjan_init_ok: "shape_ok adj (tarjan_init (length adj))" "reach_ok adj {} (tarjan_init (length adj))"
  by (auto simp: tarjan_init_def shape_ok_def reach_ok_def visited_def finished_def)

lemma compute_sccs_correct:
  assumes "wf_adj adj"
  shows "\<exists>sccs. compute_sccs adj = Some sccs \<and> distinct (concat sccs) \<and> set (concat sccs) = {..<length adj} \<and>
    (\<forall>C \<in> set sccs. is_scc adj (set C))"
proof -
  obtain st where st: "tarjan_roots (length adj) [0..<length adj] adj (tarjan_init (length adj)) = Some st"
    "shape_ok adj st" "reach_ok adj {} st" "{..<length adj} \<subseteq> visited st"
    using tarjan_roots_correct [OF assms tarjan_init_ok, of "[0..<length adj]" "length adj"] by (auto simp: lessThan_atLeast0)
  have "ts_stack st = []" using reach_okD(3) [OF st(3)] by (cases "ts_stack st") auto
  then have "finished st = {..<length adj}"
    using shape_okD(9) [OF st(2)] st(4) visited_bound [OF st(2)] by auto
  then show ?thesis
    using st(1) shape_okD(7) [OF st(2)] reach_okD(5) [OF st(3)] by (auto simp: compute_sccs_def finished_def)
qed

end
