(* ===== verification/Call_Graph.thy ===== *)
theory Call_Graph
  imports Function_Registry Tarjan
begin

text \<open>
  The call graph of a project (\<open>shatter-core/src/call_graph.rs\<close>): its construction from the
  function registry, the queries on it, and the two bottom-up orders in which functions are
  explored. Indices are positions in the registry; the layering loop and Tarjan's algorithm
  are in their own theories.
\<close>

section \<open>The graph\<close>

record call_graph =
  cg_nodes :: "string list"
  cg_node_index :: "(string, usize) fmap"
  cg_adj :: "usize list list"
  cg_rev :: "usize list list"

record call_edge =
  edge_caller :: string
  edge_callee :: string

record exploration_batch =
  eb_layer :: usize
  eb_groups :: "string list list"

section \<open>Resolving a dependency\<close>

definition lookup_candidates :: "string \<Rightarrow> (string, usize list) fmap \<Rightarrow> usize list option" where
  "lookup_candidates symbol name_to_indices =
     (let bare_symbol = after_last (CHR ''.'') symbol in
      case fmlookup name_to_indices symbol of
        Some candidates \<Rightarrow> Some candidates
      | None \<Rightarrow> if bare_symbol = symbol then None else fmlookup name_to_indices bare_symbol)"

definition disambiguate :: "string \<Rightarrow> usize list \<Rightarrow> function_entry list \<Rightarrow> usize option" where
  "disambiguate source_module candidates entries =
     (if source_module = [] then None
      else case find (\<lambda>idx. str_contains (fe_file_path (entries ! idx)) source_module) candidates of
             Some idx \<Rightarrow> Some idx
           | None \<Rightarrow>
               (let pkg_dir = after_last (CHR ''/'') source_module in
                if pkg_dir = [] then None
                else find (\<lambda>idx. parent_dir_name (fe_file_path (entries ! idx)) = pkg_dir) candidates))"

definition resolve_dependency ::
  "string \<Rightarrow> string \<Rightarrow> (string, usize list) fmap \<Rightarrow> function_entry list \<Rightarrow> usize option" where
  "resolve_dependency symbol source_module name_to_indices entries =
     (case lookup_candidates symbol name_to_indices of
        None \<Rightarrow> None
      | Some candidates \<Rightarrow>
          if length candidates = 1 then Some (candidates ! 0)
          else case disambiguate source_module candidates entries of
                 Some idx \<Rightarrow> Some idx
               | None \<Rightarrow> Some (candidates ! 0))"

section \<open>Building the graph\<close>

definition index_nodes :: "string list \<Rightarrow> (string, usize) fmap" where
  "index_nodes nodes = fold (\<lambda>(idx, qn) m. fmupd qn idx m) (enumerate 0 nodes) fmempty"

definition index_names :: "function_entry list \<Rightarrow> (string, usize list) fmap" where
  "index_names entries =
     fold (\<lambda>(i, entry) m. fmupd (fe_name entry) (fm_get_or m (fe_name entry) [] @ [i]) m) (enumerate 0 entries) fmempty"

type_synonym adjacency = "usize list list \<times> usize list list"

definition add_edge :: "usize \<Rightarrow> usize \<Rightarrow> adjacency \<Rightarrow> adjacency" where
  "add_edge caller callee g =
     ((fst g)[caller := fst g ! caller @ [callee]], (snd g)[callee := snd g ! callee @ [caller]])"

definition add_dependency ::
  "(string, usize list) fmap \<Rightarrow> function_entry list \<Rightarrow> usize \<Rightarrow> external_dependency \<Rightarrow> adjacency \<Rightarrow> adjacency" where
  "add_dependency names entries caller_idx dep g =
     (case resolve_dependency (ed_symbol dep) (ed_source_module dep) names entries of
        Some ci \<Rightarrow> if ci \<noteq> caller_idx then add_edge caller_idx ci g else g
      | None \<Rightarrow> g)"

definition from_registry :: "'a function_registry \<Rightarrow> call_graph" where
  "from_registry registry =
     (let entries = fr_entries registry;
          nodes = map (\<lambda>e. qualified_name (fe_file_path e) (fe_name e)) entries;
          names = index_names entries;
          g = fold (\<lambda>(caller_idx, entry). fold (add_dependency names entries caller_idx) (fe_dependencies entry))
                (enumerate 0 entries) (replicate (length nodes) [], replicate (length nodes) [])
      in \<lparr> cg_nodes = nodes, cg_node_index = index_nodes nodes, cg_adj = fst g, cg_rev = snd g \<rparr>)"

section \<open>Queries\<close>

definition node_count :: "call_graph \<Rightarrow> usize" where
  "node_count g = length (cg_nodes g)"

definition edge_count :: "call_graph \<Rightarrow> usize" where
  "edge_count g = sum_list (map length (cg_adj g))"

definition edges :: "call_graph \<Rightarrow> call_edge list" where
  "edges g = concat (map (\<lambda>(caller_idx, callees).
     map (\<lambda>callee_idx. \<lparr> edge_caller = cg_nodes g ! caller_idx, edge_callee = cg_nodes g ! callee_idx \<rparr>) callees)
     (enumerate 0 (cg_adj g)))"

definition callees_of :: "call_graph \<Rightarrow> string \<Rightarrow> string list" where
  "callees_of g qn =
     (case fmlookup (cg_node_index g) qn of
        Some idx \<Rightarrow> map ((!) (cg_nodes g)) (cg_adj g ! idx)
      | None \<Rightarrow> [])"

definition callers_of :: "call_graph \<Rightarrow> string \<Rightarrow> string list" where
  "callers_of g qn =
     (case fmlookup (cg_node_index g) qn of
        Some idx \<Rightarrow> map ((!) (cg_nodes g)) (cg_rev g ! idx)
      | None \<Rightarrow> [])"

text \<open>The breadth-first search of \<open>transitive_callers_of\<close>: \<open>visit\<close> is \<open>visited.insert\<close> with the push.\<close>

fun visit_callers :: "usize list \<Rightarrow> usize set \<Rightarrow> usize list \<Rightarrow> usize set \<times> usize list" where
  "visit_callers [] visited_set queue = (visited_set, queue)"
| "visit_callers (i # is) visited_set queue =
     (if i \<in> visited_set then visit_callers is visited_set queue
      else visit_callers is (insert i visited_set) (queue @ [i]))"

text \<open>An index outside the reverse adjacency would panic; it has no callers here, and the
  graphs that are built never contain one.\<close>

definition rev_callers :: "usize list list \<Rightarrow> usize \<Rightarrow> usize list" where
  "rev_callers rev_adj idx = (if idx < length rev_adj then rev_adj ! idx else [])"

lemma visit_callers_spec:
  "visit_callers is V q = (V', q') \<Longrightarrow> V' = V \<union> set is \<and> (\<exists>new. q' = q @ new \<and> set new = set is - V)"
proof (induction "is" V q rule: visit_callers.induct)
  case (2 i "is" V q)
  show ?case
  proof (cases "i \<in> V")
    case True
    with 2 show ?thesis by auto
  next
    case False
    with 2 obtain new where "V' = insert i V \<union> set is" "q' = (q @ [i]) @ new" "set new = set is - insert i V" by auto
    then show ?thesis using False by (intro conjI exI [of _ "i # new"]) auto
  qed
qed simp

function bfs_callers :: "usize list list \<Rightarrow> usize set \<Rightarrow> usize list \<Rightarrow> usize set" where
  "bfs_callers rev_adj visited_set [] = visited_set"
| "bfs_callers rev_adj visited_set (idx # queue) =
     (case visit_callers (rev_callers rev_adj idx) visited_set queue of
        (visited', queue') \<Rightarrow> bfs_callers rev_adj visited' queue')"
  by pat_completeness auto
termination
proof (relation "measures [\<lambda>(rv, V, q). card (set (concat rv) - V), \<lambda>(rv, V, q). length q]")
  fix rv :: "usize list list" and V idx q V' q'
  assume "(V', q') = visit_callers (rev_callers rv idx) V q"
  from visit_callers_spec [OF this [symmetric]] obtain new where
    spec: "V' = V \<union> set (rev_callers rv idx)" "q' = q @ new" "set new = set (rev_callers rv idx) - V" by auto
  have sub: "set (rev_callers rv idx) \<subseteq> set (concat rv)" by (auto simp: rev_callers_def intro!: bexI [of _ "rv ! idx"])
  show "((rv, V', q'), (rv, V, idx # q)) \<in> measures [\<lambda>(rv, V, q). card (set (concat rv) - V), \<lambda>(rv, V, q). length q]"
  proof (cases "new = []")
    case True
    then have "set (concat rv) - V' = set (concat rv) - V" using spec by auto
    with True spec show ?thesis by simp
  next
    case False
    then have "set (concat rv) - V' \<subset> set (concat rv) - V" using spec sub by (auto simp: set_empty [symmetric] simp del: set_empty)
    then have "card (set (concat rv) - V') < card (set (concat rv) - V)" by (rule psubset_card_mono [rotated]) simp
    then show ?thesis by simp
  qed
qed simp

definition transitive_callers_of :: "call_graph \<Rightarrow> string list \<Rightarrow> string set" where
  "transitive_callers_of g seeds =
     (case visit_callers (List.map_filter (fmlookup (cg_node_index g)) seeds) {} [] of
        (visited_set, queue) \<Rightarrow> (!) (cg_nodes g) ` bfs_callers (cg_rev g) visited_set queue)"

section \<open>Orders of exploration\<close>

definition topological_layers :: "call_graph \<Rightarrow> panic + string list list" where
  "topological_layers g =
     (let n = length (cg_nodes g) in
      if n = 0 then Inr []
      else
        let out_degree = map length (cg_adj g) in
        case kahn (cg_rev g) out_degree (initial_queue out_degree) of
          Inl p \<Rightarrow> Inl p
        | Inr (layers, final_degree) \<Rightarrow>
            let names = map (map ((!) (cg_nodes g))) layers in
            if sum_list (map length layers) < n then
              Inr (names @ [map ((!) (cg_nodes g)) (filter (\<lambda>i. final_degree ! i > 0) [0..<n])])
            else Inr names)"

definition cycle_groups :: "call_graph \<Rightarrow> string list list option" where
  "cycle_groups g =
     map_option (\<lambda>sccs. map (map ((!) (cg_nodes g))) (filter (\<lambda>scc. length scc > 1) sccs)) (compute_sccs (cg_adj g))"

text \<open>Steps 2 to 4 of \<open>topological_batches\<close>: from the components to the condensation.\<close>

definition node_to_scc :: "nat \<Rightarrow> nat list list \<Rightarrow> nat list" where
  "node_to_scc n sccs =
     fold (\<lambda>(scc_idx, scc). fold (\<lambda>node m. m[node := scc_idx]) scc) (enumerate 0 sccs) (replicate n 0)"

definition condense :: "nat list list \<Rightarrow> nat list \<Rightarrow> nat \<Rightarrow> nat set list" where
  "condense adj scc_of num_sccs =
     fold (\<lambda>(caller, callees) cadj.
             fold (\<lambda>callee c. if scc_of ! caller \<noteq> scc_of ! callee
                             then c[scc_of ! caller := insert (scc_of ! callee) (c ! (scc_of ! caller))] else c)
               callees cadj)
       (enumerate 0 adj) (replicate num_sccs {})"

text \<open>
  The source iterates over each hash set in an unspecified order. Every element of one set goes
  to a different list, so the result does not depend on it; the model takes the sorted order.
\<close>

definition condense_rev :: "nat set list \<Rightarrow> nat list list" where
  "condense_rev cadj =
     fold (\<lambda>(from, tos). fold (\<lambda>to r. r[to := r ! to @ [from]]) (sorted_list_of_set tos))
       (enumerate 0 cadj) (replicate (length cadj) [])"

text \<open>The outer \<open>None\<close> would be lack of fuel for Tarjan's recursion.\<close>

definition topological_batches :: "call_graph \<Rightarrow> (panic + exploration_batch list) option" where
  "topological_batches g =
     (let n = length (cg_nodes g) in
      if n = 0 then Some (Inr [])
      else case compute_sccs (cg_adj g) of
             None \<Rightarrow> None
           | Some sccs \<Rightarrow>
               (let scc_of = node_to_scc n sccs;
                    cadj = condense (cg_adj g) scc_of (length sccs);
                    out_degree = map card cadj
                in case kahn (condense_rev cadj) out_degree (initial_queue out_degree) of
                     Inl p \<Rightarrow> Some (Inl p)
                   | Inr (layers, _) \<Rightarrow>
                       Some (Inr (map (\<lambda>(layer, queue). \<lparr> eb_layer = layer,
                         eb_groups = map (\<lambda>scc_idx. map ((!) (cg_nodes g)) (sccs ! scc_idx)) queue \<rparr>)
                         (enumerate 0 layers)))))"

section \<open>The graph is well formed\<close>

text \<open>Appending to buckets, as the loops that build adjacency lists do.\<close>

lemma length_fold_push: "length (fold (\<lambda>(k, x) r. r[k := r ! k @ [x]]) ps bs) = length bs"
  by (induction ps arbitrary: bs) auto

lemma fold_push:
  assumes "\<forall>(k, x) \<in> set ps. k < length bs" and "i < length bs"
  shows "fold (\<lambda>(k, x) r. r[k := r ! k @ [x]]) ps bs ! i = bs ! i @ map snd (filter (\<lambda>p. fst p = i) ps)"
  using assms by (induction ps arbitrary: bs) (auto simp: nth_list_update)

lemma count_list_map_snd: "count_list (map snd (filter (\<lambda>p. fst p = u) ps)) v = count_list ps (u, v)"
  by (induction ps) auto

lemma count_list_map_fst: "count_list (map fst (filter (\<lambda>p. snd p = v) ps)) u = count_list ps (u, v)"
  by (induction ps) auto

text \<open>The calls of an entry that end up as edges, and all of them in the order they are added.\<close>

definition resolved_calls :: "function_entry list \<Rightarrow> usize \<Rightarrow> function_entry \<Rightarrow> usize list" where
  "resolved_calls entries i e =
     filter (\<lambda>ci. ci \<noteq> i) (List.map_filter (\<lambda>dep. resolve_dependency (ed_symbol dep) (ed_source_module dep)
        (index_names entries) entries) (fe_dependencies e))"

definition registry_edges :: "function_entry list \<Rightarrow> (usize \<times> usize) list" where
  "registry_edges entries =
     concat (map (\<lambda>(i, e). map (Pair i) (resolved_calls entries i e)) (enumerate 0 entries))"

lemma fold_add_dependency:
  "fold (add_dependency (index_names entries) entries i) deps g =
   fold (\<lambda>(u, v). add_edge u v) (map (Pair i) (filter (\<lambda>ci. ci \<noteq> i) (List.map_filter (\<lambda>dep.
     resolve_dependency (ed_symbol dep) (ed_source_module dep) (index_names entries) entries) deps))) g"
  by (induction deps arbitrary: g) (auto simp: add_dependency_def List.map_filter_def split: option.splits)

lemma fold_concat_map: "fold (\<lambda>x. fold f (h x)) xs s = fold f (concat (map h xs)) s"
  by (induction xs arbitrary: s) simp_all

lemma fold_add_edge:
  "fold (\<lambda>(u, v). add_edge u v) ps (adj, rv) =
     (fold (\<lambda>(k, x) r. r[k := r ! k @ [x]]) ps adj, fold (\<lambda>(k, x) r. r[k := r ! k @ [x]]) (map prod.swap ps) rv)"
  by (induction ps arbitrary: adj rv) (auto simp: add_edge_def)

lemma from_registry_adjacency:
  fixes registry :: "'a function_registry"
  defines "es \<equiv> registry_edges (fr_entries registry)" and "n \<equiv> length (fr_entries registry)"
  shows "cg_adj (from_registry registry) = fold (\<lambda>(k, x) r. r[k := r ! k @ [x]]) es (replicate n [])"
    and "cg_rev (from_registry registry) = fold (\<lambda>(k, x) r. r[k := r ! k @ [x]]) (map prod.swap es) (replicate n [])"
proof -
  let ?E = "fr_entries registry"
  have "fold (\<lambda>(caller_idx, entry). fold (add_dependency (index_names ?E) ?E caller_idx) (fe_dependencies entry))
      (enumerate 0 ?E) g = fold (\<lambda>(u, v). add_edge u v) es g" for g
    unfolding es_def registry_edges_def resolved_calls_def fold_concat_map [symmetric]
    by (intro fold_cong refl) (auto simp: fold_add_dependency intro!: ext)
  then show "cg_adj (from_registry registry) = fold (\<lambda>(k, x) r. r[k := r ! k @ [x]]) es (replicate n [])"
    and "cg_rev (from_registry registry) = fold (\<lambda>(k, x) r. r[k := r ! k @ [x]]) (map prod.swap es) (replicate n [])"
    by (simp_all add: from_registry_def Let_def fold_add_edge n_def)
qed

lemma index_names_spec:
  "fmlookup (index_names entries) name =
     (let is = filter (\<lambda>i. fe_name (entries ! i) = name) [0..<length entries] in if is = [] then None else Some is)"
proof (induction entries rule: rev_induct)
  case Nil
  then show ?case by (simp add: index_names_def)
next
  case (snoc e es)
  have "index_names (es @ [e]) =
      fmupd (fe_name e) (fm_get_or (index_names es) (fe_name e) [] @ [length es]) (index_names es)"
    by (simp add: index_names_def enumerate_append_eq)
  moreover have "filter (\<lambda>i. fe_name ((es @ [e]) ! i) = name) [0..<length (es @ [e])] =
      filter (\<lambda>i. fe_name (es ! i) = name) [0..<length es] @ (if fe_name e = name then [length es] else [])"
    by (auto simp: nth_append intro!: filter_cong)
  ultimately show ?case using snoc.IH by (auto simp: fm_get_or_def Let_def split: option.splits)
qed

lemma lookup_candidates_spec:
  assumes "lookup_candidates symbol (index_names entries) = Some cs"
  shows "\<exists>name \<in> {symbol, after_last (CHR ''.'') symbol}.
    cs = filter (\<lambda>i. fe_name (entries ! i) = name) [0..<length entries] \<and> cs \<noteq> []"
  using assms
  by (auto simp: lookup_candidates_def index_names_spec Let_def split: option.splits if_splits)

lemma resolve_in_candidates:
  assumes "resolve_dependency symbol sm (index_names entries) entries = Some i"
  shows "\<exists>cs. lookup_candidates symbol (index_names entries) = Some cs \<and> i \<in> set cs"
proof -
  obtain cs where cs: "lookup_candidates symbol (index_names entries) = Some cs"
    using assms by (auto simp: resolve_dependency_def split: option.splits)
  then have ne: "cs ! 0 \<in> set cs" using lookup_candidates_spec [OF cs] by auto
  have "disambiguate sm cs entries = Some j \<Longrightarrow> j \<in> set cs" for j
    by (auto simp: disambiguate_def Let_def find_Some_iff split: option.splits if_splits)
  then have "i \<in> set cs" using assms cs ne by (auto simp: resolve_dependency_def split: option.splits if_splits)
  with cs show ?thesis by blast
qed

lemma resolve_sound:
  assumes "resolve_dependency symbol sm (index_names entries) entries = Some i"
  shows "i < length entries" and "fe_name (entries ! i) \<in> {symbol, after_last (CHR ''.'') symbol}"
  using resolve_in_candidates [OF assms] lookup_candidates_spec by fastforce+

lemma registry_edges_bound:
  assumes "(u, v) \<in> set (registry_edges entries)"
  shows "u < length entries" and "v < length entries" and "u \<noteq> v" and "v \<in> set (resolved_calls entries u (entries ! u))"
  using assms
  by (auto simp: registry_edges_def resolved_calls_def List.map_filter_def in_set_enumerate_eq dest: resolve_sound)

lemma from_registry_shape:
  "length (cg_nodes (from_registry registry)) = length (fr_entries registry)"
  "length (cg_adj (from_registry registry)) = length (fr_entries registry)"
  "length (cg_rev (from_registry registry)) = length (fr_entries registry)"
  by (simp add: from_registry_def Let_def) (simp_all add: from_registry_adjacency length_fold_push)

lemma from_registry_lists:
  assumes "u < length (fr_entries registry)"
  shows "cg_adj (from_registry registry) ! u = map snd (filter (\<lambda>p. fst p = u) (registry_edges (fr_entries registry)))"
    and "cg_rev (from_registry registry) ! u = map fst (filter (\<lambda>p. snd p = u) (registry_edges (fr_entries registry)))"
proof -
  let ?E = "registry_edges (fr_entries registry)"
  have b1: "\<forall>(k, x) \<in> set ?E. k < length (replicate (length (fr_entries registry)) [])"
    and b2: "\<forall>(k, x) \<in> set (map prod.swap ?E). k < length (replicate (length (fr_entries registry)) [])"
    using registry_edges_bound by auto
  show "cg_adj (from_registry registry) ! u = map snd (filter (\<lambda>p. fst p = u) ?E)"
    unfolding from_registry_adjacency using fold_push [OF b1] assms by simp
  have "map snd (filter (\<lambda>p. fst p = u) (map prod.swap ?E)) = map fst (filter (\<lambda>p. snd p = u) ?E)"
    by (simp add: filter_map comp_def)
  then show "cg_rev (from_registry registry) ! u = map fst (filter (\<lambda>p. snd p = u) ?E)"
    unfolding from_registry_adjacency using fold_push [OF b2] assms by simp
qed

interpretation cg: digraph "cg_adj (from_registry registry)" "cg_rev (from_registry registry)"
  for registry :: "'a function_registry"
proof unfold_locales
  fix u v
  show "length (cg_rev (from_registry registry)) = length (cg_adj (from_registry registry))"
    by (simp add: from_registry_shape)
  show "v < length (cg_adj (from_registry registry))"
    if "u < length (cg_adj (from_registry registry))" "v \<in> set (cg_adj (from_registry registry) ! u)"
    using that by (auto simp: from_registry_shape from_registry_lists dest: registry_edges_bound)
  show "u < length (cg_adj (from_registry registry))"
    if "v < length (cg_adj (from_registry registry))" "u \<in> set (cg_rev (from_registry registry) ! v)"
    using that by (auto simp: from_registry_shape from_registry_lists dest: registry_edges_bound)
  show "count_list (cg_adj (from_registry registry) ! u) v = count_list (cg_rev (from_registry registry) ! v) u"
    if "u < length (cg_adj (from_registry registry))" "v < length (cg_adj (from_registry registry))"
    using that by (simp add: from_registry_shape from_registry_lists count_list_map_fst count_list_map_snd)
qed

lemma row_edges:
  "map snd (filter (\<lambda>p. fst p = u) (concat (map (\<lambda>(i, e). map (Pair i) (f i e)) (enumerate k es)))) =
     (if k \<le> u \<and> u < k + length es then f u (es ! (u - k)) else [])"
proof (induction es arbitrary: k)
  case (Cons e es)
  have one: "map snd (filter (\<lambda>p. fst p = u) (map (Pair i) xs)) = (if i = u then xs else [])" for i xs
    by (auto simp: filter_map comp_def)
  show ?case
    unfolding enumerate_simps list.map concat.simps prod.case filter_append map_append one Cons.IH
    by (auto simp: nth_Cons' Suc_diff_le)
qed auto

lemma registry_edges_of:
  "u < length entries \<Longrightarrow> map snd (filter (\<lambda>p. fst p = u) (registry_edges entries)) = resolved_calls entries u (entries ! u)"
  by (simp add: registry_edges_def row_edges)

section \<open>Callers by breadth-first search\<close>

definition caller_arcs :: "usize list list \<Rightarrow> (usize \<times> usize) set" where
  "caller_arcs rev_adj = {(v, u). u \<in> set (rev_callers rev_adj v)}"

lemma bfs_callers_correct:
  assumes "set q \<subseteq> V" and "\<forall>v \<in> V - set q. set (rev_callers rv v) \<subseteq> V"
  shows "bfs_callers rv V q = (caller_arcs rv)\<^sup>* `` V"
  using assms
proof (induction rv V q rule: bfs_callers.induct)
  case (1 rv V)
  then have "(caller_arcs rv) `` V \<subseteq> V" by (auto simp: caller_arcs_def)
  then have "(caller_arcs rv)\<^sup>* `` V \<subseteq> V" by (auto simp: Image_closed_trancl)
  then show ?case by auto
next
  case (2 rv V idx q)
  obtain V' q' where vis: "visit_callers (rev_callers rv idx) V q = (V', q')" by fastforce
  from visit_callers_spec [OF this] obtain new where
    V': "V' = V \<union> set (rev_callers rv idx)" and q': "q' = q @ new" "set new = set (rev_callers rv idx) - V" by blast
  have pre: "set q' \<subseteq> V'" "\<forall>v \<in> V' - set q'. set (rev_callers rv v) \<subseteq> V'"
    using "2.prems" V' q' by auto
  have "bfs_callers rv V (idx # q) = (caller_arcs rv)\<^sup>* `` V'" using "2.IH" [OF vis [symmetric] pre] vis by simp
  also have "\<dots> = (caller_arcs rv)\<^sup>* `` V"
  proof -
    have "idx \<in> V" using "2.prems" by simp
    then have "set (rev_callers rv idx) \<subseteq> (caller_arcs rv)\<^sup>* `` V" by (auto simp: caller_arcs_def)
    then show ?thesis unfolding V' by (auto intro: rtrancl_trans)
  qed
  finally show ?case .
qed

lemma index_nodes_bound: "fmlookup (index_nodes nodes) qn = Some i \<Longrightarrow> i < length nodes \<and> nodes ! i = qn"
proof (induction nodes rule: rev_induct)
  case (snoc x xs)
  have "index_nodes (xs @ [x]) = fmupd x (length xs) (index_nodes xs)"
    by (simp add: index_nodes_def enumerate_append_eq)
  with snoc show ?case by (auto simp: nth_append split: if_splits)
qed (simp add: index_nodes_def)

lemma caller_arcs_converse:
  "caller_arcs (cg_rev (from_registry registry)) = (arcs (cg_adj (from_registry registry)))\<inverse>"
proof -
  let ?n = "length (fr_entries registry)" and ?E = "registry_edges (fr_entries registry)"
  have "(v, u) \<in> caller_arcs (cg_rev (from_registry registry)) \<longleftrightarrow> (u, v) \<in> set ?E" for u v
  proof (cases "v < ?n")
    case True
    then have "set (cg_rev (from_registry registry) ! v) = {u. (u, v) \<in> set ?E}"
      unfolding from_registry_lists(2) [OF True] by (auto intro: rev_image_eqI)
    then show ?thesis using True by (simp add: caller_arcs_def rev_callers_def from_registry_shape)
  next
    case False
    then show ?thesis using registry_edges_bound(2) by (auto simp: caller_arcs_def rev_callers_def from_registry_shape)
  qed
  moreover have "(u, v) \<in> arcs (cg_adj (from_registry registry)) \<longleftrightarrow> (u, v) \<in> set ?E" for u v
  proof (cases "u < ?n")
    case True
    then have "set (cg_adj (from_registry registry) ! u) = {v. (u, v) \<in> set ?E}"
      unfolding from_registry_lists(1) [OF True] by (auto intro: rev_image_eqI)
    then show ?thesis using True by (simp add: arcs_def from_registry_shape)
  next
    case False
    then show ?thesis using registry_edges_bound(1) by (auto simp: arcs_def from_registry_shape)
  qed
  ultimately show ?thesis by auto
qed

text \<open>The functions that reach one of the seeds, as a specification on names.\<close>

definition depends_on :: "call_graph \<Rightarrow> usize \<Rightarrow> string \<Rightarrow> bool" where
  "depends_on g v s \<longleftrightarrow> (\<exists>i. fmlookup (cg_node_index g) s = Some i \<and> (v, i) \<in> (arcs (cg_adj g))\<^sup>*)"

lemma transitive_callers_exact:
  fixes registry :: "'a function_registry"
  defines "g \<equiv> from_registry registry"
  shows "transitive_callers_of g seeds = {cg_nodes g ! v |v. \<exists>s \<in> set seeds. depends_on g v s}"
proof -
  let ?is = "List.map_filter (fmlookup (cg_node_index g)) seeds"
  obtain V q where vis: "visit_callers ?is {} [] = (V, q)" by fastforce
  from visit_callers_spec [OF this] have "V = set ?is" "set q = V" by auto
  then have "bfs_callers (cg_rev g) V q = (caller_arcs (cg_rev g))\<^sup>* `` set ?is"
    using bfs_callers_correct [of q V "cg_rev g"] by simp
  also have "\<dots> = {v. \<exists>s \<in> set seeds. depends_on g v s}"
    unfolding g_def caller_arcs_converse rtrancl_converse
    by (fastforce simp: depends_on_def set_map_filter)
  finally show ?thesis by (auto simp: transitive_callers_of_def vis)
qed

section \<open>Layers\<close>

lemma layered_closed:
  assumes "layered adj {} ls" "v \<in> set (concat ls)"
  shows "set (adj ! v) \<subseteq> set (concat ls)"
proof -
  obtain k where "k < length ls" "v \<in> set (ls ! k)" using assms(2) in_concat_take [of v "length ls" ls] by auto
  then have "set (adj ! v) \<subseteq> set (concat (take k ls))" using layered_callees [OF assms(1)] by simp
  also have "\<dots> \<subseteq> set (concat ls)" using set_take_subset [of k ls] by auto
  finally show ?thesis .
qed

lemma topological_layers_exact:
  fixes registry :: "'a function_registry"
  defines "g \<equiv> from_registry registry"
  shows "\<exists>ls. topological_layers g = Inr (map (map ((!) (cg_nodes g))) ls) \<and>
     distinct (concat ls) \<and> set (concat ls) = {..<node_count g} \<and>
     (\<forall>k < length ls. \<forall>v \<in> set (ls ! k).
        set (cg_adj g ! v) \<subseteq> set (concat (take k ls)) \<or>
        Suc k = length ls \<and> reaches_cycle (cg_adj g) v)"
proof (cases "length (cg_nodes g) = 0")
  case True
  then show ?thesis by (intro exI [of _ "[]"]) (simp add: topological_layers_def node_count_def)
next
  case False
  let ?adj = "cg_adj g" and ?n = "length (cg_nodes g)"
  have n: "length ?adj = ?n" by (simp add: g_def from_registry_shape)
  obtain ls deg where run: "kahn (cg_rev g) (map length ?adj) (initial_queue (map length ?adj)) = Inr (ls, deg)"
    and lay: "layered ?adj {} ls" and deg: "\<And>v. v < length ?adj \<Longrightarrow> 0 < deg ! v \<longleftrightarrow> \<not> set (?adj ! v) \<subseteq> set (concat ls)"
    using cg.kahn_layers [of registry] unfolding g_def by metis
  have dist: "distinct (concat ls)" and sub: "set (concat ls) \<subseteq> {..<?n}" using layered_placed [OF lay] n by auto
  have unpl: "reaches_cycle ?adj v" if "v < ?n" "v \<notin> set (concat ls)" for v
    using layered_unplaced [OF lay, of v] cg.adj_bound [of _ registry] that n unfolding g_def by auto
  have closed: "v \<in> set (concat ls) \<longleftrightarrow> set (?adj ! v) \<subseteq> set (concat ls)" if "v < ?n" for v
  proof
    assume "set (?adj ! v) \<subseteq> set (concat ls)"
    then show "v \<in> set (concat ls)" using layered_stuck [OF lay, of v] that n by (metis empty_iff subsetD)
  qed (rule layered_closed [OF lay])
  let ?rest = "filter (\<lambda>i. deg ! i > 0) [0..<?n]"
  have rest: "set ?rest = {..<?n} - set (concat ls)"
    by (rule set_eqI) (use deg closed n in \<open>auto simp del: set_concat\<close>)
  have split: "(length (concat ls) < ?n) \<longleftrightarrow> set (concat ls) \<noteq> {..<?n}"
    using sub dist by (metis card_lessThan card_mono card_subset_eq distinct_card finite_lessThan le_neq_implies_less less_irrefl)
  have res: "topological_layers g = Inr (map (map ((!) (cg_nodes g))) (if length (concat ls) < ?n then ls @ [?rest] else ls))"
    using False run by (simp add: topological_layers_def Let_def length_concat)
  show ?thesis
  proof (cases "length (concat ls) < ?n")
    case True
    have "set (concat (ls @ [?rest])) = {..<?n}" using rest sub by auto
    moreover have "distinct (concat (ls @ [?rest]))" using dist rest by auto
    moreover have "set (?adj ! v) \<subseteq> set (concat (take k (ls @ [?rest]))) \<or> Suc k = length (ls @ [?rest]) \<and> reaches_cycle ?adj v"
      if "k < length (ls @ [?rest])" "v \<in> set ((ls @ [?rest]) ! k)" for k v
    proof (cases "k < length ls")
      case True
      then show ?thesis using that layered_callees [OF lay True, of v] by (simp add: nth_append)
    next
      case False
      then have "k = length ls" "v \<in> set ?rest" using that by (auto simp: nth_append)
      then show ?thesis using unpl rest by auto
    qed
    ultimately show ?thesis
      unfolding res node_count_def using True by (intro exI [of _ "ls @ [?rest]"]) simp
  next
    case no: False
    then have "set (concat ls) = {..<?n}" using split by blast
    then show ?thesis
      unfolding res node_count_def using no dist layered_callees [OF lay] by (intro exI [of _ ls]) auto
  qed
qed

section \<open>Properties\<close>

text \<open>C29: the adjacency list of a function holds, in order and with repetitions, exactly the
  indices its dependencies resolve to, itself excepted; a resolved dependency is a function of the
  registry whose name is the symbol or the part after its last dot; and the reverse lists are the
  transpose, edges counted with multiplicity.\<close>

theorem from_registry_exact:
  fixes registry :: "'a function_registry"
  assumes "u < length (fr_entries registry)" and "v < length (fr_entries registry)"
  shows "cg_adj (from_registry registry) ! u =
      filter (\<lambda>ci. ci \<noteq> u) (List.map_filter (\<lambda>dep. resolve_dependency (ed_symbol dep) (ed_source_module dep)
        (index_names (fr_entries registry)) (fr_entries registry)) (fe_dependencies (fr_entries registry ! u))) \<and>
    (\<forall>symbol sm i. resolve_dependency symbol sm (index_names (fr_entries registry)) (fr_entries registry) = Some i \<longrightarrow>
      i < length (fr_entries registry) \<and> fe_name (fr_entries registry ! i) \<in> {symbol, after_last (CHR ''.'') symbol}) \<and>
    count_list (cg_rev (from_registry registry) ! v) u = count_list (cg_adj (from_registry registry) ! u) v"
proof (intro conjI allI impI)
  show "count_list (cg_rev (from_registry registry) ! v) u = count_list (cg_adj (from_registry registry) ! u) v"
    using assms by (simp add: cg.transpose from_registry_shape)
qed (use assms in \<open>auto simp: from_registry_lists registry_edges_of resolved_calls_def dest: resolve_sound\<close>)

definition sample_dep :: "string \<Rightarrow> string \<Rightarrow> external_dependency" where
  "sample_dep symbol sm = \<lparr> ed_kind = FunctionCall, ed_symbol = symbol, ed_source_module = sm,
     ed_return_type = TUnknown, ed_param_types = [], ed_call_sites = [] \<rparr>"

definition sample_entry :: "string \<Rightarrow> string \<Rightarrow> external_dependency list \<Rightarrow> function_entry" where
  "sample_entry path name deps = \<lparr> fe_file_path = path, fe_name = name, fe_exported = True, fe_params = [],
     fe_return_type = TUnknown, fe_dependencies = deps, fe_crypto_boundaries = [], fe_branch_count = 0,
     fe_start_line = 1, fe_end_line = 9 \<rparr>"

text \<open>A project with two packages that both define \<open>load\<close>, and a pair of mutually recursive functions.\<close>

definition sample_registry :: "unit function_registry" where
  "sample_registry = from_raw
     [sample_entry ''main.go'' ''main'' [sample_dep ''config.load'' ''example.com/app/config'', sample_dep ''even'' []],
      sample_entry ''db/load.go'' ''load'' [],
      sample_entry ''config/load.go'' ''load'' [],
      sample_entry ''num.go'' ''even'' [sample_dep ''odd'' []],
      sample_entry ''num.go'' ''odd'' [sample_dep ''even'' []]] fmempty"

theorem from_registry_exact_witness:
  "cg_adj (from_registry sample_registry) ! 0 = [2, 3] \<and>
   count_list (cg_rev (from_registry sample_registry) ! 2) 0 = count_list (cg_adj (from_registry sample_registry) ! 0) 2"
proof -
  have len: "0 < length (fr_entries sample_registry)" "2 < length (fr_entries sample_registry)" by code_simp+
  have calls: "filter (\<lambda>ci. ci \<noteq> 0) (List.map_filter (\<lambda>dep. resolve_dependency (ed_symbol dep) (ed_source_module dep)
        (index_names (fr_entries sample_registry)) (fr_entries sample_registry))
        (fe_dependencies (fr_entries sample_registry ! 0))) = [2, 3]" by code_simp
  from from_registry_exact [OF len] calls show ?thesis by simp
qed

text \<open>C30: \<open>transitive_callers_of\<close> terminates on every graph and returns exactly the names of the
  functions from which some call path leads to a seed, seeds included.\<close>

theorem transitive_callers_reachable:
  "transitive_callers_of (from_registry registry) seeds =
     {cg_nodes (from_registry registry) ! v |v. \<exists>s. s \<in> set seeds \<and> depends_on (from_registry registry) v s}"
  by (simp add: transitive_callers_exact Bex_def)

text \<open>C20: \<open>topological_layers\<close> never panics; its layers place every function exactly once; the
  callees of a function are all in earlier layers, except that the last layer may also hold the
  functions from which a call path leads into a cycle.\<close>

theorem topological_layers_sound:
  "\<exists>ls. topological_layers (from_registry registry) = Inr (map (map ((!) (cg_nodes (from_registry registry)))) ls) \<and>
     distinct (concat ls) \<and> set (concat ls) = {..<node_count (from_registry registry)} \<and>
     (\<forall>k < length ls. \<forall>v \<in> set (ls ! k).
        set (cg_adj (from_registry registry) ! v) \<subseteq> set (concat (take k ls)) \<or>
        Suc k = length ls \<and> reaches_cycle (cg_adj (from_registry registry)) v)"
  by (rule topological_layers_exact)

theorem topological_layers_sound_witness:
  "\<exists>ls. topological_layers (from_registry sample_registry) =
      Inr (map (map ((!) (cg_nodes (from_registry sample_registry)))) ls) \<and> distinct (concat ls) \<and>
      set (concat ls) = {..<5}"
proof -
  have "node_count (from_registry sample_registry) = 5" by code_simp
  then show ?thesis using topological_layers_sound [of sample_registry] by auto
qed

end
