(* ===== verification/Call_Graph_Batches.thy ===== *)
theory Call_Graph_Batches
  imports Call_Graph "HOL-Library.Multiset"
begin

text \<open>
  Correctness of \<open>topological_batches\<close>, \<open>cycle_groups\<close> and \<open>compute_sccs\<close> of
  \<open>shatter-core/src/call_graph.rs\<close>. What the batching relies on is stated once, as a partition
  of the nodes into classes of mutual reachability; Tarjan's algorithm provides it.
\<close>

section \<open>Writing into arrays\<close>

lemma fold_write_other: "k \<notin> fst ` set ps \<Longrightarrow> fold (\<lambda>(k, x) m. m[k := x]) ps m ! k = m ! k"
  by (induction ps arbitrary: m) auto

lemma length_fold_write [simp]: "length (fold (\<lambda>(k, x) m. m[k := x]) ps m) = length m"
  by (induction ps arbitrary: m) auto

lemma fold_write:
  "distinct (map fst ps) \<Longrightarrow> (k, x) \<in> set ps \<Longrightarrow> k < length m \<Longrightarrow> fold (\<lambda>(k, x) m. m[k := x]) ps m ! k = x"
proof (induction ps arbitrary: m)
  case (Cons p ps)
  show ?case
  proof (cases "p = (k, x)")
    case True
    then have "k \<notin> fst ` set ps" using Cons.prems by auto
    then show ?thesis using True Cons.prems by (simp add: fold_write_other)
  next
    case False
    then show ?thesis using Cons by (cases p) auto
  qed
qed simp

section \<open>Batches over a partition into components\<close>

locale scc_partition =
  fixes adj sccs :: "nat list list"
  assumes wf: "wf_adj adj"
    and once: "distinct (concat sccs)"
    and cover: "set (concat sccs) = {..<length adj}"
    and scc: "C \<in> set sccs \<Longrightarrow> is_scc adj (set C)"
begin

definition owner :: "nat list" where
  "owner = node_to_scc (length adj) sccs"

lemma owner_of:
  assumes "c < length sccs" "v \<in> set (sccs ! c)"
  shows "owner ! v = c"
proof -
  let ?ps = "concat (map (\<lambda>(i, C). map (\<lambda>v. (v, i)) C) (enumerate 0 sccs))"
  have "owner = fold (\<lambda>(k, x) m. m[k := x]) ?ps (replicate (length adj) 0)"
    unfolding owner_def node_to_scc_def fold_concat_map [symmetric]
    by (intro fold_cong refl) (auto simp: fold_map comp_def)
  moreover have "map fst ?ps = concat sccs"
    unfolding map_concat map_map by (rule arg_cong [of _ _ concat], rule nth_equalityI) (auto simp: comp_def nth_enumerate_eq)
  moreover have "(v, c) \<in> set ?ps" using assms by (auto simp: in_set_enumerate_eq intro!: bexI [of _ "(c, sccs ! c)"])
  moreover have "v < length adj" using assms cover by (metis in_concat_take lessThan_iff order.refl take_all_iff)
  ultimately show ?thesis using once fold_write [of ?ps v c] by simp
qed

lemma component_disjoint: "c < length sccs \<Longrightarrow> d < length sccs \<Longrightarrow> v \<in> set (sccs ! c) \<Longrightarrow> v \<in> set (sccs ! d) \<Longrightarrow> c = d"
  using owner_of by metis

lemma component_of: "v < length adj \<Longrightarrow> owner ! v < length sccs \<and> v \<in> set (sccs ! (owner ! v))"
  using cover in_concat_take [of v "length sccs" sccs] owner_of by fastforce

definition cadj :: "nat set list" where
  "cadj = condense adj owner (length sccs)"

definition arc_list :: "(nat \<times> nat) list" where
  "arc_list = concat (map (\<lambda>(u, vs). map (Pair u) vs) (enumerate 0 adj))"

lemma set_arc_list: "set arc_list = arcs adj"
proof -
  have "(u, v) \<in> set arc_list \<longleftrightarrow> (\<exists>vs. (u, vs) \<in> set (enumerate 0 adj) \<and> v \<in> set vs)" for u v
    by (auto simp: arc_list_def)
  then show ?thesis by (auto simp: arcs_def in_set_enumerate_eq)
qed

lemma condense_fold:
  "\<forall>(u, v) \<in> set ps. owner ! u < length bs \<Longrightarrow>
   length (fold (\<lambda>(u, v) c. if owner ! u \<noteq> owner ! v then c[owner ! u := insert (owner ! v) (c ! (owner ! u))] else c) ps bs) = length bs \<and>
   (\<forall>i < length bs. fold (\<lambda>(u, v) c. if owner ! u \<noteq> owner ! v then c[owner ! u := insert (owner ! v) (c ! (owner ! u))] else c) ps bs ! i =
     bs ! i \<union> {owner ! v |u v. (u, v) \<in> set ps \<and> owner ! u = i \<and> owner ! u \<noteq> owner ! v})"
proof (induction ps arbitrary: bs)
  case (Cons p ps)
  obtain u v where p: "p = (u, v)" by fastforce
  let ?bs = "if owner ! u \<noteq> owner ! v then bs[owner ! u := insert (owner ! v) (bs ! (owner ! u))] else bs"
  have len: "length ?bs = length bs" by simp
  have "\<forall>(u, v) \<in> set ps. owner ! u < length ?bs" using Cons.prems by auto
  note IH = Cons.IH [OF this]
  have "owner ! u < length bs" using Cons.prems p by simp
  then have at: "?bs ! i = bs ! i \<union> {owner ! v |_::unit. owner ! u = i \<and> owner ! u \<noteq> owner ! v}" if "i < length bs" for i
    using that by (auto simp: nth_list_update)
  show ?case using IH by (auto simp: p at)
qed simp

lemma cadj_spec:
  "length cadj = length sccs"
  "c < length sccs \<Longrightarrow> cadj ! c = {owner ! v |u v. (u, v) \<in> arcs adj \<and> owner ! u = c \<and> owner ! u \<noteq> owner ! v}"
proof -
  have "cadj = fold (\<lambda>(u, v) c. if owner ! u \<noteq> owner ! v then c[owner ! u := insert (owner ! v) (c ! (owner ! u))] else c)
      arc_list (replicate (length sccs) {})"
    unfolding cadj_def condense_def arc_list_def fold_concat_map [symmetric]
    by (intro fold_cong refl) (auto simp: fold_map comp_def)
  moreover have "\<forall>(u, v) \<in> set arc_list. owner ! u < length (replicate (length sccs) {})"
    using component_of by (auto simp: set_arc_list arcs_def)
  ultimately show "length cadj = length sccs"
    and "c < length sccs \<Longrightarrow> cadj ! c = {owner ! v |u v. (u, v) \<in> arcs adj \<and> owner ! u = c \<and> owner ! u \<noteq> owner ! v}"
    using condense_fold [of arc_list "replicate (length sccs) {}"] by (simp_all add: set_arc_list)
qed

lemma cadj_bound: "c < length sccs \<Longrightarrow> cadj ! c \<subseteq> {..<length sccs} - {c}"
  using component_of wf by (auto simp: cadj_spec arcs_def wf_adj_def)

lemma finite_cadj [simp]: "c < length sccs \<Longrightarrow> finite (cadj ! c)"
  using cadj_bound finite_subset by blast

text \<open>The condensation as adjacency lists.\<close>

definition clists :: "nat list list" where
  "clists = map sorted_list_of_set cadj"

lemma clists_nth: "c < length sccs \<Longrightarrow> set (clists ! c) = cadj ! c \<and> distinct (clists ! c)"
  by (simp add: clists_def cadj_spec(1))

lemma condense_rev_lists:
  "condense_rev cadj = fold (\<lambda>(k, x) r. r[k := r ! k @ [x]])
     (map prod.swap (concat (map (\<lambda>(i, tos). map (Pair i) tos) (enumerate 0 clists)))) (replicate (length clists) [])"
proof -
  have en: "enumerate 0 clists = map (\<lambda>(i, s). (i, sorted_list_of_set s)) (enumerate 0 cadj)"
    by (rule nth_equalityI) (auto simp: clists_def nth_enumerate_eq)
  show ?thesis
    unfolding condense_rev_def en map_concat map_map fold_concat_map [symmetric]
    by (intro fold_cong) (auto simp: fold_map comp_def clists_def)
qed

end

sublocale scc_partition \<subseteq> condensation: digraph clists "condense_rev cadj"
proof
  let ?n = "length sccs"
  define es where "es = concat (map (\<lambda>(i, tos). map (Pair i) tos) (enumerate 0 clists))"
  have len: "length clists = ?n" by (simp add: clists_def cadj_spec)
  have row: "clists ! u = map snd (filter (\<lambda>p. fst p = u) es)" if "u < ?n" for u
    using that len row_edges [of u "\<lambda>_ tos. tos" 0 clists] by (simp add: es_def)
  have mem: "u < ?n \<and> v \<in> set (clists ! u)" if "(u, v) \<in> set es" for u v
  proof -
    from that obtain tos where "(u, tos) \<in> set (enumerate 0 clists)" "v \<in> set tos" by (auto simp: es_def)
    then show ?thesis using len by (auto simp: in_set_enumerate_eq)
  qed
  have bound: "v < ?n" if "u < ?n" "v \<in> set (clists ! u)" for u v
    using that clists_nth cadj_bound by blast
  have b: "\<forall>(k, x) \<in> set (map prod.swap es). k < length (replicate (length clists) [])"
    using mem bound len by auto
  have rrow: "condense_rev cadj ! v = map fst (filter (\<lambda>p. snd p = v) es)" if "v < ?n" for v
  proof -
    have "map snd (filter (\<lambda>p. fst p = v) (map prod.swap es)) = map fst (filter (\<lambda>p. snd p = v) es)"
      by (simp add: filter_map comp_def)
    then show ?thesis unfolding condense_rev_lists es_def [symmetric] using fold_push [OF b] that len by simp
  qed
  show "length (condense_rev cadj) = length clists" by (simp add: condense_rev_lists length_fold_push)
  show "\<And>u v. u < length clists \<Longrightarrow> v \<in> set (clists ! u) \<Longrightarrow> v < length clists" using bound len by simp
  show "\<And>v u. v < length clists \<Longrightarrow> u \<in> set (condense_rev cadj ! v) \<Longrightarrow> u < length clists"
    using mem len by (auto simp: rrow)
  show "\<And>u v. u < length clists \<Longrightarrow> v < length clists \<Longrightarrow> count_list (clists ! u) v = count_list (condense_rev cadj ! v) u"
    using len by (simp add: row rrow count_list_map_fst count_list_map_snd)
qed

context scc_partition
begin

lemma length_clists: "length clists = length sccs"
  by (simp add: clists_def cadj_spec)

lemma clists_arc:
  "(c, d) \<in> arcs clists \<longleftrightarrow> c < length sccs \<and> d < length sccs \<and> c \<noteq> d \<and>
     (\<exists>u \<in> set (sccs ! c). \<exists>v \<in> set (sccs ! d). (u, v) \<in> arcs adj)"
proof
  assume "(c, d) \<in> arcs clists"
  then have c: "c < length sccs" "d \<in> cadj ! c" using clists_nth by (auto simp: arcs_def length_clists)
  then obtain u v where "d = owner ! v" "(u, v) \<in> arcs adj" "owner ! u = c" "owner ! u \<noteq> owner ! v"
    by (auto simp: cadj_spec)
  moreover from this have "u < length adj" "v < length adj" using wf by (auto simp: arcs_def wf_adj_def)
  ultimately show "c < length sccs \<and> d < length sccs \<and> c \<noteq> d \<and>
     (\<exists>u \<in> set (sccs ! c). \<exists>v \<in> set (sccs ! d). (u, v) \<in> arcs adj)" using component_of by blast
next
  assume R: "c < length sccs \<and> d < length sccs \<and> c \<noteq> d \<and>
     (\<exists>u \<in> set (sccs ! c). \<exists>v \<in> set (sccs ! d). (u, v) \<in> arcs adj)"
  then obtain u v where "u \<in> set (sccs ! c)" "v \<in> set (sccs ! d)" "(u, v) \<in> arcs adj" by blast
  moreover from this R have "owner ! u = c" "owner ! v = d" using owner_of by blast+
  ultimately have "d \<in> cadj ! c" using R by (auto simp: cadj_spec)
  then show "(c, d) \<in> arcs clists" using R clists_nth by (auto simp: arcs_def length_clists)
qed

lemma within: "c < length sccs \<Longrightarrow> x \<in> set (sccs ! c) \<Longrightarrow> y \<in> set (sccs ! c) \<Longrightarrow> (x, y) \<in> (arcs adj)\<^sup>*"
  using scc [of "sccs ! c"] by (auto simp: is_scc_def)

lemma condensed_path:
  assumes "(c, d) \<in> (arcs clists)\<^sup>*" "c < length sccs" "x \<in> set (sccs ! c)" "y \<in> set (sccs ! d)"
  shows "(x, y) \<in> (arcs adj)\<^sup>*"
  using assms(1,4)
proof (induction arbitrary: y rule: rtrancl_induct)
  case base
  then show ?case using within assms(2,3) by blast
next
  case (step d e)
  then obtain u v where uv: "e < length sccs" "u \<in> set (sccs ! d)" "v \<in> set (sccs ! e)" "(u, v) \<in> arcs adj"
    by (auto simp: clists_arc)
  have "(x, u) \<in> (arcs adj)\<^sup>*" using step.IH uv(2) by blast
  moreover have "(v, y) \<in> (arcs adj)\<^sup>*" using within uv(1,3) step.prems by blast
  ultimately show ?case using uv(4) by (meson rtrancl.rtrancl_into_rtrancl rtrancl_trans)
qed

lemma condensation_acyclic: "(c, c) \<notin> (arcs clists)\<^sup>+"
proof
  assume "(c, c) \<in> (arcs clists)\<^sup>+"
  then obtain d where d: "(c, d) \<in> arcs clists" "(d, c) \<in> (arcs clists)\<^sup>*" by (metis tranclD)
  then have cd: "c < length sccs" "d < length sccs" "c \<noteq> d" by (auto simp: clists_arc)
  have ne: "sccs ! c \<noteq> []" "sccs ! d \<noteq> []" using scc cd nth_mem by (fastforce simp: is_scc_def)+
  then obtain x y where xy: "x \<in> set (sccs ! c)" "y \<in> set (sccs ! d)" by (meson hd_in_set)
  have "(x, y) \<in> (arcs adj)\<^sup>*" using condensed_path d(1) cd xy by blast
  moreover have "(y, x) \<in> (arcs adj)\<^sup>*" using condensed_path [OF d(2)] cd xy by blast
  ultimately have "y \<in> set (sccs ! c)" using scc [of "sccs ! c"] cd xy by (auto simp: is_scc_def)
  then show False using component_disjoint cd xy by blast
qed

end

context scc_partition
begin

lemma card_cadj: "map card cadj = map length clists"
  by (simp add: clists_def)

lemma condensation_layers:
  obtains layers deg where
    "kahn (condense_rev cadj) (map card cadj) (initial_queue (map card cadj)) = Inr (layers, deg)"
    "layered clists {} layers" "mset (concat layers) = mset [0..<length sccs]"
proof -
  obtain layers deg where run: "kahn (condense_rev cadj) (map length clists) (initial_queue (map length clists)) = Inr (layers, deg)"
    and lay: "layered clists {} layers"
    by (rule condensation.kahn_layers)
  have "set (concat layers) = set [0..<length sccs]"
  proof
    show "set (concat layers) \<subseteq> set [0..<length sccs]"
      using layered_placed [OF lay] by (auto simp: length_clists)
    show "set [0..<length sccs] \<subseteq> set (concat layers)"
    proof
      fix c assume "c \<in> set [0..<length sccs]"
      then have c: "c < length clists" by (simp add: length_clists)
      have "c \<notin> set (concat layers) \<longleftrightarrow> reaches_cycle clists c"
        by (rule layered_unplaced [OF lay _ c]) (rule condensation.adj_bound)
      then show "c \<in> set (concat layers)" using condensation_acyclic by (auto simp: reaches_cycle_def)
    qed
  qed
  moreover have "distinct (concat layers)" using layered_placed [OF lay] by blast
  ultimately have "mset (concat layers) = mset [0..<length sccs]" by (metis distinct_upt set_eq_iff_mset_eq_distinct)
  with run lay that show thesis by (simp add: card_cadj)
qed

text \<open>Groups of a layer depend only on themselves and on groups of earlier layers.\<close>

lemma layer_dependencies:
  assumes "layered clists {} layers" "k < length layers" "c \<in> set (layers ! k)" "c < length sccs"
    and "u \<in> set (sccs ! c)" "v \<in> set (adj ! u)"
  shows "v \<in> set (sccs ! c) \<or> (\<exists>j < k. \<exists>d \<in> set (layers ! j). v \<in> set (sccs ! d))"
proof (cases "owner ! v = c")
  have u: "u < length adj" using assms(4,5) cover in_concat_take [of u "length sccs" sccs] by fastforce
  then have v: "v < length adj" using wf assms(6) by (auto simp: wf_adj_def)
  {
    case True
    then show ?thesis using component_of [OF v] by auto
  next
    case False
    have "(c, owner ! v) \<in> arcs clists"
      using False component_of [OF v] assms(4-6) u by (auto simp: clists_arc) (auto simp: arcs_def)
    then have "owner ! v \<in> set (concat (take k layers))"
      using layered_callees [OF assms(1,2,3)] by (auto simp: arcs_def)
    then show ?thesis using component_of [OF v] unfolding in_concat_take by blast
  }
qed

end

lemma wf_adj_from_registry: "wf_adj (cg_adj (from_registry registry))"
  using cg.adj_bound [of _ registry] by (auto simp: wf_adj_def)

interpretation tarjan: scc_partition "cg_adj (from_registry registry)" "the (compute_sccs (cg_adj (from_registry registry)))"
  for registry :: "'a function_registry"
  using wf_adj_from_registry [of registry] compute_sccs_correct [OF wf_adj_from_registry, of registry]
  by unfold_locales auto

lemma mset_concat_cong: "mset xs = mset ys \<Longrightarrow> mset (concat xs) = mset (concat ys)"
  by (metis mset_concat mset_map sum_mset_sum_list)

lemma topological_batches_run:
  fixes registry :: "'a function_registry"
  defines "g \<equiv> from_registry registry" and "sccs \<equiv> the (compute_sccs (cg_adj (from_registry registry)))"
  obtains layers where
    "topological_batches g = Some (Inr (map (\<lambda>(k, queue). \<lparr> eb_layer = k,
       eb_groups = map (\<lambda>c. map ((!) (cg_nodes g)) (sccs ! c)) queue \<rparr>) (enumerate 0 layers)))"
    "layered (scc_partition.clists (cg_adj g) sccs) {} layers" "mset (concat layers) = mset [0..<length sccs]"
proof (cases "length (cg_nodes g) = 0")
  case True
  then have adj: "cg_adj g = []" using from_registry_shape [of registry] by (simp add: g_def)
  have "sccs = []"
    using tarjan.cover [of registry, folded sccs_def, folded g_def] tarjan.scc [of _ registry, folded sccs_def, folded g_def] adj
    by (cases sccs) (auto simp: is_scc_def)
  moreover have "scc_partition.clists (cg_adj g) sccs = []"
    using tarjan.length_clists [of registry, folded sccs_def, folded g_def] \<open>sccs = []\<close> by simp
  ultimately show thesis using True that [of "[]"] by (simp add: topological_batches_def ready_def)
next
  case False
  have some: "compute_sccs (cg_adj g) = Some sccs"
    using compute_sccs_correct [OF wf_adj_from_registry, of registry] by (auto simp: g_def sccs_def)
  have n: "length (cg_nodes g) = length (cg_adj g)" by (simp add: g_def from_registry_shape)
  obtain layers deg where run:
    "kahn (condense_rev (condense (cg_adj g) (node_to_scc (length (cg_adj g)) sccs) (length sccs)))
       (map card (condense (cg_adj g) (node_to_scc (length (cg_adj g)) sccs) (length sccs)))
       (initial_queue (map card (condense (cg_adj g) (node_to_scc (length (cg_adj g)) sccs) (length sccs)))) = Inr (layers, deg)"
    "layered (scc_partition.clists (cg_adj g) sccs) {} layers" "mset (concat layers) = mset [0..<length sccs]"
    using tarjan.condensation_layers [of registry, unfolded tarjan.cadj_def tarjan.owner_def, folded sccs_def, folded g_def]
    by blast
  then show thesis using False some n that [of layers] by (simp add: topological_batches_def Let_def)
qed

section \<open>Properties\<close>

lemma batches_over_groups:
  "map (\<lambda>(k, queue). \<lparr> eb_layer = k, eb_groups = map (\<lambda>c. map f (sccs ! c)) queue \<rparr>) (enumerate i layers) =
   map (\<lambda>(k, gs). \<lparr> eb_layer = k, eb_groups = map (map f) gs \<rparr>) (enumerate i (map (map ((!) sccs)) layers))"
  by (induction layers arbitrary: i) auto

text \<open>C1: Tarjan's recursion never exceeds the depth it is given; the components it returns are
  the classes of mutual reachability of the call graph, every function is in exactly one of them,
  and \<open>cycle_groups\<close> names those with more than one member.\<close>

theorem sccs_are_components:
  "\<exists>sccs. compute_sccs (cg_adj (from_registry registry)) = Some sccs \<and> distinct (concat sccs) \<and>
     set (concat sccs) = {..<node_count (from_registry registry)} \<and>
     (\<forall>C \<in> set sccs. is_scc (cg_adj (from_registry registry)) (set C)) \<and>
     cycle_groups (from_registry registry) =
       Some (map (map ((!) (cg_nodes (from_registry registry)))) (filter (\<lambda>C. 1 < length C) sccs))"
  using compute_sccs_correct [OF wf_adj_from_registry, of registry]
  by (auto simp: cycle_groups_def node_count_def from_registry_shape)

theorem sccs_are_components_witness:
  "cycle_groups (from_registry sample_registry) = Some [[''num.go::odd'', ''num.go::even'']] \<and>
   is_scc (cg_adj (from_registry sample_registry)) {3, 4}"
proof -
  have "compute_sccs (cg_adj (from_registry sample_registry)) = Some [[2], [4, 3], [0], [1]]" by code_simp
  then have "is_scc (cg_adj (from_registry sample_registry)) (set [4, 3])"
    using sccs_are_components [of sample_registry] by auto
  moreover have "cycle_groups (from_registry sample_registry) = Some [[''num.go::odd'', ''num.go::even'']]" by code_simp
  ultimately show ?thesis by (simp add: insert_commute)
qed

text \<open>C5: \<open>topological_batches\<close> returns for every project; each group is a class of mutually
  recursive functions, every function is in exactly one group of one batch, batches are numbered
  in order, and a callee of a function is in its own group or in a group of an earlier batch.\<close>

theorem batches_respect_calls:
  "\<exists>lss. topological_batches (from_registry registry) =
       Some (Inr (map (\<lambda>(k, gs). \<lparr> eb_layer = k, eb_groups = map (map ((!) (cg_nodes (from_registry registry)))) gs \<rparr>)
         (enumerate 0 lss))) \<and>
     distinct (concat (concat lss)) \<and> set (concat (concat lss)) = {..<node_count (from_registry registry)} \<and>
     (\<forall>k < length lss. \<forall>C \<in> set (lss ! k). is_scc (cg_adj (from_registry registry)) (set C) \<and>
        (\<forall>u \<in> set C. \<forall>v \<in> set (cg_adj (from_registry registry) ! u).
           v \<in> set C \<or> (\<exists>j < k. v \<in> set (concat (lss ! j)))))"
proof -
  define g where "g = from_registry registry"
  define sccs where "sccs = the (compute_sccs (cg_adj g))"
  obtain layers where run: "topological_batches g = Some (Inr (map (\<lambda>(k, queue). \<lparr> eb_layer = k,
       eb_groups = map (\<lambda>c. map ((!) (cg_nodes g)) (sccs ! c)) queue \<rparr>) (enumerate 0 layers)))"
    and lay: "layered (scc_partition.clists (cg_adj g) sccs) {} layers" and perm: "mset (concat layers) = mset [0..<length sccs]"
    unfolding sccs_def g_def by (rule topological_batches_run)
  define lss where "lss = map (map ((!) sccs)) layers"
  have "mset (map ((!) sccs) (concat layers)) = mset (map ((!) sccs) [0..<length sccs])" using perm by (metis mset_map)
  then have "mset (concat lss) = mset sccs" by (simp add: lss_def map_concat map_nth)
  then have all: "mset (concat (concat lss)) = mset (concat sccs)" by (rule mset_concat_cong)
  have sub: "c < length sccs" if "k < length layers" "c \<in> set (layers ! k)" for k c
  proof -
    have "c \<in> set (concat layers)" using that by (metis in_concat_take order.refl take_all_iff)
    then have "c \<in> set [0..<length sccs]" using mset_eq_setD [OF perm] by blast
    then show ?thesis by simp
  qed
  have deps: "is_scc (cg_adj g) (set C) \<and> (\<forall>u \<in> set C. \<forall>v \<in> set (cg_adj g ! u). v \<in> set C \<or> (\<exists>j < k. v \<in> set (concat (lss ! j))))"
    if k: "k < length lss" and C: "C \<in> set (lss ! k)" for k C
  proof -
    obtain c where c: "C = sccs ! c" "c \<in> set (layers ! k)" "c < length sccs" "k < length layers"
      using k C sub by (auto simp: lss_def)
    have "v \<in> set C \<or> (\<exists>j < k. v \<in> set (concat (lss ! j)))" if "u \<in> set C" "v \<in> set (cg_adj g ! u)" for u v
      using tarjan.layer_dependencies [of registry layers k c u v, folded g_def, folded sccs_def] lay c that
      by (fastforce simp: lss_def)
    then show ?thesis using tarjan.scc [of C registry, folded g_def, folded sccs_def] c by simp
  qed
  have "node_count g = length (cg_adj g)" by (simp add: node_count_def g_def from_registry_shape)
  then show ?thesis
    unfolding g_def [symmetric]
    using run all deps tarjan.once [of registry, folded g_def, folded sccs_def] tarjan.cover [of registry, folded g_def, folded sccs_def]
    by (intro exI [of _ lss]) (auto simp: batches_over_groups lss_def [symmetric] mset_eq_imp_distinct_iff [OF all]
        mset_eq_setD [OF all] simp del: set_concat)
qed

theorem batches_respect_calls_witness:
  "\<exists>bs. topological_batches (from_registry sample_registry) = Some (Inr bs) \<and> map eb_layer bs = [0..<length bs]"
proof -
  have "map eb_layer (map (\<lambda>(k, gs). \<lparr> eb_layer = k, eb_groups = f gs \<rparr>) (enumerate 0 lss)) = [0..<length lss]"
    for f and lss :: "nat list list list" by (rule nth_equalityI) (auto simp: nth_enumerate_eq)
  then show ?thesis using batches_respect_calls [of sample_registry] by fastforce
qed

end
