(* ===== verification/Stratum.thy ===== *)
theory Stratum
  imports Rust_Strings
begin

text \<open>
  Selection of call-graph layers (\<open>shatter-core/src/stratum.rs\<close>): the syntax of a stratum
  specification, its resolution to an inclusive range of layers, and the filter. A
  \<open>RangeInclusive\<close> is the pair of its bounds; the payload of \<open>ScanError::Stratum\<close> is its message.
\<close>

section \<open>Specifications\<close>

record layer_index =
  li_value :: usize
  li_negative :: bool

datatype spec_kind =
    SpecSingle layer_index
  | SpecRange "layer_index option" "layer_index option"

record stratum_spec =
  ss_kind :: spec_kind

definition layer_resolve :: "layer_index \<Rightarrow> usize \<Rightarrow> usize" where
  "layer_resolve idx max_layer = (if li_negative idx then max_layer - li_value idx else li_value idx)"

definition parse_layer_index :: "string \<Rightarrow> string + layer_index" where
  "parse_layer_index s0 =
     (let s = str_trim s0 in
      case strip_prefix s ''-'' of
        Some rest \<Rightarrow>
          (case parse_unsigned 64 rest of
             Some value \<Rightarrow> Inr \<lparr> li_value = value, li_negative = True \<rparr>
           | None \<Rightarrow> Inl (''invalid layer index: '' @ s))
      | None \<Rightarrow>
          (case parse_unsigned 64 s of
             Some value \<Rightarrow> Inr \<lparr> li_value = value, li_negative = False \<rparr>
           | None \<Rightarrow> Inl (''invalid layer index: '' @ s)))"

text \<open>A bound of a range: absent when its text is empty.\<close>

definition parse_bound :: "string \<Rightarrow> string + layer_index option" where
  "parse_bound t =
     (if t = [] then Inr None
      else case parse_layer_index t of Inl e \<Rightarrow> Inl e | Inr idx \<Rightarrow> Inr (Some idx))"

definition parse_stratum_spec :: "string \<Rightarrow> string + stratum_spec" where
  "parse_stratum_spec s0 =
     (let s = str_trim s0 in
      case split_once s ''..'' of
        Some (left, right) \<Rightarrow>
          (case parse_bound left of
             Inl e \<Rightarrow> Inl e
           | Inr start \<Rightarrow>
               (case parse_bound right of
                  Inl e \<Rightarrow> Inl e
                | Inr stop \<Rightarrow>
                    if start = None \<and> stop = None
                    then Inl (''stratum range must have at least one bound: '' @ dquote @ ''..'' @ dquote @ '' is not valid'')
                    else Inr \<lparr> ss_kind = SpecRange start stop \<rparr>))
      | None \<Rightarrow>
          (case parse_layer_index s of
             Inl e \<Rightarrow> Inl e
           | Inr idx \<Rightarrow> Inr \<lparr> ss_kind = SpecSingle idx \<rparr>))"

section \<open>Resolution and filter\<close>

definition resolve_bounds :: "spec_kind \<Rightarrow> usize \<Rightarrow> usize \<times> usize" where
  "resolve_bounds kind max_layer =
     (case kind of
        SpecSingle idx \<Rightarrow> (layer_resolve idx max_layer, layer_resolve idx max_layer)
      | SpecRange start stop \<Rightarrow>
          (case start of None \<Rightarrow> 0 | Some i \<Rightarrow> layer_resolve i max_layer,
           case stop of None \<Rightarrow> max_layer | Some i \<Rightarrow> layer_resolve i max_layer))"

definition resolve_range :: "stratum_spec \<Rightarrow> usize \<Rightarrow> string + usize \<times> usize" where
  "resolve_range spec max_layer =
     (let (s, e) = resolve_bounds (ss_kind spec) max_layer;
          start = min s max_layer;
          stop = min e max_layer
      in if stop < start
         then Inl (''resolved range '' @ show_nat start @ ''..='' @ show_nat stop
                   @ '' is empty (start > end after resolving negative indices)'')
         else Inr (start, stop))"

definition filter_layers :: "string list list \<Rightarrow> usize \<times> usize \<Rightarrow> (usize \<times> string list) list" where
  "filter_layers layers rg = filter (\<lambda>(idx, _). fst rg \<le> idx \<and> idx \<le> snd rg) (enumerate 0 layers)"

section \<open>Printing and parsing\<close>

text \<open>How a user writes a specification.\<close>

definition write_layer_index :: "layer_index \<Rightarrow> string" where
  "write_layer_index idx = (if li_negative idx then ''-'' else []) @ show_nat (li_value idx)"

definition write_bound :: "layer_index option \<Rightarrow> string" where
  "write_bound b = (case b of None \<Rightarrow> [] | Some idx \<Rightarrow> write_layer_index idx)"

fun write_spec :: "spec_kind \<Rightarrow> string" where
  "write_spec (SpecSingle idx) = write_layer_index idx"
| "write_spec (SpecRange start stop) = write_bound start @ ''..'' @ write_bound stop"

lemma spec_char_not_space: "is_ascii_digit c \<or> c \<in> set ''-.'' \<Longrightarrow> c \<notin> ws_first_bytes \<and> c \<notin> ws_last_bytes"
  using ws_byte_range [of c] by (auto simp: is_ascii_digit_def)

text \<open>Text over digits, minus and dot survives trimming.\<close>

definition spec_text :: "string \<Rightarrow> bool" where
  "spec_text s \<longleftrightarrow> (\<forall>c \<in> set s. is_ascii_digit c \<or> c \<in> set ''-.'')"

lemma trim_spec_text: "spec_text s \<Longrightarrow> str_trim s = s"
  unfolding spec_text_def by (rule str_trim_id) (metis spec_char_not_space hd_in_set last_in_set)

lemma write_layer_index_text: "spec_text (write_layer_index idx)" "CHR ''.'' \<notin> set (write_layer_index idx)"
  using show_nat_digits [of "li_value idx"] not_digit(3)
  by (auto simp: write_layer_index_def spec_text_def list_all_iff)

lemma parse_write_layer_index:
  assumes "li_value idx < 2 ^ 64"
  shows "parse_layer_index (write_layer_index idx) = Inr idx"
proof -
  have trim: "str_trim (write_layer_index idx) = write_layer_index idx"
    by (rule trim_spec_text) (rule write_layer_index_text)
  have minus: "strip_prefix (show_nat (li_value idx)) ''-'' = None"
    using show_nat_digits [of "li_value idx"] not_digit(2)
    by (cases "show_nat (li_value idx)") (auto simp: strip_prefix_def starts_with_def)
  show ?thesis
  proof (cases "li_negative idx")
    case True
    then have "strip_prefix (write_layer_index idx) ''-'' = Some (show_nat (li_value idx))"
      by (simp add: write_layer_index_def strip_prefix_def starts_with_def)
    with True show ?thesis by (simp add: parse_layer_index_def Let_def trim parse_show [OF assms])
  next
    case False
    then show ?thesis using minus trim
      by (simp add: parse_layer_index_def Let_def write_layer_index_def parse_show [OF assms])
  qed
qed

lemma write_layer_index_nonempty: "write_layer_index idx \<noteq> []"
  by (simp add: write_layer_index_def show_nat_nonempty)

lemma parse_write_bound:
  "(case b of None \<Rightarrow> True | Some idx \<Rightarrow> li_value idx < 2 ^ 64) \<Longrightarrow> parse_bound (write_bound b) = Inr b"
  by (auto simp: parse_bound_def write_bound_def parse_write_layer_index write_layer_index_nonempty split: option.splits)

lemma split_once_at: "c \<notin> set a \<Longrightarrow> split_once (a @ c # sep @ b) (c # sep) = Some (a, b)"
  by (induction a) (auto simp: starts_with_def)

lemma write_bound_text: "spec_text (write_bound b)" "CHR ''.'' \<notin> set (write_bound b)"
  using write_layer_index_text by (auto simp: write_bound_def spec_text_def split: option.splits)

fun writable :: "spec_kind \<Rightarrow> bool" where
  "writable (SpecSingle idx) \<longleftrightarrow> li_value idx < 2 ^ 64"
| "writable (SpecRange start stop) \<longleftrightarrow> (start \<noteq> None \<or> stop \<noteq> None) \<and>
     (\<forall>idx. start = Some idx \<or> stop = Some idx \<longrightarrow> li_value idx < 2 ^ 64)"

section \<open>Properties\<close>

text \<open>C31: every specification with at least one bound and 64-bit indices, written with or without
  a minus sign and with its bounds around two dots, is parsed back to itself.\<close>

theorem parse_write_spec:
  assumes "writable kind"
  shows "parse_stratum_spec (write_spec kind) = Inr \<lparr> ss_kind = kind \<rparr>"
proof (cases kind)
  case (SpecSingle idx)
  have "split_once (write_layer_index idx) ''..'' = None"
    unfolding split_once_None str_contains_sublist
    using write_layer_index_text(2) [of idx] set_mono_sublist [of "''..''" "write_layer_index idx"] by auto
  then show ?thesis
    using SpecSingle assms trim_spec_text [OF write_layer_index_text(1)]
    by (simp add: parse_stratum_spec_def Let_def parse_write_layer_index)
next
  case (SpecRange start stop)
  have "spec_text (write_spec kind)"
    using SpecRange write_bound_text(1) [of start] write_bound_text(1) [of stop] by (auto simp: spec_text_def)
  then have trim: "str_trim (write_spec kind) = write_spec kind" by (rule trim_spec_text)
  have "split_once (write_spec kind) ''..'' = Some (write_bound start, write_bound stop)"
    using SpecRange split_once_at [OF write_bound_text(2), of start "''.''" "write_bound stop"] by simp
  moreover have "parse_bound (write_bound start) = Inr start" "parse_bound (write_bound stop) = Inr stop"
    using assms SpecRange by (auto intro!: parse_write_bound split: option.splits)
  ultimately show ?thesis
    using SpecRange assms trim by (auto simp: parse_stratum_spec_def Let_def simp del: write_spec.simps)
qed

theorem parse_write_spec_witness:
  "parse_stratum_spec ''-2..-0'' = Inr \<lparr> ss_kind = SpecRange (Some \<lparr> li_value = 2, li_negative = True \<rparr>)
     (Some \<lparr> li_value = 0, li_negative = True \<rparr>) \<rparr>"
proof -
  let ?k = "SpecRange (Some \<lparr> li_value = 2, li_negative = True \<rparr>) (Some \<lparr> li_value = 0, li_negative = True \<rparr>)"
  have "writable ?k" by auto
  moreover have "write_spec ?k = ''-2..-0''" by code_simp
  ultimately show ?thesis using parse_write_spec [of ?k] by metis
qed

text \<open>C32: a resolved range is never empty and never exceeds the top layer, and the filter then
  returns exactly the layers of the range, in order and with their original numbers; an index
  above the top layer is not an error but selects the top layer.\<close>

theorem resolved_range_bounds:
  "(case resolve_range spec max_layer of
      Inl _ \<Rightarrow> (case resolve_bounds (ss_kind spec) max_layer of (s, e) \<Rightarrow> e < s)
    | Inr (s, e) \<Rightarrow> s \<le> e \<and> e \<le> max_layer \<and>
        (length layers = Suc max_layer \<longrightarrow>
           filter_layers layers (s, e) = map (\<lambda>i. (i, layers ! i)) [s..<Suc e])) \<and>
   (max_layer < n \<longrightarrow>
      resolve_range \<lparr> ss_kind = SpecSingle \<lparr> li_value = n, li_negative = False \<rparr> \<rparr> max_layer = Inr (max_layer, max_layer))"
proof -
  have range: "filter_layers layers (s, e) = map (\<lambda>i. (i, layers ! i)) [s..<Suc e]"
    if "s \<le> e" "e \<le> max_layer" "length layers = Suc max_layer" for s e
  proof -
    have "enumerate 0 layers = map (\<lambda>i. (i, layers ! i)) [0..<Suc max_layer]"
      using that(3) by (intro nth_equalityI) (auto simp: nth_enumerate_eq simp del: upt_Suc)
    then have "filter_layers layers (s, e) = map (\<lambda>i. (i, layers ! i)) (filter (\<lambda>i. s \<le> i \<and> i \<le> e) [0..<Suc max_layer])"
      by (simp add: filter_layers_def filter_map comp_def del: upt_Suc)
    also have "filter (\<lambda>i. s \<le> i \<and> i \<le> e) [0..<Suc max_layer] = [s..<Suc e]"
      using that by (intro sorted_distinct_set_unique) (auto simp: sorted_wrt_filter simp del: upt_Suc)
    finally show ?thesis .
  qed
  obtain s e where se: "resolve_bounds (ss_kind spec) max_layer = (s, e)" by fastforce
  let ?s = "min s max_layer" and ?e = "min e max_layer"
  have res: "(\<exists>msg. resolve_range spec max_layer = Inl msg) \<and> e < s \<or> resolve_range spec max_layer = Inr (?s, ?e) \<and> ?s \<le> ?e"
  proof (cases "?e < ?s")
    case True
    then have "e < s" by linarith
    with True show ?thesis by (simp add: resolve_range_def Let_def se)
  next
    case False
    then have "resolve_range spec max_layer = Inr (?s, ?e)" by (simp only: resolve_range_def se Let_def prod.case if_False)
    with False show ?thesis by linarith
  qed
  have "resolve_range \<lparr> ss_kind = SpecSingle \<lparr> li_value = n, li_negative = False \<rparr> \<rparr> max_layer = Inr (max_layer, max_layer)"
    if "max_layer < n"
    using that by (simp add: resolve_range_def layer_resolve_def resolve_bounds_def)
  moreover have "?e \<le> max_layer" by simp
  ultimately show ?thesis using res range [of ?s ?e] se by (elim disjE conjE exE) (simp_all del: upt_Suc)
qed

theorem resolved_range_bounds_witness:
  "filter_layers [[''a''], [''b''], [''c'']] (1, 2) = [(1, [''b'']), (2, [''c''])]"
proof -
  let ?spec = "\<lparr> ss_kind = SpecRange (Some \<lparr> li_value = 1, li_negative = True \<rparr>) None \<rparr>"
  have "resolve_range ?spec 2 = Inr (1, 2)" by code_simp
  then have "filter_layers [[''a''], [''b''], [''c'']] (1, 2) = map (\<lambda>i. (i, [[''a''], [''b''], [''c'']] ! i)) [1..<Suc 2]"
    using resolved_range_bounds [of ?spec 2 "[[''a''], [''b''], [''c'']]" 0] by (simp del: upt_Suc)
  also have "\<dots> = [(1, [''b'']), (2, [''c''])]" by code_simp
  finally show ?thesis .
qed

end
