(* ===== verification/Sym_Expr.thy ===== *)
theory Sym_Expr
  imports Type_Info "HOL-Library.Signed_Division"
begin

text \<open>
  Symbolic expressions (\<open>shatter-core/src/sym_expr.rs\<close>): the expression tree and the collection of
  parameter names. The evaluator below is not part of the program; it gives the expressions the
  usual meaning on integers and booleans, so that rewriting can be shown to keep it. Integers are
  unbounded and division rounds towards zero.
\<close>

section \<open>Expressions\<close>

datatype const_value =
    CInt i64
  | CFloat f64
  | CStr string
  | CBool bool
  | CNull
  | CUndefined
  | CComplex complex_kind const_value

datatype bin_op_kind =
    OpEq | OpNe | OpLt | OpLe | OpGt | OpGe
  | OpAdd | OpSub | OpMul | OpDiv | OpMod
  | OpAnd | OpOr
  | OpBitwiseAnd | OpBitwiseOr | OpBitwiseXor
  | OpShl | OpShr | OpBitClear
  | OpIn | OpInstanceOf

datatype un_op_kind = OpNot | OpNeg | OpBitwiseNot | OpTypeOf

datatype sym_expr =
    SeParam string "string list"
  | SeConst const_value
  | SeBinOp bin_op_kind sym_expr sym_expr
  | SeUnOp un_op_kind sym_expr
  | SeCall string "sym_expr option" "sym_expr list"
  | SeIte sym_expr sym_expr sym_expr
  | SeUnknown

section \<open>Equality\<close>

text \<open>The derived \<open>PartialEq\<close>: structural, with Rust's \<open>==\<close> on the floats.\<close>

fun const_eq :: "const_value \<Rightarrow> const_value \<Rightarrow> bool" where
  "const_eq (CFloat x) (CFloat y) = f64_eq x y"
| "const_eq (CComplex k c) (CComplex k' c') = (k = k' \<and> const_eq c c')"
| "const_eq c c' = (c = c')"

fun sym_eq :: "sym_expr \<Rightarrow> sym_expr \<Rightarrow> bool"
  and sym_eqs :: "sym_expr list \<Rightarrow> sym_expr list \<Rightarrow> bool"
where
  "sym_eq (SeParam name path) e = (e = SeParam name path)"
| "sym_eq (SeConst c) e = (case e of SeConst c' \<Rightarrow> const_eq c c' | _ \<Rightarrow> False)"
| "sym_eq (SeBinOp op l r) e =
     (case e of SeBinOp op' l' r' \<Rightarrow> op = op' \<and> sym_eq l l' \<and> sym_eq r r' | _ \<Rightarrow> False)"
| "sym_eq (SeUnOp op x) e = (case e of SeUnOp op' x' \<Rightarrow> op = op' \<and> sym_eq x x' | _ \<Rightarrow> False)"
| "sym_eq (SeCall f rcv args) e =
     (case e of
        SeCall f' rcv' args' \<Rightarrow>
          f = f' \<and>
          (case rcv of
             None \<Rightarrow> rcv' = None
           | Some r \<Rightarrow> (case rcv' of None \<Rightarrow> False | Some r' \<Rightarrow> sym_eq r r')) \<and>
          sym_eqs args args'
      | _ \<Rightarrow> False)"
| "sym_eq (SeIte c t x) e =
     (case e of SeIte c' t' x' \<Rightarrow> sym_eq c c' \<and> sym_eq t t' \<and> sym_eq x x' | _ \<Rightarrow> False)"
| "sym_eq SeUnknown e = (e = SeUnknown)"
| "sym_eqs [] es = (es = [])"
| "sym_eqs (x # xs) es = (case es of [] \<Rightarrow> False | y # ys \<Rightarrow> sym_eq x y \<and> sym_eqs xs ys)"

section \<open>Parameter names\<close>

fun collect_param_names :: "sym_expr \<Rightarrow> string set \<Rightarrow> string set"
  and collect_args :: "sym_expr list \<Rightarrow> string set \<Rightarrow> string set"
where
  "collect_param_names (SeParam name _) names = insert name names"
| "collect_param_names (SeConst _) names = names"
| "collect_param_names SeUnknown names = names"
| "collect_param_names (SeBinOp _ left right) names = collect_param_names right (collect_param_names left names)"
| "collect_param_names (SeUnOp _ operand) names = collect_param_names operand names"
| "collect_param_names (SeCall _ receiver args) names =
     collect_args args (case receiver of Some r \<Rightarrow> collect_param_names r names | None \<Rightarrow> names)"
| "collect_param_names (SeIte condition then_expr else_expr) names =
     collect_param_names else_expr (collect_param_names then_expr (collect_param_names condition names))"
| "collect_args [] names = names"
| "collect_args (arg # args) names = collect_args args (collect_param_names arg names)"

definition extract_param_names :: "sym_expr \<Rightarrow> string set" where
  "extract_param_names expr = collect_param_names expr {}"

section \<open>Meaning\<close>

datatype sval = VInt int | VBool bool | VOther const_value

type_synonym senv = "string \<Rightarrow> string list \<Rightarrow> sval option"
type_synonym scalls = "string \<Rightarrow> sval option option \<Rightarrow> sval option list \<Rightarrow> sval option"

text \<open>The two float zeros are one value, as they are for \<open>==\<close>.\<close>

fun norm_const :: "const_value \<Rightarrow> const_value" where
  "norm_const (CFloat w) = CFloat (if f64_is_zero w then 0 else w)"
| "norm_const (CComplex kind repr) = CComplex kind (norm_const repr)"
| "norm_const c = c"

fun const_val :: "const_value \<Rightarrow> sval" where
  "const_val (CInt i) = VInt (sint i)"
| "const_val (CBool b) = VBool b"
| "const_val c = VOther (norm_const c)"

fun int_op :: "bin_op_kind \<Rightarrow> int \<Rightarrow> int \<Rightarrow> sval option" where
  "int_op OpEq a b = Some (VBool (a = b))"
| "int_op OpNe a b = Some (VBool (a \<noteq> b))"
| "int_op OpLt a b = Some (VBool (a < b))"
| "int_op OpLe a b = Some (VBool (a \<le> b))"
| "int_op OpGt a b = Some (VBool (b < a))"
| "int_op OpGe a b = Some (VBool (b \<le> a))"
| "int_op OpAdd a b = Some (VInt (a + b))"
| "int_op OpSub a b = Some (VInt (a - b))"
| "int_op OpMul a b = Some (VInt (a * b))"
| "int_op OpDiv a b = (if b = 0 then None else Some (VInt (a sdiv b)))"
| "int_op _ _ _ = None"

fun bool_op :: "bin_op_kind \<Rightarrow> bool \<Rightarrow> bool \<Rightarrow> sval option" where
  "bool_op OpAnd a b = Some (VBool (a \<and> b))"
| "bool_op OpOr a b = Some (VBool (a \<or> b))"
| "bool_op OpEq a b = Some (VBool (a = b))"
| "bool_op OpNe a b = Some (VBool (a \<noteq> b))"
| "bool_op _ _ _ = None"

fun bin_val :: "bin_op_kind \<Rightarrow> sval option \<Rightarrow> sval option \<Rightarrow> sval option" where
  "bin_val op (Some (VInt a)) (Some (VInt b)) = int_op op a b"
| "bin_val op (Some (VBool a)) (Some (VBool b)) = bool_op op a b"
| "bin_val _ _ _ = None"

fun un_val :: "un_op_kind \<Rightarrow> sval option \<Rightarrow> sval option" where
  "un_val OpNot (Some (VBool a)) = Some (VBool (\<not> a))"
| "un_val OpNeg (Some (VInt a)) = Some (VInt (- a))"
| "un_val _ _ = None"

text \<open>Calls are uninterpreted: their meaning is the parameter \<open>\<phi>\<close>.\<close>

fun seval :: "scalls \<Rightarrow> senv \<Rightarrow> sym_expr \<Rightarrow> sval option"
  and seval_args :: "scalls \<Rightarrow> senv \<Rightarrow> sym_expr list \<Rightarrow> sval option list"
where
  "seval \<phi> \<rho> (SeParam name path) = \<rho> name path"
| "seval \<phi> \<rho> (SeConst c) = Some (const_val c)"
| "seval \<phi> \<rho> (SeBinOp op l r) = bin_val op (seval \<phi> \<rho> l) (seval \<phi> \<rho> r)"
| "seval \<phi> \<rho> (SeUnOp op e) = un_val op (seval \<phi> \<rho> e)"
| "seval \<phi> \<rho> (SeCall f receiver args) =
     \<phi> f (case receiver of None \<Rightarrow> None | Some r \<Rightarrow> Some (seval \<phi> \<rho> r)) (seval_args \<phi> \<rho> args)"
| "seval \<phi> \<rho> (SeIte c t e) =
     (case seval \<phi> \<rho> c of Some (VBool b) \<Rightarrow> if b then seval \<phi> \<rho> t else seval \<phi> \<rho> e | _ \<Rightarrow> None)"
| "seval \<phi> \<rho> SeUnknown = None"
| "seval_args \<phi> \<rho> [] = []"
| "seval_args \<phi> \<rho> (e # es) = seval \<phi> \<rho> e # seval_args \<phi> \<rho> es"

section \<open>The collected names are the parameters that occur\<close>

fun param_set :: "sym_expr \<Rightarrow> string set"
  and param_sets :: "sym_expr list \<Rightarrow> string set"
where
  "param_set (SeParam name _) = {name}"
| "param_set (SeConst _) = {}"
| "param_set SeUnknown = {}"
| "param_set (SeBinOp _ l r) = param_set l \<union> param_set r"
| "param_set (SeUnOp _ e) = param_set e"
| "param_set (SeCall _ receiver args) =
     (case receiver of Some r \<Rightarrow> param_set r | None \<Rightarrow> {}) \<union> param_sets args"
| "param_set (SeIte c t e) = param_set c \<union> param_set t \<union> param_set e"
| "param_sets [] = {}"
| "param_sets (e # es) = param_set e \<union> param_sets es"

lemma collect_param_names_Un:
  "collect_param_names e N = N \<union> param_set e"
  "collect_args es N = N \<union> param_sets es"
  by (induction e N and es N rule: collect_param_names_collect_args.induct)
    (auto split: option.splits)

lemma extract_param_names_set: "extract_param_names e = param_set e"
  by (simp add: extract_param_names_def collect_param_names_Un)

lemma seval_cong:
  "(\<And>name. name \<in> param_set e \<Longrightarrow> \<rho> name = \<rho>' name) \<Longrightarrow> seval \<phi> \<rho> e = seval \<phi> \<rho>' e"
  "(\<And>name. name \<in> param_sets es \<Longrightarrow> \<rho> name = \<rho>' name) \<Longrightarrow> seval_args \<phi> \<rho> es = seval_args \<phi> \<rho>' es"
proof (induction e and es rule: param_set_param_sets.induct)
  case (7 c t e)
  then show ?case by (simp split: option.split sval.split)
qed (auto split: option.splits)

lemma const_eq_val: "const_eq c c' \<Longrightarrow> const_val c = const_val c'"
proof -
  have norm: "const_eq c c' \<Longrightarrow> norm_const c = norm_const c'" for c c'
    by (induction c c' rule: const_eq.induct) (auto simp: f64_eq_def)
  assume "const_eq c c'"
  with norm [OF this] show ?thesis by (cases c; cases c'; simp)
qed

lemma sym_eq_val:
  "sym_eq e e' \<Longrightarrow> seval \<phi> \<rho> e = seval \<phi> \<rho> e'"
  "sym_eqs es es' \<Longrightarrow> seval_args \<phi> \<rho> es = seval_args \<phi> \<rho> es'"
proof (induction e e' and es es' rule: sym_eq_sym_eqs.induct)
  case (5 f rcv args e)
  then show ?case by (fastforce split: sym_expr.splits option.splits)
next
  case (6 c t x e)
  then show ?case by (auto split: sym_expr.splits option.split sval.split)
qed (auto split: sym_expr.splits list.splits simp: const_eq_val)

text \<open>The environment with one variable set to an integer.\<close>

definition bind_int :: "senv \<Rightarrow> string \<Rightarrow> int \<Rightarrow> senv" where
  "bind_int \<rho> v k = \<rho>(v := (\<lambda>_. Some (VInt k)))"

lemma bind_int_same [simp]: "bind_int \<rho> v k v path = Some (VInt k)"
  by (simp add: bind_int_def)

lemma seval_bind_fresh [simp]: "v \<notin> param_set e \<Longrightarrow> seval \<phi> (bind_int \<rho> v k) e = seval \<phi> \<rho> e"
  by (rule seval_cong) (auto simp: bind_int_def)

text \<open>C33: The collected names are exactly the ones an expression depends on syntactically: two
  assignments that agree on \<open>extract_param_names\<close> give the expression the same value, whatever the
  meaning of calls, so a branch whose attributed parameters do not change cannot flip.
\<close>

theorem branch_attribution_sound:
  assumes "\<forall>name\<in>extract_param_names e. \<rho> name = \<rho>' name"
  shows "seval \<phi> \<rho> e = seval \<phi> \<rho>' e"
  using assms by (intro seval_cong) (simp add: extract_param_names_set)

theorem branch_attribution_sound_witness:
  "seval (\<lambda>_ _ _. None) (\<lambda>v _. if v = ''x'' then Some (VInt 3) else None)
       (SeBinOp OpLt (SeParam ''x'' []) (SeConst (CInt 10)))
     = seval (\<lambda>_ _ _. None) (\<lambda>_ _. Some (VInt 3)) (SeBinOp OpLt (SeParam ''x'' []) (SeConst (CInt 10)))"
  by (rule branch_attribution_sound) (simp add: extract_param_names_def)

end
