(* ===== verification/Execution_Record.thy ===== *)
theory Execution_Record
  imports Sym_Expr
begin

text \<open>
  The data one execution produces (\<open>shatter-core/src/execution_record.rs\<close> and the execute response
  of \<open>protocol.rs\<close>): branch decisions with their constraints, scope events, side effects, the loop
  metadata of the static analysis and the result record the analyses of the core consume.
\<close>

section \<open>Traces\<close>

datatype sym_constraint =
    ScExpr sym_expr
  | ScUnknown string

definition default_constraint :: sym_constraint where
  "default_constraint = ScUnknown []"

record condition_outcome =
  co_condition_index :: u32
  co_value :: "bool option"
  co_masked :: bool
  co_constraint :: sym_constraint

record branch_decision =
  bd_branch_id :: u32
  bd_line :: u32
  bd_taken :: bool
  bd_constraint :: sym_constraint
  bd_conditions :: "condition_outcome list option"

datatype scope_event =
    LoopEnter u32
  | LoopExit u32
  | CallEnter u32
  | CallExit u32

datatype trace_event =
    TeBranch branch_decision
  | TeScope scope_event

section \<open>Effects and errors\<close>

record error_info =
  ei_error_type :: string
  ei_message :: string
  ei_stack :: "string option"
  ei_error_category :: "string option"

datatype side_effect =
    ConsoleOutput string string
  | FileWrite string "string option"
  | NetworkRequest string string "json option"
  | EnvironmentRead string "string option"
  | GlobalMutation string
  | ThrownError string string "string option"
  | GlobalStateChange string json json

record truncation_info =
  ti_was_truncated :: bool
  ti_original_lines :: u32
  ti_original_bytes :: u64

record external_call =
  ec_symbol :: string
  ec_args :: "json list"
  ec_return_value :: json

record execution_record =
  er_function_id :: string
  er_input_hash :: u64
  er_parameters :: "json list"
  er_branch_path :: "branch_decision list"
  er_scope_events :: "trace_event list"
  er_lines_executed :: "u32 list"
  er_calls_to_external :: "external_call list"
  er_path_constraints :: "sym_constraint list"
  er_return_value :: "json option"
  er_thrown_error :: "error_info option"
  er_side_effects :: "side_effect list"
  er_wall_time_ms :: f64
  er_cpu_time_us :: i64
  er_heap_used_bytes :: i64
  er_heap_allocated_bytes :: i64
  er_timestamp :: string
  er_engine_version :: string

section \<open>Loops\<close>

datatype bound_op = BoundLt | BoundLe | BoundGt | BoundGe

record induction_var =
  iv_name :: string
  iv_init_expr :: sym_expr
  iv_step_expr :: sym_expr
  iv_bound_expr :: sym_expr
  iv_bound_op :: bound_op

record loop_info =
  lp_loop_id :: u32
  lp_line :: u32
  lp_induction_var :: induction_var

text \<open>The \<open>locals\<close> are a \<open>BTreeMap\<close>: a finite map that is iterated in the order of its keys.\<close>

record loop_body_state =
  ls_loop_id :: u32
  ls_iteration :: u32
  ls_locals :: "(string, sym_expr) fmap"

section \<open>The execute response\<close>

datatype dep_detection_kind = UnmockedImport | SubprocessSpawn | StubbedImport

record discovered_dependency =
  dd_symbol :: string
  dd_source_module :: string
  dd_kind :: dep_detection_kind
  dd_is_subprocess_spawn :: bool

record connection_failure =
  cf_symbol :: string
  cf_error_kind :: string
  cf_message :: string

datatype runtime_crypto_boundary_kind = CryptoEncrypt | CryptoDecrypt

record runtime_crypto_boundary =
  rc_boundary_id :: string
  rc_kind :: runtime_crypto_boundary_kind
  rc_function_name :: string
  rc_algorithm :: "string option"
  rc_ciphertext_param_index :: "u32 option"
  rc_key_value :: "string option"
  rc_iv_value :: "string option"

datatype outcome_status =
    StCompleted
  | StCompletedWithFindings
  | StUnsupported
  | StBuildFailed
  | StRuntimeFailed
  | StTimedOut
  | StSkippedByPolicy
  | StPreflightFailed

record invocation_outcome =
  io_status :: outcome_status
  io_short_reason :: "string option"
  io_return_value :: "json option"
  io_thrown_error :: "error_info option"
  io_side_effects :: "side_effect list"

record performance_metrics =
  pm_wall_time_ms :: f64
  pm_cpu_time_us :: i64
  pm_heap_used_bytes :: i64
  pm_heap_allocated_bytes :: i64

record execute_result =
  xr_return_value :: "json option"
  xr_thrown_error :: "error_info option"
  xr_branch_path :: "branch_decision list"
  xr_lines_executed :: "u32 list"
  xr_calls_to_external :: "external_call list"
  xr_path_constraints :: "sym_constraint list"
  xr_scope_events :: "trace_event list"
  xr_loop_body_states :: "loop_body_state list"
  xr_side_effects :: "side_effect list"
  xr_performance :: performance_metrics
  xr_capture_truncation :: "truncation_info option"
  xr_discovered_dependencies :: "discovered_dependency list"
  xr_connection_failures :: "connection_failure list"
  xr_runtime_crypto_boundaries :: "runtime_crypto_boundary list"
  xr_outcome :: "invocation_outcome option"

text \<open>\<open>ExecuteResult::default()\<close>, the starting point of the tests.\<close>

definition default_metrics :: performance_metrics where
  "default_metrics = \<lparr>pm_wall_time_ms = 0, pm_cpu_time_us = 0, pm_heap_used_bytes = 0, pm_heap_allocated_bytes = 0\<rparr>"

definition default_result :: execute_result where
  "default_result = \<lparr>xr_return_value = None, xr_thrown_error = None, xr_branch_path = [],
     xr_lines_executed = [], xr_calls_to_external = [], xr_path_constraints = [], xr_scope_events = [],
     xr_loop_body_states = [], xr_side_effects = [], xr_performance = default_metrics,
     xr_capture_truncation = None, xr_discovered_dependencies = [], xr_connection_failures = [],
     xr_runtime_crypto_boundaries = [], xr_outcome = None\<rparr>"

end
