(* ===== verification/Mcdc.thy ===== *)
theory Mcdc
  imports Execution_Record
begin

text \<open>
  MC/DC coverage tracking (\<open>shatter-core/src/mcdc.rs\<close>): a table with one entry per compound decision,
  the truth rows observed for it, and for each condition whether an independence pair has been seen.
  The theorems show that the incremental search finds a pair exactly when the observed rows contain
  one, in any order, and that the summary agrees with the completeness test.
\<close>

section \<open>State\<close>

record mcdc_observation =
  mo_condition_values :: "bool option list"
  mo_decision_outcome :: bool

record decision_mcdc =
  dm_branch_id :: u32
  dm_num_conditions :: usize
  dm_observations :: "mcdc_observation list"
  dm_independent :: "bool list"

record mcdc_table =
  mt_decisions :: "(u32, decision_mcdc) fmap"

definition decision_new :: "u32 \<Rightarrow> usize \<Rightarrow> decision_mcdc" where
  "decision_new branch_id num_conditions =
     \<lparr>dm_branch_id = branch_id, dm_num_conditions = num_conditions, dm_observations = [],
      dm_independent = replicate num_conditions False\<rparr>"

section \<open>The independence check\<close>

text \<open>\<open>condition_values.get(i).copied().flatten()\<close>\<close>

definition value_at :: "mcdc_observation \<Rightarrow> nat \<Rightarrow> bool option" where
  "value_at obs i =
     (if i < length (mo_condition_values obs) then mo_condition_values obs ! i else None)"

definition all_others_agree :: "usize \<Rightarrow> nat \<Rightarrow> mcdc_observation \<Rightarrow> mcdc_observation \<Rightarrow> bool" where
  "all_others_agree num_conditions i obs_a obs_b =
     list_all (\<lambda>j.
       if j = i then True
       else (case (value_at obs_a j, value_at obs_b j) of
               (Some ca, Some cb) \<Rightarrow> ca = cb
             | _ \<Rightarrow> True)) [0..<num_conditions]"

definition independence_pair :: "usize \<Rightarrow> nat \<Rightarrow> mcdc_observation \<Rightarrow> mcdc_observation \<Rightarrow> bool" where
  "independence_pair num_conditions i obs_a obs_b =
     (case (value_at obs_a i, value_at obs_b i) of
        (Some val_a, Some val_b) \<Rightarrow>
          val_a \<noteq> val_b \<and>
          mo_decision_outcome obs_a \<noteq> mo_decision_outcome obs_b \<and>
          all_others_agree num_conditions i obs_a obs_b
      | _ \<Rightarrow> False)"

fun search_pairs :: "(mcdc_observation \<Rightarrow> mcdc_observation \<Rightarrow> bool) \<Rightarrow> mcdc_observation list \<Rightarrow> bool" where
  "search_pairs pair [] = False"
| "search_pairs pair (obs_a # rest) = (list_ex (pair obs_a) rest \<or> search_pairs pair rest)"

definition check_condition :: "nat \<Rightarrow> decision_mcdc \<Rightarrow> decision_mcdc" where
  "check_condition i d =
     (if dm_independent d ! i then d
      else if search_pairs (independence_pair (dm_num_conditions d) i) (dm_observations d)
      then d\<lparr>dm_independent := (dm_independent d)[i := True]\<rparr>
      else d)"

definition check_independence :: "decision_mcdc \<Rightarrow> decision_mcdc" where
  "check_independence d = fold check_condition [0..<dm_num_conditions d] d"

section \<open>The table\<close>

definition place_condition :: "condition_outcome \<Rightarrow> bool option list \<Rightarrow> bool option list" where
  "place_condition co row =
     (let idx = unat (co_condition_index co)
      in if idx < length row then row[idx := (if co_masked co then None else co_value co)] else row)"

definition truth_row :: "usize \<Rightarrow> condition_outcome list \<Rightarrow> bool option list" where
  "truth_row width conditions = fold place_condition conditions (replicate width None)"

definition record_observation ::
    "mcdc_table \<Rightarrow> u32 \<Rightarrow> condition_outcome list \<Rightarrow> bool \<Rightarrow> mcdc_table" where
  "record_observation table branch_id conditions decision_outcome =
     (let num_conditions = length conditions;
          entry = fm_get_or (mt_decisions table) branch_id (decision_new branch_id num_conditions);
          row = truth_row (max num_conditions (dm_num_conditions entry)) conditions;
          entry' = entry\<lparr>dm_observations := dm_observations entry @
            [\<lparr>mo_condition_values = row, mo_decision_outcome = decision_outcome\<rparr>]\<rparr>
      in table\<lparr>mt_decisions := fmupd branch_id (check_independence entry') (mt_decisions table)\<rparr>)"

definition is_complete :: "mcdc_table \<Rightarrow> bool" where
  "is_complete table = fmpred (\<lambda>_ d. list_all (\<lambda>v. v) (dm_independent d)) (mt_decisions table)"

definition independent_count :: "decision_mcdc \<Rightarrow> nat" where
  "independent_count d = length (filter (\<lambda>i. dm_independent d ! i) [0..<dm_num_conditions d])"

definition always_masked :: "decision_mcdc \<Rightarrow> nat \<Rightarrow> bool" where
  "always_masked d i = list_all (\<lambda>obs. value_at obs i = None) (dm_observations d)"

definition opaque_count :: "decision_mcdc \<Rightarrow> nat" where
  "opaque_count d =
     length (filter (\<lambda>i. \<not> dm_independent d ! i \<and> always_masked d i \<and> dm_observations d \<noteq> [])
       [0..<dm_num_conditions d])"

definition summary :: "mcdc_table \<Rightarrow> usize \<times> usize \<times> usize" where
  "summary table =
     (fm_sum dm_num_conditions (mt_decisions table),
      fm_sum independent_count (mt_decisions table),
      fm_sum opaque_count (mt_decisions table))"

section \<open>The incremental search is exact\<close>

lemma independence_pair_sym: "independence_pair n i a b = independence_pair n i b a"
  by (auto simp: independence_pair_def all_others_agree_def list_all_iff split: option.splits)

lemma independence_pair_irrefl: "\<not> independence_pair n i a a"
  by (simp add: independence_pair_def split: option.split)

lemma search_pairs_iff:
  assumes "\<And>a b. pair a b = pair b a" and "\<And>a. \<not> pair a a"
  shows "search_pairs pair obs \<longleftrightarrow> (\<exists>a\<in>set obs. \<exists>b\<in>set obs. pair a b)"
  by (induction obs) (use assms in \<open>auto simp: list_ex_iff\<close>)

definition has_pair :: "usize \<Rightarrow> mcdc_observation list \<Rightarrow> nat \<Rightarrow> bool" where
  "has_pair n obs i \<longleftrightarrow> (\<exists>a\<in>set obs. \<exists>b\<in>set obs. independence_pair n i a b)"

lemma check_condition_eq:
  assumes "i < length (dm_independent d)"
  shows "check_condition i d = d\<lparr>dm_independent := (dm_independent d)
     [i := dm_independent d ! i \<or> has_pair (dm_num_conditions d) (dm_observations d) i]\<rparr>"
proof -
  have "search_pairs (independence_pair (dm_num_conditions d) i) (dm_observations d) \<longleftrightarrow>
      has_pair (dm_num_conditions d) (dm_observations d) i"
    unfolding has_pair_def by (rule search_pairs_iff) (rule independence_pair_sym, rule independence_pair_irrefl)
  moreover have "d\<lparr>dm_independent := (dm_independent d)[i := dm_independent d ! i]\<rparr> = d" by simp
  ultimately show ?thesis
    unfolding check_condition_def by (auto simp del: list_update_id)
qed

lemma fold_check_condition:
  assumes "n \<le> length (dm_independent d)"
  shows "fold check_condition [0..<n] d = d\<lparr>dm_independent :=
     map (\<lambda>i. dm_independent d ! i \<or> i < n \<and> has_pair (dm_num_conditions d) (dm_observations d) i)
       [0..<length (dm_independent d)]\<rparr>"
  using assms
proof (induction n)
  case 0
  then show ?case by (simp add: map_nth)
next
  case (Suc n)
  then have IH: "fold check_condition [0..<n] d = d\<lparr>dm_independent :=
     map (\<lambda>i. dm_independent d ! i \<or> i < n \<and> has_pair (dm_num_conditions d) (dm_observations d) i)
       [0..<length (dm_independent d)]\<rparr>" by simp
  let ?P = "has_pair (dm_num_conditions d) (dm_observations d)" and ?L = "length (dm_independent d)"
  have "(map (\<lambda>i. dm_independent d ! i \<or> i < n \<and> ?P i) [0..<?L])[n := dm_independent d ! n \<or> ?P n] =
      map (\<lambda>i. dm_independent d ! i \<or> i < Suc n \<and> ?P i) [0..<?L]"
    by (rule nth_equalityI) (use Suc.prems in \<open>auto simp: nth_list_update less_Suc_eq\<close>)
  then show ?case
    using Suc.prems by (simp add: IH check_condition_eq)
qed

lemma check_independence_eq:
  assumes "length (dm_independent d) = dm_num_conditions d"
  shows "check_independence d = d\<lparr>dm_independent :=
     map (\<lambda>i. dm_independent d ! i \<or> has_pair (dm_num_conditions d) (dm_observations d) i) [0..<dm_num_conditions d]\<rparr>"
  unfolding check_independence_def using fold_check_condition [of "dm_num_conditions d" d] assms
  by (simp cong: map_cong)

lemma has_pair_mono: "has_pair n obs i \<Longrightarrow> has_pair n (obs @ obs') i"
  by (auto simp: has_pair_def)

section \<open>Runs\<close>

type_synonym mcdc_event = "u32 \<times> condition_outcome list \<times> bool"

definition empty_table :: mcdc_table where
  "empty_table = \<lparr>mt_decisions = fmempty\<rparr>"

definition run_observations :: "mcdc_event list \<Rightarrow> mcdc_table" where
  "run_observations events =
     fold (\<lambda>(branch_id, conditions, outcome) t. record_observation t branch_id conditions outcome) events empty_table"

text \<open>The events of one decision, and the rows they produce: the first event fixes the number of conditions.\<close>

definition events_of :: "u32 \<Rightarrow> mcdc_event list \<Rightarrow> mcdc_event list" where
  "events_of branch_id events = filter (\<lambda>e. fst e = branch_id) events"

definition row_of :: "usize \<Rightarrow> mcdc_event \<Rightarrow> mcdc_observation" where
  "row_of n = (\<lambda>(_, conditions, outcome).
     \<lparr>mo_condition_values = truth_row (max (length conditions) n) conditions, mo_decision_outcome = outcome\<rparr>)"

definition decision_of :: "u32 \<Rightarrow> mcdc_event list \<Rightarrow> decision_mcdc" where
  "decision_of branch_id es =
     (let n = length (fst (snd (hd es))); rows = map (row_of n) es
      in \<lparr>dm_branch_id = branch_id, dm_num_conditions = n, dm_observations = rows,
          dm_independent = map (has_pair n rows) [0..<n]\<rparr>)"

lemma check_decision:
  assumes "length (dm_independent d) = dm_num_conditions d"
    and "\<And>i. i < dm_num_conditions d \<Longrightarrow> dm_independent d ! i = has_pair (dm_num_conditions d) (dm_observations d) i"
  shows "check_independence (d\<lparr>dm_observations := dm_observations d @ [r]\<rparr>) =
    d\<lparr>dm_observations := dm_observations d @ [r],
      dm_independent := map (has_pair (dm_num_conditions d) (dm_observations d @ [r])) [0..<dm_num_conditions d]\<rparr>"
proof -
  have "map (\<lambda>i. dm_independent d ! i \<or> has_pair (dm_num_conditions d) (dm_observations d @ [r]) i) [0..<dm_num_conditions d] =
      map (has_pair (dm_num_conditions d) (dm_observations d @ [r])) [0..<dm_num_conditions d]"
    by (rule map_cong) (use assms(2) has_pair_mono in auto)
  with check_independence_eq [of "d\<lparr>dm_observations := dm_observations d @ [r]\<rparr>"] assms(1) show ?thesis by simp
qed

lemma run_observations_snoc:
  "run_observations (events @ [(b, cs, out)]) = record_observation (run_observations events) b cs out"
  by (simp add: run_observations_def)

lemma record_new:
  "check_independence (decision_new b (length cs)\<lparr>dm_observations :=
      [\<lparr>mo_condition_values = truth_row (length cs) cs, mo_decision_outcome = out\<rparr>]\<rparr>) = decision_of b [(b, cs, out)]"
  using check_decision [of "decision_new b (length cs)"]
  by (simp add: decision_new_def decision_of_def row_of_def Let_def has_pair_def)

lemma record_again:
  fixes b :: u32
  assumes "es \<noteq> []"
  defines "d \<equiv> decision_of b es"
  shows "check_independence (d\<lparr>dm_observations := dm_observations d @
      [\<lparr>mo_condition_values = truth_row (max (length cs) (dm_num_conditions d)) cs, mo_decision_outcome = out\<rparr>]\<rparr>) =
    decision_of b (es @ [(b, cs, out)])"
  unfolding d_def by (subst check_decision) (use assms(1) in \<open>simp_all add: decision_of_def row_of_def Let_def\<close>)

lemma run_observations_lookup:
  "fmlookup (mt_decisions (run_observations events)) b =
     (if events_of b events = [] then None else Some (decision_of b (events_of b events)))"
proof (induction events rule: rev_induct)
  case Nil
  then show ?case by (simp add: run_observations_def empty_table_def events_of_def)
next
  case (snoc e events)
  obtain b' cs out where e: "e = (b', cs, out)" by (cases e)
  show ?case
  proof (cases "b' = b")
    case True
    have ev: "events_of b (events @ [(b, cs, out)]) = events_of b events @ [(b, cs, out)]" by (simp add: events_of_def)
    show ?thesis
    proof (cases "events_of b events = []")
      case True
      with snoc \<open>b' = b\<close> record_new [where b = b and cs = cs and out = out] show ?thesis
        by (simp add: e ev run_observations_snoc record_observation_def Let_def fm_get_or_def decision_new_def)
    next
      case False
      with snoc \<open>b' = b\<close> record_again [where es = "events_of b events" and b = b and cs = cs and out = out] show ?thesis
        by (simp add: e ev run_observations_snoc record_observation_def Let_def fm_get_or_def)
    qed
  next
    case False
    with snoc show ?thesis
      by (simp add: e run_observations_snoc record_observation_def Let_def events_of_def)
  qed
qed

text \<open>C10: After any sequence of observations the table holds, for exactly the decisions that were
  observed, one truth row per observation in order, and a condition is marked independent exactly when
  two of the decision's rows form an independence pair for it. The marks therefore do not depend on the
  order of the observations, and an incremental search misses no pair.\<close>

theorem mcdc_table_exact:
  "fmlookup (mt_decisions (run_observations events)) b =
     (if events_of b events = [] then None
      else let n = length (fst (snd (hd (events_of b events)))); rows = map (row_of n) (events_of b events)
           in Some \<lparr>dm_branch_id = b, dm_num_conditions = n, dm_observations = rows,
             dm_independent = map (\<lambda>i. \<exists>x\<in>set rows. \<exists>y\<in>set rows. independence_pair n i x y) [0..<n]\<rparr>)"
  unfolding run_observations_lookup decision_of_def Let_def has_pair_def by (rule refl)

section \<open>The summary\<close>

lemma fm_sum_mono: "(\<And>v. v \<in> fmran' m \<Longrightarrow> f v \<le> g v) \<Longrightarrow> fm_sum f m \<le> fm_sum g m"
  unfolding fm_sum_def by (rule sum_mono) (auto split: option.splits intro: fmran'I)

lemma fm_sum_add: "fm_sum f m + fm_sum g m = fm_sum (\<lambda>v. f v + g v) m"
  unfolding fm_sum_def sum.distrib [symmetric] by (rule sum.cong) (auto split: option.splits)

lemma fm_sum_eq_iff:
  assumes "\<And>v. v \<in> fmran' m \<Longrightarrow> f v \<le> g v"
  shows "fm_sum f m = fm_sum g m \<longleftrightarrow> (\<forall>v\<in>fmran' m. f v = g v)"
proof -
  let ?h = "\<lambda>f k. case fmlookup m k of None \<Rightarrow> 0 | Some v \<Rightarrow> f v"
  have le: "?h f k \<le> ?h g k" for k using assms by (auto split: option.split intro: fmran'I)
  have "fm_sum f m = fm_sum g m \<longleftrightarrow> (\<forall>k\<in>fmdom' m. ?h f k = ?h g k)"
  proof
    assume eq: "fm_sum f m = fm_sum g m"
    show "\<forall>k\<in>fmdom' m. ?h f k = ?h g k"
    proof (rule ccontr)
      assume "\<not> (\<forall>k\<in>fmdom' m. ?h f k = ?h g k)"
      then obtain k where "k \<in> fmdom' m" "?h f k < ?h g k" using le by (metis le_neq_implies_less)
      then have "fm_sum f m < fm_sum g m"
        unfolding fm_sum_def using le by (intro sum_strict_mono_ex1) auto
      with eq show False by simp
    qed
  qed (simp add: fm_sum_def)
  also have "\<dots> \<longleftrightarrow> (\<forall>v\<in>fmran' m. f v = g v)"
  proof
    assume eq: "\<forall>k\<in>fmdom' m. ?h f k = ?h g k"
    show "\<forall>v\<in>fmran' m. f v = g v"
    proof
      fix v assume "v \<in> fmran' m"
      then obtain k where k: "fmlookup m k = Some v" by (auto simp: fmlookup_ran'_iff)
      with eq have "?h f k = ?h g k" by (blast intro: fmdom'I)
      with k show "f v = g v" by simp
    qed
  next
    assume eq: "\<forall>v\<in>fmran' m. f v = g v"
    show "\<forall>k\<in>fmdom' m. ?h f k = ?h g k"
    proof
      fix k assume "k \<in> fmdom' m"
      then obtain v where k: "fmlookup m k = Some v" by (auto simp: fmdom'_iff)
      with eq have "f v = g v" by (blast intro: fmran'I)
      with k show "?h f k = ?h g k" by simp
    qed
  qed
  finally show ?thesis .
qed

lemma length_filter_conj_le: "length (filter (\<lambda>x. P x \<and> Q x) xs) \<le> length (filter P xs)"
  by (induction xs) auto

lemma independent_count_le: "independent_count d + opaque_count d \<le> dm_num_conditions d"
proof -
  let ?xs = "[0..<dm_num_conditions d]" and ?I = "\<lambda>i. dm_independent d ! i"
  have "opaque_count d \<le> length (filter (\<lambda>i. \<not> ?I i) ?xs)"
    unfolding opaque_count_def
    by (rule length_filter_conj_le [where Q = "\<lambda>i. always_masked d i \<and> dm_observations d \<noteq> []"])
  moreover have "length (filter ?I ?xs) + length (filter (\<lambda>i. \<not> ?I i) ?xs) = dm_num_conditions d"
    using sum_length_filter_compl [of ?I ?xs] by (simp only: length_upt diff_zero)
  ultimately show ?thesis unfolding independent_count_def by linarith
qed

lemma independent_count_full:
  assumes "length (dm_independent d) = dm_num_conditions d"
  shows "independent_count d = dm_num_conditions d \<longleftrightarrow> list_all (\<lambda>v. v) (dm_independent d)"
proof -
  have "independent_count d = length [0..<dm_num_conditions d] \<longleftrightarrow> (\<forall>i\<in>set [0..<dm_num_conditions d]. dm_independent d ! i)"
    unfolding independent_count_def by (metis filter_True length_filter_less nat_neq_iff)
  with assms show ?thesis by (simp add: list_all_length Ball_def)
qed

text \<open>In every reachable table the summary is consistent: the independent and the opaque conditions
  are disjoint, so their numbers add up to at most the total, and the table is complete exactly when
  every condition is counted as independent.\<close>

theorem mcdc_summary_consistent:
  "case summary (run_observations events) of
     (all, independent, unobserved) \<Rightarrow>
       independent + unobserved \<le> all \<and> (is_complete (run_observations events) \<longleftrightarrow> independent = all)"
proof -
  let ?m = "mt_decisions (run_observations events)"
  have len: "length (dm_independent d) = dm_num_conditions d" if "d \<in> fmran' ?m" for d
    using that by (auto simp: fmlookup_ran'_iff run_observations_lookup decision_of_def Let_def split: if_splits)
  have "fm_sum independent_count ?m + fm_sum opaque_count ?m \<le> fm_sum dm_num_conditions ?m"
    unfolding fm_sum_add by (rule fm_sum_mono) (rule independent_count_le)
  moreover have "independent_count d \<le> dm_num_conditions d" for d using independent_count_le [of d] by simp
  from fm_sum_eq_iff [of ?m independent_count dm_num_conditions, OF this] have "fm_sum independent_count ?m = fm_sum dm_num_conditions ?m \<longleftrightarrow>
      (\<forall>d\<in>fmran' ?m. list_all (\<lambda>v. v) (dm_independent d))"
    by (simp add: independent_count_full len)
  moreover have "is_complete (run_observations events) \<longleftrightarrow> (\<forall>d\<in>fmran' ?m. list_all (\<lambda>v. v) (dm_independent d))"
    by (auto simp: is_complete_def fmpred_iff fmlookup_ran'_iff)
  ultimately show ?thesis by (simp add: summary_def)
qed

end
