(* ===== verification/Setup_Manager.thy ===== *)
theory Setup_Manager
  imports Json_Value Rust_Strings
begin

text \<open>
  The setup/teardown lifecycle (\<open>shatter-core/src/setup_manager.rs\<close>): four nested levels with their
  timeouts, the failures recorded per level, and the contexts cached per level and scope. The
  theorems relate the state to the history of operations: which context is active, and when a setup
  is refused.

  A \<open>Duration\<close> is only ever built from whole seconds and is the number of seconds.
\<close>

section \<open>Levels and timeouts\<close>

datatype setup_level = LvSession | LvFile | LvFunction | LvExecution

type_synonym duration_secs = u64

definition DEFAULT_SESSION_TIMEOUT :: duration_secs where "DEFAULT_SESSION_TIMEOUT = 120"
definition DEFAULT_FILE_TIMEOUT :: duration_secs where "DEFAULT_FILE_TIMEOUT = 30"
definition DEFAULT_FUNCTION_TIMEOUT :: duration_secs where "DEFAULT_FUNCTION_TIMEOUT = 15"
definition DEFAULT_EXECUTION_TIMEOUT :: duration_secs where "DEFAULT_EXECUTION_TIMEOUT = 5"

record setup_timeouts =
  to_session :: duration_secs
  to_file :: duration_secs
  to_function :: duration_secs
  to_execution :: duration_secs

definition default_timeouts :: setup_timeouts where
  "default_timeouts = \<lparr>to_session = DEFAULT_SESSION_TIMEOUT, to_file = DEFAULT_FILE_TIMEOUT,
     to_function = DEFAULT_FUNCTION_TIMEOUT, to_execution = DEFAULT_EXECUTION_TIMEOUT\<rparr>"

definition from_raw_value :: "string option \<Rightarrow> setup_timeouts" where
  "from_raw_value raw =
     (case raw of
        Some val \<Rightarrow>
          (case parse_unsigned 64 val of
             Some secs \<Rightarrow>
               if secs > 0 then
                 (let d = word_of_nat secs
                  in \<lparr>to_session = d, to_file = d, to_function = d, to_execution = d\<rparr>)
               else default_timeouts
           | None \<Rightarrow> default_timeouts)
      | None \<Rightarrow> default_timeouts)"

fun timeout_for :: "setup_timeouts \<Rightarrow> setup_level \<Rightarrow> duration_secs" where
  "timeout_for t LvSession = to_session t"
| "timeout_for t LvFile = to_file t"
| "timeout_for t LvFunction = to_function t"
| "timeout_for t LvExecution = to_execution t"

section \<open>Failures\<close>

record setup_failures =
  sf_failures :: "(setup_level, string) fmap"

definition failures_record :: "setup_failures \<Rightarrow> setup_level \<Rightarrow> string \<Rightarrow> setup_failures" where
  "failures_record f level error = f\<lparr>sf_failures := fmupd level error (sf_failures f)\<rparr>"

definition failures_clear :: "setup_failures \<Rightarrow> setup_level \<Rightarrow> setup_failures" where
  "failures_clear f level = f\<lparr>sf_failures := fmdrop level (sf_failures f)\<rparr>"

definition has_failed :: "setup_failures \<Rightarrow> setup_level \<Rightarrow> bool" where
  "has_failed f level = (fmlookup (sf_failures f) level \<noteq> None)"

definition error_for :: "setup_failures \<Rightarrow> setup_level \<Rightarrow> string option" where
  "error_for f level = fmlookup (sf_failures f) level"

datatype setup_error =
    SetupTimeout setup_level duration_secs
  | SetupFailed setup_level string
  | SetupSkipped setup_level setup_level

section \<open>The manager\<close>

record setup_manager =
  sm_contexts :: "(setup_level \<times> string, json) fmap"
  sm_failures :: setup_failures
  sm_timeouts :: setup_timeouts
  sm_fail_on_error :: bool

definition manager_new :: "setup_timeouts \<Rightarrow> bool \<Rightarrow> setup_manager" where
  "manager_new timeouts fail_on_error =
     \<lparr>sm_contexts = fmempty, sm_failures = \<lparr>sf_failures = fmempty\<rparr>, sm_timeouts = timeouts,
      sm_fail_on_error = fail_on_error\<rparr>"

definition hierarchy :: "setup_level list" where
  "hierarchy = [LvSession, LvFile, LvFunction, LvExecution]"

text \<open>\<open>iter().position(..).unwrap_or(0)\<close>\<close>

fun position_or_zero :: "setup_level \<Rightarrow> setup_level list \<Rightarrow> nat \<Rightarrow> nat" where
  "position_or_zero level [] i = 0"
| "position_or_zero level (l # ls) i = (if l = level then i else position_or_zero level ls (Suc i))"

definition blocking_failure_inclusive :: "setup_manager \<Rightarrow> setup_level \<Rightarrow> setup_level option" where
  "blocking_failure_inclusive m level =
     (let target_idx = position_or_zero level hierarchy 0
      in find (\<lambda>l. has_failed (sm_failures m) l) (take (Suc target_idx) hierarchy))"

definition blocking_failure :: "setup_manager \<Rightarrow> setup_level \<Rightarrow> setup_level option" where
  "blocking_failure m level =
     (let target_idx = position_or_zero level hierarchy 0
      in find (\<lambda>l. has_failed (sm_failures m) l) (take target_idx hierarchy))"

definition setup_at :: "setup_manager \<Rightarrow> setup_level \<Rightarrow> string \<Rightarrow> json \<Rightarrow> (setup_error + unit) \<times> setup_manager" where
  "setup_at m level scope ctx =
     (case blocking_failure m level of
        Some cause_level \<Rightarrow> (Inl (SetupSkipped level cause_level), m)
      | None \<Rightarrow>
          (Inr (), m\<lparr>sm_contexts := fmupd (level, scope) ctx (sm_contexts m),
                     sm_failures := failures_clear (sm_failures m) level\<rparr>))"

definition record_failure ::
    "setup_manager \<Rightarrow> setup_level \<Rightarrow> string \<Rightarrow> (setup_error + unit) \<times> setup_manager" where
  "record_failure m level error =
     (if sm_fail_on_error m then Inl (SetupFailed level error) else Inr (),
      m\<lparr>sm_failures := failures_record (sm_failures m) level error\<rparr>)"

definition teardown :: "setup_manager \<Rightarrow> setup_level \<Rightarrow> string \<Rightarrow> setup_manager" where
  "teardown m level scope = m\<lparr>sm_contexts := fmdrop (level, scope) (sm_contexts m)\<rparr>"

definition get_context :: "setup_manager \<Rightarrow> setup_level \<Rightarrow> string \<Rightarrow> json option" where
  "get_context m level scope = fmlookup (sm_contexts m) (level, scope)"

definition stack_entry ::
    "setup_manager \<Rightarrow> (setup_level \<times> string) list \<Rightarrow> setup_level \<Rightarrow> (setup_level \<times> json) option" where
  "stack_entry m scopes level =
     (case find (\<lambda>(l, _). l = level) scopes of
        Some (_, scope) \<Rightarrow>
          (case get_context m level scope of
             Some ctx \<Rightarrow> Some (level, ctx)
           | None \<Rightarrow> None)
      | None \<Rightarrow> None)"

definition context_stack :: "setup_manager \<Rightarrow> (setup_level \<times> string) list \<Rightarrow> (setup_level \<times> json) list" where
  "context_stack m scopes =
     List.map_filter (stack_entry m scopes) [LvSession, LvFile, LvFunction, LvExecution]"

definition should_skip :: "setup_manager \<Rightarrow> setup_level \<Rightarrow> bool" where
  "should_skip m level = (blocking_failure_inclusive m level \<noteq> None)"

definition active_context_count :: "setup_manager \<Rightarrow> usize" where
  "active_context_count m = fcard (fmdom (sm_contexts m))"

section \<open>Depth\<close>

fun depth :: "setup_level \<Rightarrow> nat" where
  "depth LvSession = 0"
| "depth LvFile = 1"
| "depth LvFunction = 2"
| "depth LvExecution = 3"

instantiation setup_level :: linorder
begin

definition less_eq_setup_level :: "setup_level \<Rightarrow> setup_level \<Rightarrow> bool" where
  "less_eq_setup_level a b \<longleftrightarrow> depth a \<le> depth b"

definition less_setup_level :: "setup_level \<Rightarrow> setup_level \<Rightarrow> bool" where
  "less_setup_level a b \<longleftrightarrow> depth a < depth b"

instance
proof
  fix a b :: setup_level
  show "a \<le> b \<Longrightarrow> b \<le> a \<Longrightarrow> a = b"
    by (cases a; cases b) (simp_all add: less_eq_setup_level_def)
qed (auto simp: less_eq_setup_level_def less_setup_level_def)

end

lemma find_take_hierarchy:
  "find P (take (depth level) hierarchy) = None \<longleftrightarrow> (\<forall>l<level. \<not> P l)"
  "find P (take (Suc (depth level)) hierarchy) = None \<longleftrightarrow> (\<forall>l\<le>level. \<not> P l)"
  "find P (take (depth level) hierarchy) = Some c \<longleftrightarrow> c < level \<and> P c \<and> (\<forall>l<c. \<not> P l)"
proof -
  have all: "(\<forall>l. Q l) \<longleftrightarrow> Q LvSession \<and> Q LvFile \<and> Q LvFunction \<and> Q LvExecution" for Q
    by (metis setup_level.exhaust)
  show "find P (take (depth level) hierarchy) = None \<longleftrightarrow> (\<forall>l<level. \<not> P l)"
    "find P (take (Suc (depth level)) hierarchy) = None \<longleftrightarrow> (\<forall>l\<le>level. \<not> P l)"
    unfolding all by (cases level; auto simp: hierarchy_def less_setup_level_def less_eq_setup_level_def)+
  show "find P (take (depth level) hierarchy) = Some c \<longleftrightarrow> c < level \<and> P c \<and> (\<forall>l<c. \<not> P l)"
    unfolding all by (cases level; cases c; auto simp: hierarchy_def less_setup_level_def)
qed

lemma position_depth: "position_or_zero level hierarchy 0 = depth level"
  by (cases level) (simp_all add: hierarchy_def)

section \<open>Histories\<close>

datatype setup_op =
    DoSetup setup_level string json
  | DoFail setup_level string
  | DoTeardown setup_level string

fun apply_op :: "setup_op \<Rightarrow> setup_manager \<Rightarrow> setup_manager" where
  "apply_op (DoSetup level scope ctx) m = snd (setup_at m level scope ctx)"
| "apply_op (DoFail level error) m = snd (record_failure m level error)"
| "apply_op (DoTeardown level scope) m = teardown m level scope"

abbreviation run_ops :: "setup_op list \<Rightarrow> setup_manager \<Rightarrow> setup_manager" where
  "run_ops \<equiv> fold apply_op"

abbreviation failed :: "setup_manager \<Rightarrow> setup_level \<Rightarrow> bool" where
  "failed m level \<equiv> has_failed (sm_failures m) level"

lemma blocking_failure_iff:
  "blocking_failure m level = None \<longleftrightarrow> (\<forall>l<level. \<not> failed m l)"
  "blocking_failure m level = Some c \<longleftrightarrow> c < level \<and> failed m c \<and> (\<forall>l<c. \<not> failed m l)"
  by (simp_all add: blocking_failure_def Let_def position_depth find_take_hierarchy)

lemma should_skip_iff: "should_skip m level \<longleftrightarrow> (\<exists>l\<le>level. failed m l)"
  using find_take_hierarchy(2) [of "failed m" level]
  by (auto simp: should_skip_def blocking_failure_inclusive_def Let_def position_depth)

text \<open>An operation that removes or replaces the context of a scope, and one that ends a failure.\<close>

fun touches :: "setup_manager \<Rightarrow> setup_level \<Rightarrow> string \<Rightarrow> setup_op \<Rightarrow> bool" where
  "touches m level scope (DoSetup l s c) = (l = level \<and> s = scope \<and> (\<forall>k<l. \<not> failed m k))"
| "touches m level scope (DoFail l e) = False"
| "touches m level scope (DoTeardown l s) = (l = level \<and> s = scope)"

fun recovers :: "setup_manager \<Rightarrow> setup_level \<Rightarrow> setup_op \<Rightarrow> bool" where
  "recovers m level (DoSetup l s c) = (l = level \<and> (\<forall>k<l. \<not> failed m k))"
| "recovers m level _ = False"

fun never :: "(setup_manager \<Rightarrow> setup_op \<Rightarrow> bool) \<Rightarrow> setup_manager \<Rightarrow> setup_op list \<Rightarrow> bool" where
  "never P m [] = True"
| "never P m (op # ops) = (\<not> P m op \<and> never P (apply_op op m) ops)"

text \<open>
  What holds after a run because of one operation: either it held at the start and nothing ended it,
  or an operation of the run established it and nothing later ended it.
\<close>

lemma since_last:
  assumes "\<And>m op. Q (apply_op op m) \<longleftrightarrow> starts m op \<or> Q m \<and> \<not> ends m op"
  shows "Q (run_ops ops m) \<longleftrightarrow>
     Q m \<and> never ends m ops \<or>
     (\<exists>pre op post. ops = pre @ op # post \<and> starts (run_ops pre m) op \<and> never ends (run_ops (pre @ [op]) m) post)"
proof (induction ops arbitrary: m)
  case (Cons op ops)
  have split: "(\<exists>pre o' post. op # ops = pre @ o' # post \<and> P pre o' post) \<longleftrightarrow>
      P [] op ops \<or> (\<exists>pre o' post. ops = pre @ o' # post \<and> P (op # pre) o' post)" for P
    by (auto simp: Cons_eq_append_conv)
  show ?case
    unfolding split using Cons.IH [of "apply_op op m"] assms [of op m] by auto
qed simp

lemma setup_at_state:
  "snd (setup_at m level scope ctx) =
     (if \<forall>k<level. \<not> failed m k
      then m\<lparr>sm_contexts := fmupd (level, scope) ctx (sm_contexts m),
             sm_failures := failures_clear (sm_failures m) level\<rparr>
      else m)"
  unfolding blocking_failure_iff(1) [symmetric] by (simp add: setup_at_def split: option.split)

lemma context_step:
  "get_context (apply_op op m) level scope = Some ctx \<longleftrightarrow>
     op = DoSetup level scope ctx \<and> (\<forall>k<level. \<not> failed m k) \<or>
     get_context m level scope = Some ctx \<and> \<not> touches m level scope op"
proof (cases op)
  case (DoSetup l s c)
  then show ?thesis
    by (auto simp: setup_at_state get_context_def)
qed (auto simp: record_failure_def teardown_def get_context_def)

lemma failure_step:
  "failed (apply_op op m) level \<longleftrightarrow> (\<exists>e. op = DoFail level e) \<or> failed m level \<and> \<not> recovers m level op"
proof (cases op)
  case (DoSetup l s c)
  then show ?thesis
    by (auto simp: setup_at_state has_failed_def failures_clear_def)
qed (auto simp: record_failure_def failures_record_def teardown_def has_failed_def)

text \<open>C16: A context is active after a run of operations exactly when some setup of the run supplied it for
  that level and scope, no outer level was marked failed at that moment, and since then the scope has
  neither been torn down nor set up again successfully.\<close>

theorem active_context_history:
  "get_context (run_ops ops (manager_new timeouts fail_on_error)) level scope = Some ctx \<longleftrightarrow>
     (\<exists>pre post. ops = pre @ DoSetup level scope ctx # post \<and>
        (\<forall>k\<in>{k. k < level}. \<not> failed (run_ops pre (manager_new timeouts fail_on_error)) k) \<and>
        never (\<lambda>m op. touches m level scope op)
          (run_ops (pre @ [DoSetup level scope ctx]) (manager_new timeouts fail_on_error)) post)"
proof -
  have "get_context (manager_new timeouts fail_on_error) level scope = None"
    by (simp add: get_context_def manager_new_def)
  with since_last [where Q = "\<lambda>m. get_context m level scope = Some ctx"
      and starts = "\<lambda>m op. op = DoSetup level scope ctx \<and> (\<forall>k<level. \<not> failed m k)"
      and ends = "\<lambda>m op. touches m level scope op", OF context_step, of ops "manager_new timeouts fail_on_error"]
  show ?thesis by auto
qed

theorem active_context_history_witness:
  "get_context (run_ops [DoFail LvFunction ''boom'', DoSetup LvFile ''a.ts'' (JBool True)]
     (manager_new default_timeouts False)) LvFile ''a.ts'' = Some (JBool True)"
  unfolding active_context_history
  by (rule exI [of _ "[DoFail LvFunction ''boom'']"], rule exI [of _ "[]"])
    (auto simp: record_failure_def manager_new_def has_failed_def failures_record_def less_setup_level_def)

text \<open>A level is out of order when a failure was recorded for it and no later setup of it succeeded.\<close>

definition out_of_order :: "setup_manager \<Rightarrow> setup_op list \<Rightarrow> setup_level \<Rightarrow> bool" where
  "out_of_order m ops level \<longleftrightarrow>
     (\<exists>pre e post. ops = pre @ DoFail level e # post \<and>
        never (\<lambda>m op. recovers m level op) (run_ops (pre @ [DoFail level e]) m) post)"

lemma failed_iff:
  "failed (run_ops ops (manager_new timeouts fail_on_error)) level \<longleftrightarrow>
     out_of_order (manager_new timeouts fail_on_error) ops level"
proof -
  have "\<not> failed (manager_new timeouts fail_on_error) level"
    by (simp add: has_failed_def manager_new_def)
  with since_last [where Q = "\<lambda>m. failed m level" and starts = "\<lambda>m op. \<exists>e. op = DoFail level e"
      and ends = "\<lambda>m op. recovers m level op", OF failure_step, of ops "manager_new timeouts fail_on_error"]
  have "failed (run_ops ops (manager_new timeouts fail_on_error)) level \<longleftrightarrow>
      (\<exists>pre op post. ops = pre @ op # post \<and> (\<exists>e. op = DoFail level e) \<and>
        never (\<lambda>m op. recovers m level op) (run_ops (pre @ [op]) (manager_new timeouts fail_on_error)) post)"
    by (simp only: simp_thms)
  then show ?thesis unfolding out_of_order_def by blast
qed

text \<open>C37: After any history, a setup is refused exactly when an outer level is out of order; the error
  names the outermost such level, and a refused setup changes nothing. A setup at a level that is
  itself out of order is not refused, so it can be retried, although \<open>should_skip\<close> advises to skip it.\<close>

theorem setup_refused_iff:
  fixes ops timeouts fail_on_error
  defines "m0 \<equiv> manager_new timeouts fail_on_error"
  shows "case setup_at (run_ops ops m0) level scope ctx of
     (Inl err, m') \<Rightarrow> m' = run_ops ops m0 \<and>
        (\<exists>cause. err = SetupSkipped level cause \<and> cause < level \<and> out_of_order m0 ops cause \<and>
           (\<forall>k\<in>{k. k < cause}. \<not> out_of_order m0 ops k))
   | (Inr _, m') \<Rightarrow> (\<forall>k\<in>{k. k < level}. \<not> out_of_order m0 ops k) \<and> get_context m' level scope = Some ctx \<and>
        \<not> failed m' level \<and> (should_skip (run_ops ops m0) level \<longleftrightarrow> out_of_order m0 ops level)"
proof -
  let ?m = "run_ops ops m0"
  have fl: "failed ?m k \<longleftrightarrow> out_of_order m0 ops k" for k unfolding m0_def by (rule failed_iff)
  show ?thesis
  proof (cases "blocking_failure ?m level")
    case None
    define m' where "m' = snd (setup_at ?m level scope ctx)"
    have eq: "setup_at ?m level scope ctx = (Inr (), m')" using None by (simp add: m'_def setup_at_def)
    have "get_context m' level scope = Some ctx" "\<not> failed m' level"
      using None by (simp_all add: m'_def setup_at_def get_context_def has_failed_def failures_clear_def)
    moreover have "\<forall>k<level. \<not> out_of_order m0 ops k"
      using None unfolding blocking_failure_iff fl .
    moreover from this have "should_skip ?m level \<longleftrightarrow> out_of_order m0 ops level"
      unfolding should_skip_iff fl le_less by blast
    ultimately show ?thesis unfolding eq by simp
  next
    case (Some cause)
    then have "cause < level \<and> out_of_order m0 ops cause \<and> (\<forall>k<cause. \<not> out_of_order m0 ops k)"
      unfolding blocking_failure_iff fl .
    then show ?thesis using Some by (simp add: setup_at_def)
  qed
qed

theorem setup_refused_iff_witness:
  "\<exists>cause m'. setup_at (run_ops [DoFail LvSession ''boom''] (manager_new default_timeouts False)) LvFile ''a.ts'' JNull =
       (Inl (SetupSkipped LvFile cause), m') \<and> cause < LvFile"
proof -
  let ?m = "run_ops [DoFail LvSession ''boom''] (manager_new default_timeouts False)"
  have "blocking_failure ?m LvFile = Some LvSession"
    by (simp add: blocking_failure_def Let_def hierarchy_def record_failure_def manager_new_def has_failed_def failures_record_def)
  then show ?thesis
    using setup_refused_iff [of "[DoFail LvSession ''boom'']" default_timeouts False LvFile "''a.ts''" JNull]
    by (auto simp: setup_at_def)
qed

text \<open>C38: The context stack lists the active contexts from the session inwards, each level at most once and
  with the context of the first scope given for it.\<close>

theorem context_stack_ordered:
  "sorted_wrt (<) (map fst (context_stack m scopes)) \<and>
   set (context_stack m scopes) =
     {(level, ctx). \<exists>scope. find (\<lambda>(l, _). l = level) scopes = Some (level, scope) \<and> get_context m level scope = Some ctx}"
proof
  have "sorted_wrt (<) (map fst (List.map_filter (stack_entry m scopes) ls))" if "sorted_wrt (<) ls" for ls
    using that
  proof (induction ls)
    case (Cons l ls)
    have key: "stack_entry m scopes k = Some (l', c) \<Longrightarrow> l' = k" for k l' c
      by (auto simp: stack_entry_def split: option.splits prod.splits)
    with Cons show ?case
      by (cases "stack_entry m scopes l") (auto simp: List.map_filter_simps set_map_filter, metis)
  qed (simp add: List.map_filter_simps)
  then show "sorted_wrt (<) (map fst (context_stack m scopes))"
    unfolding context_stack_def by (simp add: less_setup_level_def del: List.map_filter_simps)
  have "(level, ctx) \<in> set (context_stack m scopes) \<longleftrightarrow> stack_entry m scopes level = Some (level, ctx)" for level ctx
  proof -
    have "stack_entry m scopes k = Some (l', c) \<Longrightarrow> l' = k" for k l' c
      by (auto simp: stack_entry_def split: option.splits prod.splits)
    then show ?thesis
      unfolding context_stack_def set_map_filter by (cases level) auto
  qed
  moreover have "stack_entry m scopes level = Some (level, ctx) \<longleftrightarrow>
      (\<exists>scope. find (\<lambda>(l, _). l = level) scopes = Some (level, scope) \<and> get_context m level scope = Some ctx)" for level ctx
  proof (cases "find (\<lambda>(l, _). l = level) scopes")
    case (Some p)
    then have "fst p = level" by (auto simp: find_Some_iff)
    with Some show ?thesis by (cases p) (auto simp: stack_entry_def split: option.splits)
  qed (simp add: stack_entry_def)
  ultimately show "set (context_stack m scopes) =
     {(level, ctx). \<exists>scope. find (\<lambda>(l, _). l = level) scopes = Some (level, scope) \<and> get_context m level scope = Some ctx}"
    by auto
qed

end
