(* ===== verification/Float64.thy ===== *)
theory Float64
  imports Json_Value Complex_Main
begin

text \<open>
  Double-precision arithmetic as the sources use it: a float is its bit pattern, a finite float
  denotes a rational, and each operation rounds the exact result to the nearest float, ties to even
  (IEEE 754, the semantics of Rust's \<open>f64\<close>). Every definition computes.
\<close>

section \<open>Decoding\<close>

definition f64_sign :: "f64 \<Rightarrow> bool" where
  "f64_sign x \<longleftrightarrow> 2 ^ 63 \<le> uint x"

definition f64_bits :: "f64 \<Rightarrow> int" where
  "f64_bits x = uint x mod 2 ^ 63"

definition f64_exp :: "f64 \<Rightarrow> int" where
  "f64_exp x = f64_bits x div 2 ^ 52"

definition f64_frac :: "f64 \<Rightarrow> int" where
  "f64_frac x = f64_bits x mod 2 ^ 52"

definition inf_bits :: int where
  "inf_bits = 2047 * 2 ^ 52"

definition f64_finite :: "f64 \<Rightarrow> bool" where
  "f64_finite x \<longleftrightarrow> f64_bits x < inf_bits"

definition f64_mag :: "f64 \<Rightarrow> rat" where
  "f64_mag x =
     (if f64_exp x = 0 then of_int (f64_frac x) * 2 powi (- 1074)
      else of_int (2 ^ 52 + f64_frac x) * 2 powi (f64_exp x - 1075))"

definition f64_val :: "f64 \<Rightarrow> rat" where
  "f64_val x = (if f64_sign x then - f64_mag x else f64_mag x)"

section \<open>Rounding\<close>

fun log2 :: "nat \<Rightarrow> nat" where
  "log2 n = (if n < 2 then 0 else Suc (log2 (n div 2)))"

declare log2.simps [simp del]

definition rat_log2 :: "rat \<Rightarrow> int" where
  "rat_log2 q =
     (case quotient_of q of (a, b) \<Rightarrow>
        let l = int (log2 (nat a)) - int (log2 (nat b)) in if 2 powi l \<le> q then l else l - 1)"

text \<open>Round to the nearest integer, ties to even.\<close>

definition rne :: "rat \<Rightarrow> int" where
  "rne q =
     (let f = \<lfloor>q\<rfloor>; d = q - of_int f
      in if d < 1 / 2 then f else if d > 1 / 2 then f + 1 else if even f then f else f + 1)"

text \<open>
  The bits of a non-negative rational, without the sign: the significand at the exponent of \<open>q\<close> (not
  below the subnormal one) is added to the exponent field, so a carry moves to the next binade.
\<close>

definition f64_round_bits :: "rat \<Rightarrow> int" where
  "f64_round_bits q =
     (if q = 0 then 0
      else let e = max (- 1074) (rat_log2 q - 52)
           in min inf_bits ((e + 1074) * 2 ^ 52 + rne (q / 2 powi e)))"

definition f64_make :: "bool \<Rightarrow> int \<Rightarrow> f64" where
  "f64_make neg bits = word_of_int ((if neg then 2 ^ 63 else 0) + bits)"

definition f64_round :: "bool \<Rightarrow> rat \<Rightarrow> f64" where
  "f64_round neg q = f64_make neg (f64_round_bits \<bar>q\<bar>)"

definition f64_nan :: f64 where "f64_nan = 0x7FF8000000000000"

definition f64_of_nat :: "nat \<Rightarrow> f64" where
  "f64_of_nat n = f64_round False (of_nat n)"

definition f64_of_int :: "int \<Rightarrow> f64" where
  "f64_of_int i = f64_round (i < 0) (of_int i)"

section \<open>Arithmetic\<close>

definition f64_neg :: "f64 \<Rightarrow> f64" where
  "f64_neg x = f64_make (\<not> f64_sign x) (f64_bits x)"

definition f64_abs :: "f64 \<Rightarrow> f64" where
  "f64_abs x = f64_make False (f64_bits x)"

definition f64_is_inf :: "f64 \<Rightarrow> bool" where
  "f64_is_inf x \<longleftrightarrow> f64_bits x = inf_bits"

definition f64_add :: "f64 \<Rightarrow> f64 \<Rightarrow> f64" where
  "f64_add x y =
     (if f64_is_nan x \<or> f64_is_nan y then f64_nan
      else if f64_is_inf x then if f64_is_inf y \<and> f64_sign x \<noteq> f64_sign y then f64_nan else x
      else if f64_is_inf y then y
      else let s = f64_val x + f64_val y
           in if s = 0 then f64_make (f64_sign x \<and> f64_sign y) 0 else f64_round (s < 0) s)"

definition f64_sub :: "f64 \<Rightarrow> f64 \<Rightarrow> f64" where
  "f64_sub x y = f64_add x (f64_neg y)"

definition f64_mul :: "f64 \<Rightarrow> f64 \<Rightarrow> f64" where
  "f64_mul x y =
     (let neg = (f64_sign x \<noteq> f64_sign y)
      in if f64_is_nan x \<or> f64_is_nan y then f64_nan
         else if f64_is_inf x \<or> f64_is_inf y then
           if f64_is_zero x \<or> f64_is_zero y then f64_nan else f64_make neg inf_bits
         else f64_round neg (f64_mag x * f64_mag y))"

definition f64_div :: "f64 \<Rightarrow> f64 \<Rightarrow> f64" where
  "f64_div x y =
     (let neg = (f64_sign x \<noteq> f64_sign y)
      in if f64_is_nan x \<or> f64_is_nan y \<or> f64_is_inf x \<and> f64_is_inf y \<or> f64_is_zero x \<and> f64_is_zero y
         then f64_nan
         else if f64_is_inf x \<or> f64_is_zero y then f64_make neg inf_bits
         else if f64_is_inf y then f64_make neg 0
         else f64_round neg (f64_mag x / f64_mag y))"

text \<open>The order of the non-NaN floats is the order of their signed bits; the two zeros are equal.\<close>

definition f64_key :: "f64 \<Rightarrow> int" where
  "f64_key x = (if f64_sign x then - f64_bits x else f64_bits x)"

definition f64_lt :: "f64 \<Rightarrow> f64 \<Rightarrow> bool" where
  "f64_lt x y \<longleftrightarrow> \<not> f64_is_nan x \<and> \<not> f64_is_nan y \<and> f64_key x < f64_key y"

text \<open>\<open>f64::max\<close>: the other operand when one is NaN.\<close>

definition f64_max :: "f64 \<Rightarrow> f64 \<Rightarrow> f64" where
  "f64_max x y =
     (if f64_is_nan x then y else if f64_is_nan y then x else if f64_key x < f64_key y then y else x)"

text \<open>\<open>x as usize\<close>: towards zero, saturating, and zero for NaN and negative numbers.\<close>

definition f64_to_usize :: "f64 \<Rightarrow> usize" where
  "f64_to_usize x =
     (if f64_is_nan x \<or> f64_sign x then 0
      else if f64_is_inf x then 2 ^ 64 - 1
      else min (nat \<lfloor>f64_mag x\<rfloor>) (2 ^ 64 - 1))"

section \<open>Rounding is exact on floats and monotone\<close>

lemma log2_bounds: "0 < n \<Longrightarrow> 2 ^ log2 n \<le> n \<and> n < 2 ^ Suc (log2 n)"
proof (induction n rule: log2.induct)
  case (1 n)
  show ?case
  proof (cases "n < 2")
    case True
    with 1 show ?thesis by (simp add: log2.simps)
  next
    case False
    then have "2 ^ log2 (n div 2) \<le> n div 2 \<and> n div 2 < 2 ^ Suc (log2 (n div 2))"
      using 1 by simp
    with False show ?thesis by (subst (1 2) log2.simps) auto
  qed
qed

lemma log2_int:
  assumes "0 < a"
  shows "2 ^ log2 (nat a) \<le> (of_int a :: rat)" and "(of_int a :: rat) < 2 * 2 ^ log2 (nat a)"
proof -
  from assms log2_bounds [of "nat a"] have "2 ^ log2 (nat a) \<le> nat a" "nat a < 2 * 2 ^ log2 (nat a)" by simp_all
  then have "int (2 ^ log2 (nat a)) \<le> int (nat a)" "int (nat a) < int (2 * 2 ^ log2 (nat a))"
    by (simp_all only: of_nat_le_iff of_nat_less_iff)
  with assms have "2 ^ log2 (nat a) \<le> a" "a < 2 * 2 ^ log2 (nat a)" by simp_all
  then have "(of_int (2 ^ log2 (nat a)) :: rat) \<le> of_int a" "(of_int a :: rat) < of_int (2 * 2 ^ log2 (nat a))"
    by (simp_all only: of_int_le_iff of_int_less_iff)
  then show "2 ^ log2 (nat a) \<le> (of_int a :: rat)" "(of_int a :: rat) < 2 * 2 ^ log2 (nat a)" by simp_all
qed

lemma rat_log2_bounds:
  assumes "0 < q"
  shows "2 powi rat_log2 q \<le> q" and "q < 2 powi (rat_log2 q + 1)"
proof -
  obtain a b where ab: "quotient_of q = (a, b)" by (cases "quotient_of q")
  then have q: "q = of_int a / of_int b" and b: "0 < b"
    by (simp_all add: quotient_of_div quotient_of_denom_pos)
  with assms have a: "0 < a" by (simp add: zero_less_divide_iff)
  define i j where "i = log2 (nat a)" and "j = log2 (nat b)"
  define l where "l = int i - int j"
  note ai = log2_int [OF a, folded i_def] and bj = log2_int [OF b, folded j_def]
  have pl: "(2 :: rat) powi l = 2 ^ i / 2 ^ j" by (simp add: l_def power_int_diff)
  have "q < 2 * 2 ^ i / 2 ^ j"
    unfolding q using ai(2) bj(1) a b by (intro frac_less) simp_all
  then have up: "q < 2 powi (l + 1)" by (simp add: power_int_add pl mult.commute)
  have "2 ^ i / (2 * 2 ^ j) \<le> q"
    unfolding q using ai(1) bj(2) a b by (intro frac_le) simp_all
  then have low: "2 powi (l - 1) \<le> q" by (simp add: power_int_diff pl)
  have r: "rat_log2 q = (if 2 powi l \<le> q then l else l - 1)"
    by (simp add: rat_log2_def ab i_def j_def l_def Let_def)
  show "2 powi rat_log2 q \<le> q" "q < 2 powi (rat_log2 q + 1)"
    unfolding r using up low by auto
qed

lemma rat_log2_unique:
  assumes "2 powi e \<le> q" and "q < 2 powi (e + 1)"
  shows "rat_log2 q = e"
proof -
  have "0 < (2 :: rat) powi e" by simp
  with assms(1) have q: "0 < q" by linarith
  note b = rat_log2_bounds [OF q]
  have "(2 :: rat) powi e < 2 powi (rat_log2 q + 1)" "(2 :: rat) powi rat_log2 q < 2 powi (e + 1)"
    using assms b by linarith+
  moreover have "(2 :: rat) powi m < 2 powi n \<Longrightarrow> m < n" for m n
    using power_int_increasing [of n m "2 :: rat"] by fastforce
  ultimately have "e < rat_log2 q + 1" "rat_log2 q < e + 1" by blast+
  then show ?thesis by linarith
qed

lemma rne_int [simp]: "rne (of_int n) = n"
  by (simp add: rne_def Let_def)

lemma rne_0 [simp]: "rne 0 = 0"
  using rne_int [of 0] by simp

lemma rne_mono: "p \<le> q \<Longrightarrow> rne p \<le> rne q"
proof -
  assume pq: "p \<le> q"
  then have f: "\<lfloor>p\<rfloor> \<le> \<lfloor>q\<rfloor>" by (rule floor_mono)
  show ?thesis
  proof (cases "\<lfloor>p\<rfloor> = \<lfloor>q\<rfloor>")
    case True
    with pq show ?thesis by (auto simp: rne_def Let_def)
  next
    case False
    have "rne p \<le> \<lfloor>p\<rfloor> + 1" "\<lfloor>q\<rfloor> \<le> rne q" by (auto simp: rne_def Let_def)
    with f False show ?thesis by linarith
  qed
qed

definition round_exp :: "rat \<Rightarrow> int" where
  "round_exp q = max (- 1074) (rat_log2 q - 52)"

lemma f64_round_bits_pos:
  "0 < q \<Longrightarrow> f64_round_bits q = min inf_bits ((round_exp q + 1074) * 2 ^ 52 + rne (q / 2 powi round_exp q))"
  by (simp add: f64_round_bits_def round_exp_def Let_def)

lemma round_sig:
  assumes "0 < q"
  shows "0 \<le> rne (q / 2 powi round_exp q)" and "rne (q / 2 powi round_exp q) \<le> 2 ^ 53"
    and "- 1074 < round_exp q \<Longrightarrow> 2 ^ 52 \<le> rne (q / 2 powi round_exp q)"
proof -
  let ?e = "round_exp q"
  have pos: "0 < (2 :: rat) powi ?e" by simp
  show "0 \<le> rne (q / 2 powi ?e)"
    using rne_mono [of "of_int 0" "q / 2 powi ?e"] assms by simp
  have "rat_log2 q + 1 \<le> ?e + 53" by (simp add: round_exp_def)
  then have "q < 2 powi (?e + 53)"
    using rat_log2_bounds(2) [OF assms] power_int_increasing [of "rat_log2 q + 1" "?e + 53" "2 :: rat"] by linarith
  then have "q / 2 powi ?e \<le> of_int (2 ^ 53)" by (simp add: divide_le_eq power_int_add mult.commute)
  from rne_mono [OF this] show "rne (q / 2 powi ?e) \<le> 2 ^ 53" by (simp only: rne_int)
  show "2 ^ 52 \<le> rne (q / 2 powi ?e)" if "- 1074 < ?e"
  proof -
    have "rat_log2 q = ?e + 52" using that by (auto simp: round_exp_def)
    with rat_log2_bounds(1) [OF assms] have "2 powi ?e * 2 ^ 52 \<le> q" by (simp add: power_int_add)
    then have "of_int (2 ^ 52) \<le> q / 2 powi ?e" by (simp add: le_divide_eq mult.commute)
    from rne_mono [OF this] show ?thesis by (simp only: rne_int)
  qed
qed

lemma f64_round_bits_nonneg: "0 \<le> q \<Longrightarrow> 0 \<le> f64_round_bits q"
proof (cases "q = 0")
  case False
  assume "0 \<le> q"
  with False have q: "0 < q" by simp
  have "- 1074 \<le> round_exp q" by (simp add: round_exp_def)
  with round_sig(1) [OF q] show ?thesis by (simp add: f64_round_bits_pos [OF q] inf_bits_def)
qed (simp add: f64_round_bits_def)

lemma rat_log2_mono: "0 < p \<Longrightarrow> p \<le> q \<Longrightarrow> rat_log2 p \<le> rat_log2 q"
proof (rule ccontr)
  assume p: "0 < p" and pq: "p \<le> q" and "\<not> rat_log2 p \<le> rat_log2 q"
  then have "(2 :: rat) powi (rat_log2 q + 1) \<le> 2 powi rat_log2 p"
    by (intro power_int_increasing) simp_all
  with rat_log2_bounds [OF p] rat_log2_bounds [of q] p pq show False by linarith
qed

lemma f64_round_bits_mono:
  assumes "0 \<le> p" and "p \<le> q"
  shows "f64_round_bits p \<le> f64_round_bits q"
proof (cases "p = 0")
  case True
  then show ?thesis using f64_round_bits_nonneg [of q] assms by (simp add: f64_round_bits_def)
next
  case False
  with assms have p: "0 < p" and q: "0 < q" by simp_all
  have e: "round_exp p \<le> round_exp q" using rat_log2_mono [OF p assms(2)] by (simp add: round_exp_def)
  have "(round_exp p + 1074) * 2 ^ 52 + rne (p / 2 powi round_exp p) \<le>
      (round_exp q + 1074) * 2 ^ 52 + rne (q / 2 powi round_exp q)"
  proof (cases "round_exp p = round_exp q")
    case True
    have "rne (p / 2 powi round_exp p) \<le> rne (q / 2 powi round_exp q)"
      unfolding True using assms(2) by (intro rne_mono divide_right_mono) simp_all
    with True show ?thesis by simp
  next
    case False
    with e have lt: "round_exp p + 1 \<le> round_exp q" by simp
    moreover have "- 1074 \<le> round_exp p" by (simp add: round_exp_def)
    ultimately have "2 ^ 52 \<le> rne (q / 2 powi round_exp q)" using round_sig(3) [OF q] by simp
    with round_sig(2) [OF p] lt show ?thesis by simp
  qed
  then show ?thesis by (simp add: f64_round_bits_pos p q min_le_iff_disj)
qed

lemma f64_bits_parts: "f64_bits x = f64_exp x * 2 ^ 52 + f64_frac x" "0 \<le> f64_frac x" "f64_frac x < 2 ^ 52"
    "0 \<le> f64_exp x"
  by (simp_all add: f64_exp_def f64_frac_def f64_bits_def)

lemma f64_mag_nonneg: "0 \<le> f64_mag x"
  by (simp add: f64_mag_def f64_bits_parts add_nonneg_nonneg)

lemma f64_round_bits_mag:
  assumes "f64_finite x"
  shows "f64_round_bits (f64_mag x) = f64_bits x"
proof (cases "f64_mag x = 0")
  case True
  have "f64_exp x = 0"
  proof (rule ccontr)
    assume "f64_exp x \<noteq> 0"
    moreover have "0 < 2 ^ 52 + f64_frac x" using f64_bits_parts(2) [of x] by simp
    ultimately show False using True by (simp add: f64_mag_def)
  qed
  with True have "f64_frac x = 0" by (simp add: f64_mag_def)
  with \<open>f64_exp x = 0\<close> True show ?thesis by (simp add: f64_bits_parts(1) f64_round_bits_def)
next
  case False
  with f64_mag_nonneg [of x] have q: "0 < f64_mag x" by simp
  have small: "f64_bits x \<le> inf_bits" using assms by (simp add: f64_finite_def)
  show ?thesis
  proof (cases "f64_exp x = 0")
    case True
    then have m: "f64_mag x = of_int (f64_frac x) * 2 powi (- 1074)" by (simp add: f64_mag_def)
    have "(of_int (f64_frac x) :: rat) < of_int (2 ^ 52)" using f64_bits_parts(3) by (simp only: of_int_less_iff)
    then have "f64_mag x < 2 ^ 52 * 2 powi (- 1074)" unfolding m by simp
    then have "f64_mag x < 2 powi (- 1022)" by (simp add: power_int_add [symmetric, of 2 52])
    then have "(2 :: rat) powi rat_log2 (f64_mag x) < 2 powi (- 1022)" using rat_log2_bounds(1) [OF q] by linarith
    then have "rat_log2 (f64_mag x) < - 1022"
      using power_int_increasing [of "- 1022" "rat_log2 (f64_mag x)" "2 :: rat"] by fastforce
    then have "round_exp (f64_mag x) = - 1074" by (simp add: round_exp_def)
    with True m small show ?thesis by (simp add: f64_round_bits_pos [OF q] f64_bits_parts(1) [of x])
  next
    case False
    then have m: "f64_mag x = of_int (2 ^ 52 + f64_frac x) * 2 powi (f64_exp x - 1075)" by (simp add: f64_mag_def)
    define k where "k = f64_exp x - 1075"
    have m: "f64_mag x = of_int (2 ^ 52 + f64_frac x) * 2 powi k" unfolding m k_def ..
    have pk: "0 < (2 :: rat) powi k" by simp
    have "rat_log2 (f64_mag x) = k + 52"
    proof (rule rat_log2_unique)
      have "(of_int (2 ^ 52) :: rat) \<le> of_int (2 ^ 52 + f64_frac x)" using f64_bits_parts(2) [of x] by (simp only: of_int_le_iff)
      then show "2 powi (k + 52) \<le> f64_mag x" unfolding m by (simp add: power_int_add mult.commute)
      have "2 ^ 52 + f64_frac x < 2 ^ 53" using f64_bits_parts(3) [of x] by simp
      then have "(of_int (2 ^ 52 + f64_frac x) :: rat) < of_int (2 ^ 53)" by (simp only: of_int_less_iff)
      then show "f64_mag x < 2 powi (k + 52 + 1)" unfolding m by (simp add: power_int_add mult.commute)
    qed
    moreover have "1 \<le> f64_exp x" using False f64_bits_parts(4) [of x] by simp
    ultimately have e: "round_exp (f64_mag x) = k" by (simp add: round_exp_def k_def)
    have "f64_mag x / 2 powi k = of_int (2 ^ 52 + f64_frac x)" unfolding m using pk by simp
    then have "rne (f64_mag x / 2 powi k) = 2 ^ 52 + f64_frac x" by (simp only: rne_int)
    then show ?thesis
      using small f64_bits_parts(1) [of x] by (simp add: f64_round_bits_pos [OF q] e k_def algebra_simps)
  qed
qed

section \<open>Arithmetic on non-negative floats is monotone\<close>

text \<open>A float that is a number (or infinity) and not below zero; \<open>-0\<close> is one.\<close>

definition f64_nn :: "f64 \<Rightarrow> bool" where
  "f64_nn x \<longleftrightarrow> \<not> f64_is_nan x \<and> 0 \<le> f64_key x"

lemma inf_bits_pos: "0 < inf_bits" "inf_bits < 2 ^ 63"
  by (simp_all add: inf_bits_def)

lemma f64_round_bits_le: "f64_round_bits q \<le> inf_bits"
  by (simp add: f64_round_bits_def Let_def inf_bits_def)

lemma f64_make_parts:
  assumes "0 \<le> b" and "b \<le> inf_bits"
  shows "f64_sign (f64_make neg b) = neg" and "f64_bits (f64_make neg b) = b"
proof -
  have u: "uint (f64_make neg b) = (if neg then 2 ^ 63 else 0) + b"
    unfolding f64_make_def uint_word_of_int using assms inf_bits_pos by (intro mod_pos_pos_trivial) auto
  show "f64_sign (f64_make neg b) = neg" "f64_bits (f64_make neg b) = b"
    using assms inf_bits_pos by (auto simp: f64_sign_def f64_bits_def u)
qed

lemma f64_make_nan: "0 \<le> b \<Longrightarrow> b \<le> inf_bits \<Longrightarrow> \<not> f64_is_nan (f64_make neg b)"
  using f64_make_parts(2) [of b neg] by (simp add: f64_is_nan_def f64_bits_def inf_bits_def)

lemma f64_make_key: "0 \<le> b \<Longrightarrow> b \<le> inf_bits \<Longrightarrow> f64_key (f64_make neg b) = (if neg then - b else b)"
  by (simp add: f64_key_def f64_make_parts)

lemma f64_round_parts:
  shows "f64_key (f64_round neg q) = (if neg then - f64_round_bits \<bar>q\<bar> else f64_round_bits \<bar>q\<bar>)"
    and "\<not> f64_is_nan (f64_round neg q)"
  by (simp_all add: f64_round_def f64_make_key f64_make_nan f64_round_bits_nonneg f64_round_bits_le)

lemma f64_round_bits_0 [simp]: "f64_round_bits 0 = 0"
  by (simp add: f64_round_bits_def)

lemma finite_iff: "\<not> f64_is_nan x \<Longrightarrow> f64_finite x \<longleftrightarrow> \<not> f64_is_inf x"
  by (auto simp: f64_is_nan_def f64_finite_def f64_is_inf_def f64_bits_def inf_bits_def)

lemma f64_bits_nonneg: "0 \<le> f64_bits x"
  by (simp add: f64_bits_def)

lemma f64_zero_mag: "f64_bits x = 0 \<Longrightarrow> f64_mag x = 0"
  by (simp add: f64_mag_def f64_exp_def f64_frac_def)

lemma nn_key: "f64_nn x \<Longrightarrow> f64_key x = f64_bits x"
  using f64_bits_nonneg [of x] by (auto simp: f64_nn_def f64_key_def)

lemma nn_val: "f64_nn x \<Longrightarrow> f64_val x = f64_mag x"
  using f64_bits_nonneg [of x] by (auto simp: f64_nn_def f64_key_def f64_val_def f64_zero_mag split: if_splits)

lemma nn_inf_sign: "f64_nn x \<Longrightarrow> f64_is_inf x \<Longrightarrow> \<not> f64_sign x"
  using inf_bits_pos by (auto simp: f64_nn_def f64_key_def f64_is_inf_def)

lemma nn_inf_key: "f64_nn x \<Longrightarrow> f64_is_inf x \<longleftrightarrow> f64_key x = inf_bits"
  by (simp add: nn_key f64_is_inf_def)

lemma nn_key_le: "f64_nn x \<Longrightarrow> f64_key x \<le> inf_bits"
  by (simp add: nn_key) (simp add: f64_nn_def f64_is_nan_def f64_bits_def inf_bits_def)

lemma f64_mag_mono:
  assumes "f64_finite x" and "f64_finite y" and "f64_bits x \<le> f64_bits y"
  shows "f64_mag x \<le> f64_mag y"
proof (rule ccontr)
  assume "\<not> f64_mag x \<le> f64_mag y"
  then have "f64_mag y \<le> f64_mag x" "f64_mag x \<noteq> f64_mag y" by simp_all
  with f64_round_bits_mono [OF f64_mag_nonneg this(1)] assms
  have "f64_bits x = f64_bits y" by (simp add: f64_round_bits_mag)
  then have "f64_mag x = f64_mag y" by (simp add: f64_mag_def f64_exp_def f64_frac_def)
  with \<open>f64_mag x \<noteq> f64_mag y\<close> show False by simp
qed

lemma nn_mag_mono:
  "f64_nn x \<Longrightarrow> f64_nn y \<Longrightarrow> \<not> f64_is_inf y \<Longrightarrow> f64_key x \<le> f64_key y \<Longrightarrow> f64_mag x \<le> f64_mag y"
  using inf_bits_pos nn_key_le [of y]
  by (intro f64_mag_mono) (auto simp: finite_iff f64_nn_def nn_inf_key nn_key [symmetric] f64_is_inf_def f64_finite_def)

lemma nn_add_key:
  assumes "f64_nn x" and "f64_nn y"
  shows "f64_key (f64_add x y) =
      (if f64_is_inf x \<or> f64_is_inf y then inf_bits else f64_round_bits (f64_mag x + f64_mag y))"
    and "f64_nn (f64_add x y)"
proof -
  have s: "0 \<le> f64_mag x + f64_mag y" by (simp add: f64_mag_nonneg)
  show k: "f64_key (f64_add x y) =
      (if f64_is_inf x \<or> f64_is_inf y then inf_bits else f64_round_bits (f64_mag x + f64_mag y))"
    using assms nn_inf_sign [OF assms(1)] nn_inf_sign [OF assms(2)] s inf_bits_pos
    by (auto simp: f64_add_def Let_def f64_nn_def nn_val nn_inf_key f64_round_parts f64_make_key)
  moreover have "\<not> f64_is_nan (f64_add x y)"
    using assms nn_inf_sign [OF assms(1)] nn_inf_sign [OF assms(2)] s inf_bits_pos
    by (auto simp: f64_add_def Let_def f64_nn_def f64_round_parts f64_make_nan)
  ultimately show "f64_nn (f64_add x y)"
    using f64_round_bits_nonneg [OF s] inf_bits_pos by (simp add: f64_nn_def)
qed

lemma nn_add_mono:
  assumes "f64_nn x" "f64_nn x'" "f64_nn y" "f64_nn y'" and "f64_key x \<le> f64_key x'" "f64_key y \<le> f64_key y'"
  shows "f64_key (f64_add x y) \<le> f64_key (f64_add x' y')"
proof (cases "f64_is_inf x' \<or> f64_is_inf y'")
  case True
  with assms nn_key_le [OF nn_add_key(2) [of x y]] show ?thesis by (simp add: nn_add_key)
next
  case False
  then have "\<not> f64_is_inf x" "\<not> f64_is_inf y"
    using assms nn_key_le [of x'] nn_key_le [of y'] by (auto simp: nn_inf_key)
  with False assms nn_mag_mono [of x x'] nn_mag_mono [of y y'] show ?thesis
    by (simp add: nn_add_key f64_round_bits_mono f64_mag_nonneg add_mono)
qed

lemma finite_nn: "f64_nn x \<Longrightarrow> \<not> f64_is_inf x \<Longrightarrow> f64_finite x"
  by (simp add: f64_nn_def finite_iff)

text \<open>A positive finite constant; multiplying and dividing by it.\<close>

definition f64_positive :: "f64 \<Rightarrow> bool" where
  "f64_positive c \<longleftrightarrow> f64_finite c \<and> \<not> f64_sign c \<and> 0 < f64_bits c"

lemma positive_nn: "f64_positive c \<Longrightarrow> f64_nn c \<and> \<not> f64_is_inf c \<and> \<not> f64_is_zero c"
  by (simp add: f64_positive_def f64_nn_def f64_key_def f64_finite_def f64_is_nan_def f64_is_inf_def
      f64_is_zero_def f64_bits_def inf_bits_def)

lemma nn_mul_key:
  assumes "f64_positive c" and "f64_nn x"
  shows "f64_key (f64_mul c x) = (if f64_is_inf x then inf_bits else f64_round_bits (f64_mag c * f64_mag x))"
    and "f64_nn (f64_mul c x)"
proof -
  have c: "\<not> f64_is_nan c" "\<not> f64_is_inf c" "\<not> f64_is_zero c" "\<not> f64_sign c"
    using assms(1) positive_nn [OF assms(1)] by (simp_all add: f64_nn_def f64_positive_def)
  have x: "\<not> f64_is_nan x" using assms(2) by (simp add: f64_nn_def)
  have s: "f64_sign x \<Longrightarrow> f64_mag x = 0"
    using assms(2) f64_bits_nonneg [of x] by (simp add: f64_nn_def f64_key_def f64_zero_mag)
  have z: "f64_is_inf x \<Longrightarrow> \<not> f64_is_zero x"
    by (simp add: f64_is_inf_def f64_is_zero_def f64_bits_def inf_bits_def)
  show k: "f64_key (f64_mul c x) = (if f64_is_inf x then inf_bits else f64_round_bits (f64_mag c * f64_mag x))"
    using c x s z nn_inf_sign [OF assms(2)] inf_bits_pos f64_mag_nonneg [of c] f64_mag_nonneg [of x]
    by (auto simp: f64_mul_def f64_round_parts f64_make_key abs_mult)
  have "\<not> f64_is_nan (f64_mul c x)"
    using c x s z nn_inf_sign [OF assms(2)] inf_bits_pos
    by (auto simp: f64_mul_def Let_def f64_round_parts f64_make_nan split: if_splits)
  then show "f64_nn (f64_mul c x)"
    using k f64_round_bits_nonneg [of "f64_mag c * f64_mag x"] inf_bits_pos f64_mag_nonneg [of c] f64_mag_nonneg [of x]
    by (simp add: f64_nn_def)
qed

lemma nn_mul_mono:
  assumes "f64_positive c" "f64_nn x" "f64_nn x'" and "f64_key x \<le> f64_key x'"
  shows "f64_key (f64_mul c x) \<le> f64_key (f64_mul c x')"
proof (cases "f64_is_inf x'")
  case True
  with assms nn_key_le [OF nn_mul_key(2) [of c x]] show ?thesis by (simp add: nn_mul_key)
next
  case False
  then have "\<not> f64_is_inf x" using assms nn_key_le [of x'] by (auto simp: nn_inf_key)
  with False assms nn_mag_mono [of x x'] show ?thesis
    by (simp add: nn_mul_key f64_round_bits_mono f64_mag_nonneg mult_left_mono)
qed

lemma nn_div_key:
  assumes "f64_positive c" and "f64_nn x" and "\<not> f64_is_inf x"
  shows "f64_key (f64_div x c) = f64_round_bits (f64_mag x / f64_mag c)"
    and "f64_nn (f64_div x c)"
proof -
  have c: "\<not> f64_is_nan c" "\<not> f64_is_inf c" "\<not> f64_is_zero c" "\<not> f64_sign c"
    using assms(1) positive_nn [OF assms(1)] by (simp_all add: f64_nn_def f64_positive_def)
  have x: "\<not> f64_is_nan x" using assms(2) by (simp add: f64_nn_def)
  have s: "f64_sign x \<Longrightarrow> f64_mag x = 0"
    using assms(2) f64_bits_nonneg [of x] by (simp add: f64_nn_def f64_key_def f64_zero_mag)
  have q: "0 \<le> f64_mag x / f64_mag c" by (simp add: f64_mag_nonneg)
  show k: "f64_key (f64_div x c) = f64_round_bits (f64_mag x / f64_mag c)"
    using c x s assms(3) f64_mag_nonneg [of x] f64_mag_nonneg [of c] by (auto simp: f64_div_def f64_round_parts)
  have "\<not> f64_is_nan (f64_div x c)" using c x assms(3) by (auto simp: f64_div_def f64_round_parts)
  then show "f64_nn (f64_div x c)" using k f64_round_bits_nonneg [OF q] by (simp add: f64_nn_def)
qed

lemma nn_of_int: "0 \<le> i \<Longrightarrow> f64_nn (f64_of_int i) \<and> f64_key (f64_of_int i) = f64_round_bits (of_int i)"
  by (simp add: f64_of_int_def f64_nn_def f64_round_parts f64_round_bits_nonneg)

text \<open>The part of \<open>x - y\<close> above zero, for non-negative floats.\<close>

lemma nn_sub_max_key:
  assumes "f64_nn x" and "f64_nn y" and "\<not> f64_is_inf x" and "\<not> f64_is_inf y"
  shows "f64_key (f64_max (f64_sub x y) 0) = f64_round_bits (max 0 (f64_mag x - f64_mag y))"
    and "f64_nn (f64_max (f64_sub x y) 0)"
proof -
  have b: "0 \<le> f64_bits y" "f64_bits y \<le> inf_bits"
    using f64_bits_nonneg nn_key_le [OF assms(2)] nn_key [OF assms(2)] by simp_all
  have n: "\<not> f64_is_nan (f64_neg y)" "\<not> f64_is_inf (f64_neg y)"
    using assms(4) b by (simp_all add: f64_neg_def f64_make_nan f64_is_inf_def f64_make_parts)
  have mag: "f64_mag (f64_neg y) = f64_mag y"
    using b by (simp add: f64_mag_def f64_exp_def f64_frac_def f64_neg_def f64_make_parts)
  have v: "f64_val (f64_neg y) = - f64_mag y"
    using nn_val [OF assms(2)] b mag by (auto simp: f64_val_def f64_neg_def f64_make_parts)
  let ?s = "f64_mag x - f64_mag y"
  have z: "f64_key 0 = 0" "\<not> f64_is_nan 0" by (simp_all add: f64_key_def f64_bits_def f64_is_nan_def)
  have sub: "\<not> f64_is_nan (f64_sub x y)"
    "f64_key (f64_sub x y) = (if ?s < 0 then - f64_round_bits (- ?s) else f64_round_bits ?s)"
    using assms n inf_bits_pos
    by (auto simp: f64_sub_def f64_add_def f64_nn_def nn_val v Let_def f64_round_parts f64_make_key f64_make_nan)
  show k: "f64_key (f64_max (f64_sub x y) 0) = f64_round_bits (max 0 ?s)"
    using sub z f64_round_bits_nonneg [of ?s] f64_round_bits_nonneg [of "- ?s"] by (auto simp: f64_max_def)
  show "f64_nn (f64_max (f64_sub x y) 0)"
    using sub z k f64_round_bits_nonneg [of "max 0 ?s"] by (auto simp: f64_nn_def f64_max_def)
qed

end
