(* ===== verification/Json_Ops.thy ===== *)
theory Json_Ops
  imports Float64
begin

text \<open>
  The operations of \<open>serde_json::Value\<close> that the sources call: the accessors, the conversions from
  numbers, equality (structural, with \<open>==\<close> on the floats) and the object operations on the sorted
  entries.
\<close>

fun as_i64 :: "json \<Rightarrow> i64 option" where
  "as_i64 (JNumber (PosInt n)) = (if uint n < 2 ^ 63 then Some n else None)"
| "as_i64 (JNumber (NegInt i)) = Some i"
| "as_i64 _ = None"

fun as_f64 :: "json \<Rightarrow> f64 option" where
  "as_f64 (JNumber (PosInt n)) = Some (f64_of_int (uint n))"
| "as_f64 (JNumber (NegInt i)) = Some (f64_of_int (sint i))"
| "as_f64 (JNumber (Float x)) = Some x"
| "as_f64 _ = None"

fun as_str :: "json \<Rightarrow> string option" where
  "as_str (JString s) = Some s"
| "as_str _ = None"

fun as_bool :: "json \<Rightarrow> bool option" where
  "as_bool (JBool b) = Some b"
| "as_bool _ = None"

fun as_array :: "json \<Rightarrow> json list option" where
  "as_array (JArray a) = Some a"
| "as_array _ = None"

fun as_object :: "json \<Rightarrow> (string \<times> json) list option" where
  "as_object (JObject fs) = Some fs"
| "as_object _ = None"

definition json_of_i64 :: "i64 \<Rightarrow> json" where
  "json_of_i64 i = JNumber (if sint i < 0 then NegInt i else PosInt i)"

text \<open>A float that is not finite becomes \<open>null\<close>.\<close>

definition json_of_f64 :: "f64 \<Rightarrow> json" where
  "json_of_f64 x = (if f64_finite x then JNumber (Float x) else JNull)"

fun number_eq :: "json_number \<Rightarrow> json_number \<Rightarrow> bool" where
  "number_eq (Float x) (Float y) = f64_eq x y"
| "number_eq m n = (m = n)"

fun json_eq :: "json \<Rightarrow> json \<Rightarrow> bool"
  and json_eqs :: "json list \<Rightarrow> json list \<Rightarrow> bool"
  and entries_eq :: "(string \<times> json) list \<Rightarrow> (string \<times> json) list \<Rightarrow> bool"
where
  "json_eq (JNumber m) w = (case w of JNumber n \<Rightarrow> number_eq m n | _ \<Rightarrow> False)"
| "json_eq (JArray xs) w = (case w of JArray ys \<Rightarrow> json_eqs xs ys | _ \<Rightarrow> False)"
| "json_eq (JObject xs) w = (case w of JObject ys \<Rightarrow> entries_eq xs ys | _ \<Rightarrow> False)"
| "json_eq v w = (v = w)"
| "json_eqs [] ys = (ys = [])"
| "json_eqs (x # xs) ys = (case ys of [] \<Rightarrow> False | y # ys' \<Rightarrow> json_eq x y \<and> json_eqs xs ys')"
| "entries_eq [] ys = (ys = [])"
| "entries_eq ((k, x) # xs) ys =
     (case ys of [] \<Rightarrow> False | (k', y) # ys' \<Rightarrow> k = k' \<and> json_eq x y \<and> entries_eq xs ys')"

definition obj_get :: "(string \<times> json) list \<Rightarrow> string \<Rightarrow> json option" where
  "obj_get fs k = map_of fs k"

definition obj_remove :: "(string \<times> json) list \<Rightarrow> string \<Rightarrow> (string \<times> json) list" where
  "obj_remove fs k = filter (\<lambda>(k', _). k' \<noteq> k) fs"

fun obj_insert :: "(string \<times> json) list \<Rightarrow> string \<Rightarrow> json \<Rightarrow> (string \<times> json) list" where
  "obj_insert [] k v = [(k, v)]"
| "obj_insert ((k', v') # fs) k v =
     (if k = k' then (k, v) # fs
      else if k < k' then (k, v) # (k', v') # fs
      else (k', v') # obj_insert fs k v)"

text \<open>Values that JSON text can denote: their floats are finite.\<close>

fun json_wf :: "json \<Rightarrow> bool" where
  "json_wf (JNumber (Float x)) = f64_finite x"
| "json_wf (JArray xs) = list_all json_wf xs"
| "json_wf (JObject fs) = list_all (\<lambda>(_, v). json_wf v) fs"
| "json_wf _ = True"

lemma finite_not_nan: "f64_finite x \<Longrightarrow> \<not> f64_is_nan x"
  by (simp add: f64_finite_def f64_is_nan_def f64_bits_def inf_bits_def)

lemma f64_eq_refl: "f64_finite x \<Longrightarrow> f64_eq x x"
  by (simp add: f64_eq_def finite_not_nan)

lemma json_eqs_refl: "(\<And>x. x \<in> set xs \<Longrightarrow> json_eq x x) \<Longrightarrow> json_eqs xs xs"
  by (induction xs) auto

lemma entries_eq_refl: "(\<And>p. p \<in> set fs \<Longrightarrow> json_eq (snd p) (snd p)) \<Longrightarrow> entries_eq fs fs"
proof (induction fs)
  case (Cons p fs)
  from Cons.prems [of p] Cons show ?case by (cases p) simp
qed simp

lemma json_eq_refl: "json_wf v \<Longrightarrow> json_eq v v"
proof (induction v)
  case (JNumber n)
  then show ?case by (cases n) (simp_all add: f64_eq_refl)
next
  case (JArray xs)
  then show ?case by (auto simp: list_all_iff intro!: json_eqs_refl)
next
  case (JObject fs)
  then show ?case by (fastforce simp: list_all_iff intro!: entries_eq_refl)
qed simp_all

end
