(* ===== verification/Shrink.thy ===== *)
theory Shrink
  imports Json_Ops Execution_Record Rust_Strings "HOL-Library.Signed_Division"
begin

text \<open>
  Witness shrinking (\<open>shatter-core/src/shrink.rs\<close>): the candidates by type, and the three-phase search
  for simpler inputs that still take the target path.

  Two things are parameters: the executor, a function that may have state (the source takes a
  \<open>FnMut\<close>), and the standard library's \<open>DefaultHasher\<close>,
  whose algorithm its documentation leaves open, as a function of the sequence of values fed to it. Numbers
  of type \<open>usize\<close> that can saturate are bounded by \<open>2 ^ 64 - 1\<close> where the source saturates.
\<close>

section \<open>Complexity\<close>

definition usize_sat_add :: "usize \<Rightarrow> usize \<Rightarrow> usize" where
  "usize_sat_add a b = min (a + b) (2 ^ 64 - 1)"

fun number_complexity :: "json_number \<Rightarrow> usize" where
  "number_complexity n =
     (case as_i64 (JNumber n) of
        Some i \<Rightarrow> nat \<bar>sint i\<bar>
      | None \<Rightarrow>
          (case as_f64 (JNumber n) of
             Some f \<Rightarrow> f64_to_usize (f64_abs f)
           | None \<Rightarrow> 1))"

fun value_complexity :: "json \<Rightarrow> usize"
  and sum_complexity :: "usize \<Rightarrow> json list \<Rightarrow> usize"
  and sum_entries :: "usize \<Rightarrow> (string \<times> json) list \<Rightarrow> usize"
where
  "value_complexity JNull = 0"
| "value_complexity (JBool b) = 1"
| "value_complexity (JNumber n) = number_complexity n"
| "value_complexity (JString s) = length s"
| "value_complexity (JArray arr) = sum_complexity (length arr) arr"
| "value_complexity (JObject obj) = sum_entries (length obj) obj"
| "sum_complexity acc [] = acc"
| "sum_complexity acc (v # vs) = sum_complexity (usize_sat_add acc (value_complexity v)) vs"
| "sum_entries acc [] = acc"
| "sum_entries acc ((_, v) # fs) = sum_entries (usize_sat_add acc (value_complexity v)) fs"

definition witness_complexity :: "json list \<Rightarrow> usize" where
  "witness_complexity inputs = sum_complexity 0 inputs"

section \<open>Policies\<close>

definition SHRINK_SKIP_THRESHOLD :: usize where "SHRINK_SKIP_THRESHOLD = 0"
definition SHRINK_TRIVIAL_THRESHOLD :: usize where "SHRINK_TRIVIAL_THRESHOLD = 4"
definition SHRINK_MODERATE_THRESHOLD :: usize where "SHRINK_MODERATE_THRESHOLD = 20"
definition MIN_SHRINK_BUDGET :: usize where "MIN_SHRINK_BUDGET = 3"

definition should_shrink_path :: "usize \<Rightarrow> bool" where
  "should_shrink_path complexity = (complexity > SHRINK_SKIP_THRESHOLD)"

definition shrink_budget_for_witness :: "usize \<Rightarrow> usize \<Rightarrow> usize" where
  "shrink_budget_for_witness complexity base_budget =
     (if complexity \<le> SHRINK_TRIVIAL_THRESHOLD then min MIN_SHRINK_BUDGET base_budget
      else if complexity \<le> SHRINK_MODERATE_THRESHOLD then
        min (max (base_budget div 2) MIN_SHRINK_BUDGET) base_budget
      else base_budget)"

record shrink_stats =
  st_paths_considered :: usize
  st_paths_skipped_simple :: usize
  st_paths_shrunk :: usize
  st_total_shrink_attempts :: usize
  st_total_budget_assigned :: usize

definition shrink_stats_merge :: "shrink_stats \<Rightarrow> shrink_stats \<Rightarrow> shrink_stats" where
  "shrink_stats_merge a b =
     \<lparr>st_paths_considered = st_paths_considered a + st_paths_considered b,
      st_paths_skipped_simple = st_paths_skipped_simple a + st_paths_skipped_simple b,
      st_paths_shrunk = st_paths_shrunk a + st_paths_shrunk b,
      st_total_shrink_attempts = st_total_shrink_attempts a + st_total_shrink_attempts b,
      st_total_budget_assigned = st_total_budget_assigned a + st_total_budget_assigned b\<rparr>"

section \<open>Candidates\<close>

definition SHRINK_INT_ZERO :: i64 where "SHRINK_INT_ZERO = 0"
definition SHRINK_INT_ONE :: i64 where "SHRINK_INT_ONE = 1"
definition SHRINK_INT_NEG_ONE :: i64 where "SHRINK_INT_NEG_ONE = -1"
definition SHRINK_FLOAT_ZERO :: f64 where "SHRINK_FLOAT_ZERO = 0"
definition SHRINK_FLOAT_ONE :: f64 where "SHRINK_FLOAT_ONE = 0x3FF0000000000000"
definition SHRINK_FLOAT_NEG_ONE :: f64 where "SHRINK_FLOAT_NEG_ONE = 0xBFF0000000000000"

definition shrink_int :: "json \<Rightarrow> json list" where
  "shrink_int v =
     (case as_i64 v of
        None \<Rightarrow> [json_of_i64 SHRINK_INT_ZERO]
      | Some n \<Rightarrow>
          (if n \<noteq> 0 then [json_of_i64 (word_of_int (sint n sdiv 2))] else []) @
          [json_of_i64 SHRINK_INT_ZERO, json_of_i64 SHRINK_INT_ONE, json_of_i64 SHRINK_INT_NEG_ONE])"

definition shrink_float :: "json \<Rightarrow> json list" where
  "shrink_float v =
     (case as_f64 v of
        None \<Rightarrow> [json_of_f64 SHRINK_FLOAT_ZERO]
      | Some n \<Rightarrow>
          (if f64_eq n 0 then [] else [json_of_f64 (f64_div n 0x4000000000000000)]) @
          [json_of_f64 SHRINK_FLOAT_ZERO, json_of_f64 SHRINK_FLOAT_ONE, json_of_f64 SHRINK_FLOAT_NEG_ONE])"

definition shrink_string :: "json \<Rightarrow> json list" where
  "shrink_string v =
     (case as_str v of
        None \<Rightarrow> [JString []]
      | Some s \<Rightarrow>
          (let cs = utf8_chars s
           in (if s \<noteq> [] then [JString (concat (take (length cs - 1) cs))] else []) @
              (if length cs > 1 then [JString (concat (drop 1 cs))] else []) @
              [JString []] @
              (if length cs > 1 then [JString (hd cs)] else [])))"

definition shrink_bool :: "json \<Rightarrow> json list" where
  "shrink_bool v = (case as_bool v of Some True \<Rightarrow> [JBool False] | _ \<Rightarrow> [])"

fun dedup_values :: "json list \<Rightarrow> json list \<Rightarrow> json list" where
  "dedup_values seen [] = []"
| "dedup_values seen (v # vs) =
     (if list_ex (\<lambda>u. json_eq u v) seen then dedup_values seen vs
      else v # dedup_values (seen @ [v]) vs)"

definition clean_candidates :: "json \<Rightarrow> json list \<Rightarrow> json list" where
  "clean_candidates value candidates = dedup_values [] (filter (\<lambda>c. \<not> json_eq c value) candidates)"

definition remove_fields :: "(string \<times> json) list \<Rightarrow> (string \<times> type_info) list \<Rightarrow> json list" where
  "remove_fields obj flds =
     List.map_filter (\<lambda>(name, _). if obj_get obj name \<noteq> None then Some (JObject (obj_remove obj name)) else None) flds"

definition replace_elements :: "(json \<Rightarrow> json list) \<Rightarrow> json list \<Rightarrow> json list" where
  "replace_elements candidates arr =
     concat (map (\<lambda>(i, elem). map (\<lambda>shrunk. JArray (arr[i := shrunk])) (candidates elem)) (enumerate 0 arr))"

definition shrink_array :: "(json \<Rightarrow> json list) \<Rightarrow> json \<Rightarrow> json list" where
  "shrink_array candidates v =
     (case as_array v of
        None \<Rightarrow> [JArray []]
      | Some arr \<Rightarrow>
          if arr = [] then []
          else (if length arr > 1 then [JArray (take (length arr - 1) arr)] else []) @
               (if length arr > 1 then [JArray (drop 1 arr)] else []) @
               [JArray []] @
               replace_elements candidates arr)"

fun shrink_candidates :: "type_info \<Rightarrow> json \<Rightarrow> json list"
  and shrink_fields :: "(string \<times> type_info) list \<Rightarrow> (string \<times> json) list \<Rightarrow> json list"
  and shrink_union :: "type_info list \<Rightarrow> json \<Rightarrow> json list"
where
  "shrink_candidates (TInt w sg) v = clean_candidates v (shrink_int v)"
| "shrink_candidates TFloat v = clean_candidates v (shrink_float v)"
| "shrink_candidates TStr v = clean_candidates v (shrink_string v)"
| "shrink_candidates TBool v = clean_candidates v (shrink_bool v)"
| "shrink_candidates (TArray element) v =
     clean_candidates v (shrink_array (\<lambda>elem. shrink_candidates element elem) v)"
| "shrink_candidates (TObject flds) v =
     clean_candidates v
       (case as_object v of
          None \<Rightarrow> []
        | Some obj \<Rightarrow> remove_fields obj flds @ shrink_fields flds obj)"
| "shrink_candidates (TNullable inner) v =
     clean_candidates v (JNull # (if v = JNull then [] else shrink_candidates inner v))"
| "shrink_candidates (TUnion variants samples) v = clean_candidates v (shrink_union variants v)"
| "shrink_candidates (TComplex kind attrs inner) v = clean_candidates v []"
| "shrink_candidates (TOpaque name sr mr) v = clean_candidates v []"
| "shrink_candidates TUnknown v = clean_candidates v []"
| "shrink_fields [] obj = []"
| "shrink_fields ((name, ft) # flds) obj =
     (case obj_get obj name of
        None \<Rightarrow> []
      | Some fv \<Rightarrow> map (\<lambda>x. JObject (obj_insert obj name x)) (shrink_candidates ft fv)) @
     shrink_fields flds obj"
| "shrink_union [] v = []"
| "shrink_union (variant # variants) v = shrink_candidates variant v @ shrink_union variants v"

section \<open>The search\<close>

record shrink_result =
  sk_inputs :: "json list"
  sk_attempts :: usize
  sk_shrunk :: bool

type_synonym 's executor = "'s \<Rightarrow> json list \<Rightarrow> execute_result option \<times> 's"
type_synonym path_hash = "(u32 \<times> bool) list \<Rightarrow> u64"

definition hash_branch_path :: "path_hash \<Rightarrow> branch_decision list \<Rightarrow> u64" where
  "hash_branch_path h branch_path = h (map (\<lambda>d. (bd_branch_id d, bd_taken d)) branch_path)"

text \<open>One execution: whether the trial takes the target path (an error rejects it), and the executor's next state.\<close>

definition try_trial :: "'s executor \<Rightarrow> path_hash \<Rightarrow> u64 \<Rightarrow> json list \<Rightarrow> 's \<Rightarrow> bool \<times> 's" where
  "try_trial exec h target trial s =
     (case exec s trial of
        (Some result, s') \<Rightarrow> (hash_branch_path h (xr_branch_path result) = target, s')
      | (None, s') \<Rightarrow> (False, s'))"

definition simpler_candidate :: "json \<Rightarrow> type_info \<Rightarrow> json option" where
  "simpler_candidate v t = find (\<lambda>c. value_complexity c < value_complexity v) (shrink_candidates t v)"

definition bulk_shrink_candidate :: "json list \<Rightarrow> param_info list \<Rightarrow> json list option" where
  "bulk_shrink_candidate inputs param_infos =
     (let n = min (length param_infos) (length inputs);
          picks = map (\<lambda>i. simpler_candidate (inputs ! i) (pi_typ (param_infos ! i))) [0..<n];
          trial = map (\<lambda>i. if i < n then (case picks ! i of Some c \<Rightarrow> c | None \<Rightarrow> inputs ! i) else inputs ! i)
                    [0..<length inputs]
      in if list_ex (\<lambda>p. p \<noteq> None) picks then Some trial else None)"

definition group_trial :: "json list \<Rightarrow> param_info list \<Rightarrow> nat \<Rightarrow> nat \<Rightarrow> json list option" where
  "group_trial inputs param_infos gi group_end =
     (let picks = map (\<lambda>j. (j, shrink_candidates (pi_typ (param_infos ! j)) (inputs ! j))) [gi..<group_end]
      in if list_ex (\<lambda>(_, cs). cs \<noteq> []) picks
         then Some (fold (\<lambda>(j, cs) t. case cs of [] \<Rightarrow> t | c # _ \<Rightarrow> t[j := c]) picks inputs)
         else None)"

function group_trials :: "json list \<Rightarrow> param_info list \<Rightarrow> nat \<Rightarrow> nat \<Rightarrow> nat \<Rightarrow> json list list" where
  "group_trials inputs param_infos group_size n gi =
     (if gi < n \<and> group_size \<noteq> 0 then
        (case group_trial inputs param_infos gi (min (gi + group_size) n) of
           Some trial \<Rightarrow> [trial]
         | None \<Rightarrow> []) @ group_trials inputs param_infos group_size n (gi + group_size)
      else [])"
  by pat_completeness auto
termination
  by (relation "measure (\<lambda>(_, _, _, n, gi). n - gi)") auto

declare group_trials.simps [simp del]

definition grouped_shrink_candidates :: "json list \<Rightarrow> param_info list \<Rightarrow> nat \<Rightarrow> json list list" where
  "grouped_shrink_candidates inputs param_infos group_size =
     (let n = min (length param_infos) (length inputs)
      in if n = 0 \<or> group_size = 0 then [] else group_trials inputs param_infos group_size n 0)"

text \<open>
  A phase works on the current inputs, the attempts so far and the executor's state. The flag of its
  result says whether the source returned from inside the loop.
\<close>

type_synonym 's search = "json list \<times> usize \<times> 's"

definition bulk_phase ::
    "'s executor \<Rightarrow> path_hash \<Rightarrow> u64 \<Rightarrow> usize \<Rightarrow> param_info list \<Rightarrow> 's search \<Rightarrow> bool \<times> 's search" where
  "bulk_phase exec h target max_attempts param_infos = (\<lambda>(current, attempts, s).
     if attempts < max_attempts then
       (case bulk_shrink_candidate current param_infos of
          None \<Rightarrow> (False, current, attempts, s)
        | Some trial \<Rightarrow>
            (case try_trial exec h target trial s of
               (True, s') \<Rightarrow> (True, trial, attempts + 1, s')
             | (False, s') \<Rightarrow> (False, current, attempts + 1, s')))
     else (False, current, attempts, s))"

fun grouped_phase ::
    "'s executor \<Rightarrow> path_hash \<Rightarrow> u64 \<Rightarrow> usize \<Rightarrow> json list list \<Rightarrow> 's search \<Rightarrow> bool \<times> 's search" where
  "grouped_phase exec h target max_attempts [] (current, attempts, s) = (False, current, attempts, s)"
| "grouped_phase exec h target max_attempts (trial # trials) (current, attempts, s) =
     (if attempts \<ge> max_attempts then (True, current, attempts, s)
      else
        (case try_trial exec h target trial s of
           (ok, s') \<Rightarrow>
             grouped_phase exec h target max_attempts trials (if ok then trial else current, attempts + 1, s')))"

datatype step_result = Returned | Progress | Exhausted

fun try_candidates ::
    "'s executor \<Rightarrow> path_hash \<Rightarrow> u64 \<Rightarrow> usize \<Rightarrow> nat \<Rightarrow> json list \<Rightarrow> 's search \<Rightarrow> step_result \<times> 's search" where
  "try_candidates exec h target max_attempts i [] (current, attempts, s) = (Exhausted, current, attempts, s)"
| "try_candidates exec h target max_attempts i (candidate # candidates) (current, attempts, s) =
     (if attempts \<ge> max_attempts then (Returned, current, attempts, s)
      else
        (case try_trial exec h target (current[i := candidate]) s of
           (True, s') \<Rightarrow> (Progress, current[i := candidate], attempts + 1, s')
         | (False, s') \<Rightarrow> try_candidates exec h target max_attempts i candidates (current, attempts + 1, s')))"

text \<open>One pass over the parameters: returned from inside, and whether a candidate was accepted.\<close>

fun param_pass ::
    "'s executor \<Rightarrow> path_hash \<Rightarrow> u64 \<Rightarrow> usize \<Rightarrow> param_info list \<Rightarrow> nat list \<Rightarrow> bool \<Rightarrow> 's search
     \<Rightarrow> bool \<times> bool \<times> 's search" where
  "param_pass exec h target max_attempts param_infos [] progress st = (False, progress, st)"
| "param_pass exec h target max_attempts param_infos (i # is) progress st =
     (case try_candidates exec h target max_attempts i
             (shrink_candidates (pi_typ (param_infos ! i)) (fst st ! i)) st of
        (Returned, st') \<Rightarrow> (True, progress, st')
      | (r, st') \<Rightarrow>
          let progress' = (r = Progress \<or> progress)
          in if fst (snd st') \<ge> max_attempts then (False, progress', st')
             else param_pass exec h target max_attempts param_infos is progress' st')"

lemma try_candidates_attempts:
  "try_candidates exec h target mx i cs (cur, a, s) = (r, cur', a', s') \<Longrightarrow> a \<le> a' \<and> (r = Progress \<longrightarrow> a < a')"
  by (induction cs arbitrary: a s) (force split: if_splits prod.splits bool.splits)+

lemma param_pass_attempts:
  "param_pass exec h target mx ps is p (cur, a, s) = (ret, p', cur', a', s') \<Longrightarrow>
     a \<le> a' \<and> (p' \<longrightarrow> p \<or> a < a')"
proof (induction "is" arbitrary: cur a s p)
  case (Cons i "is")
  obtain r cur1 a1 s1 where t: "try_candidates exec h target mx i
      (shrink_candidates (pi_typ (ps ! i)) (cur ! i)) (cur, a, s) = (r, cur1, a1, s1)" by (metis prod_cases4)
  from try_candidates_attempts [OF t] Cons t show ?case
    by (cases r) (auto simp: Let_def split: if_splits dest!: Cons.IH)
qed simp

function shrink_loop ::
    "'s executor \<Rightarrow> path_hash \<Rightarrow> u64 \<Rightarrow> usize \<Rightarrow> param_info list \<Rightarrow> 's search \<Rightarrow> 's search" where
  "shrink_loop exec h target max_attempts param_infos st =
     (if fst (snd st) < max_attempts then
        (case param_pass exec h target max_attempts param_infos
                [0..<min (length param_infos) (length (fst st))] False st of
           (returned, progress, st') \<Rightarrow>
             if \<not> returned \<and> progress then shrink_loop exec h target max_attempts param_infos st' else st')
      else st)"
  by pat_completeness auto
termination
proof (relation "measure (\<lambda>(_, _, _, mx, _, st). mx - fst (snd st))", goal_cases)
  case (2 exec h target mx ps st ret y prog st')
  obtain cur a s where st: "st = (cur, a, s)" by (cases st)
  obtain cur' a' s' where st': "st' = (cur', a', s')" by (cases st')
  have "param_pass exec h target mx ps [0..<min (length ps) (length cur)] False (cur, a, s) = (ret, prog, cur', a', s')"
    using 2(2,3) by (simp add: st st')
  from param_pass_attempts [OF this] 2 show ?case by (simp add: st st' diff_less_mono2)
qed simp

declare shrink_loop.simps [simp del]

definition finish :: "json list \<Rightarrow> 's search \<Rightarrow> shrink_result \<times> 's" where
  "finish original = (\<lambda>(current, attempts, s).
     (\<lparr>sk_inputs = current, sk_attempts = attempts, sk_shrunk = (\<not> json_eqs current original)\<rparr>, s))"

definition shrink_witness ::
    "'s executor \<Rightarrow> path_hash \<Rightarrow> json list \<Rightarrow> param_info list \<Rightarrow> u64 \<Rightarrow> usize \<Rightarrow> 's \<Rightarrow> shrink_result \<times> 's" where
  "shrink_witness exec h inputs param_infos target max_attempts s =
     (case bulk_phase exec h target max_attempts param_infos (inputs, 0, s) of
        (bulk_accepted, st1) \<Rightarrow>
          (let n = min (length param_infos) (length (fst st1));
               (returned, st2) =
                 (if \<not> bulk_accepted \<and> n \<ge> 3 \<and> fst (snd st1) < max_attempts then
                    grouped_phase exec h target max_attempts
                      (grouped_shrink_candidates (fst st1) param_infos (n div 2)) st1
                  else (False, st1))
           in if returned then finish inputs st2
              else finish inputs (shrink_loop exec h target max_attempts param_infos st2)))"

section \<open>What the search guarantees\<close>

text \<open>An input vector the executor was seen to take along the target path.\<close>

definition accepted :: "'s executor \<Rightarrow> path_hash \<Rightarrow> u64 \<Rightarrow> json list \<Rightarrow> bool" where
  "accepted exec h target trial \<longleftrightarrow>
     (\<exists>s r. fst (exec s trial) = Some r \<and> hash_branch_path h (xr_branch_path r) = target)"

lemma try_trial_accepted: "try_trial exec h target trial s = (True, s') \<Longrightarrow> accepted exec h target trial"
  by (cases "exec s trial") (auto simp: try_trial_def accepted_def intro!: exI [of _ s] split: option.splits)

lemma try_trial_state: "try_trial exec h target trial s = (b, s') \<Longrightarrow> s' = snd (exec s trial)"
  by (auto simp: try_trial_def split: prod.splits option.splits)

lemma fold_update_length:
  "length (fold (\<lambda>(j, cs) t. case cs of [] \<Rightarrow> t | c # _ \<Rightarrow> t[j := c]) picks xs) = length xs"
  by (induction picks arbitrary: xs) (auto split: list.split)

lemma bulk_shrink_candidate_length: "bulk_shrink_candidate xs ps = Some t \<Longrightarrow> length t = length xs"
  by (auto simp: bulk_shrink_candidate_def Let_def split: if_splits)

lemma group_trials_length: "t \<in> set (group_trials xs ps g n gi) \<Longrightarrow> length t = length xs"
proof (induction xs ps g n gi rule: group_trials.induct)
  case (1 xs ps g n gi)
  then show ?case
    by (subst (asm) (2) group_trials.simps)
      (auto simp: group_trial_def Let_def fold_update_length split: if_splits option.splits)
qed

lemma grouped_shrink_candidates_length: "t \<in> set (grouped_shrink_candidates xs ps g) \<Longrightarrow> length t = length xs"
  by (auto simp: grouped_shrink_candidates_def Let_def group_trials_length split: if_splits)

text \<open>
  The invariant of the search: the current inputs are the original ones or were accepted, and the
  attempts count the calls of the executor within the budget.
\<close>

locale counted_executor =
  fixes exec :: "'s executor" and calls :: "'s \<Rightarrow> nat"
  assumes counts: "calls (snd (exec s trial)) = Suc (calls s)"
begin

definition search_ok :: "path_hash \<Rightarrow> u64 \<Rightarrow> json list \<Rightarrow> nat \<Rightarrow> nat \<Rightarrow> 's search \<Rightarrow> bool" where
  "search_ok h target original mx c0 = (\<lambda>(cur, a, s).
     length cur = length original \<and> a \<le> mx \<and> calls s = c0 + a \<and> (cur = original \<or> accepted exec h target cur))"

lemma search_step:
  assumes "search_ok h target original mx c0 (cur, a, s)" and "a < mx" and "length trial = length original"
    and "try_trial exec h target trial s = (ok, s')"
  shows "search_ok h target original mx c0 (if ok then trial else cur, a + 1, s')"
  using assms try_trial_state [OF assms(4)] try_trial_accepted [of exec h target trial s s'] counts
  by (auto simp: search_ok_def)

lemma grouped_phase_ok:
  assumes "search_ok h target original mx c0 (cur, a, s)" and "\<And>t. t \<in> set trials \<Longrightarrow> length t = length original"
  shows "search_ok h target original mx c0 (snd (grouped_phase exec h target mx trials (cur, a, s)))"
  using assms
proof (induction trials arbitrary: cur a s)
  case (Cons t trials)
  obtain ok s' where t: "try_trial exec h target t s = (ok, s')" by (cases "try_trial exec h target t s")
  show ?case
  proof (cases "a \<ge> mx")
    case False
    with search_step [OF Cons.prems(1) _ _ t] Cons.prems(2) Cons.IH t show ?thesis by simp
  qed (use Cons.prems in simp)
qed simp

lemma try_candidates_ok:
  assumes "search_ok h target original mx c0 (cur, a, s)"
  shows "search_ok h target original mx c0 (snd (try_candidates exec h target mx i cs (cur, a, s)))"
  using assms
proof (induction cs arbitrary: a s)
  case (Cons c cs)
  obtain ok s' where t: "try_trial exec h target (cur[i := c]) s = (ok, s')"
    by (cases "try_trial exec h target (cur[i := c]) s")
  show ?case
  proof (cases "a \<ge> mx")
    case False
    moreover have "length (cur[i := c]) = length original" using Cons.prems by (simp add: search_ok_def)
    ultimately have "search_ok h target original mx c0 (if ok then cur[i := c] else cur, a + 1, s')"
      using search_step [OF Cons.prems _ _ t] by simp
    with False Cons.IH t show ?thesis by (cases ok) simp_all
  qed (use Cons.prems in simp)
qed simp

lemma param_pass_ok:
  assumes "search_ok h target original mx c0 st"
  shows "search_ok h target original mx c0 (snd (snd (param_pass exec h target mx ps is p st)))"
  using assms
proof (induction "is" arbitrary: p st)
  case (Cons i "is")
  obtain cur a s where st: "st = (cur, a, s)" by (cases st)
  obtain r st' where t: "try_candidates exec h target mx i (shrink_candidates (pi_typ (ps ! i)) (fst st ! i)) st = (r, st')"
    by (cases "try_candidates exec h target mx i (shrink_candidates (pi_typ (ps ! i)) (fst st ! i)) st")
  have "search_ok h target original mx c0 st'"
    using try_candidates_ok [of h target original mx c0 cur a s i] Cons.prems t st by (metis snd_conv)
  with Cons.IH t show ?case by (cases r) (simp_all add: Let_def)
qed simp

lemma shrink_loop_ok:
  assumes "search_ok h target original mx c0 st"
  shows "search_ok h target original mx c0 (shrink_loop exec h target mx ps st)"
  using assms
proof (induction e \<equiv> exec h target mx ps st rule: shrink_loop.induct)
  case (1 h target mx ps st)
  let ?pass = "param_pass exec h target mx ps [0..<min (length ps) (length (fst st))] False st"
  obtain ret prog st' where p: "?pass = (ret, prog, st')" by (cases ?pass)
  have "search_ok h target original mx c0 st'"
    using param_pass_ok [OF 1(2), of ps "[0..<min (length ps) (length (fst st))]" False] by (simp add: p)
  with 1(1) [OF _ p [symmetric] refl] 1(2) show ?case
    by (subst shrink_loop.simps) (simp add: p)
qed

lemma bulk_phase_ok:
  assumes "search_ok h target original mx c0 st"
  shows "search_ok h target original mx c0 (snd (bulk_phase exec h target mx ps st))"
proof -
  obtain cur a s where st: "st = (cur, a, s)" by (cases st)
  show ?thesis
  proof (cases "a < mx \<and> bulk_shrink_candidate cur ps \<noteq> None")
    case True
    then obtain trial where b: "bulk_shrink_candidate cur ps = Some trial" and a: "a < mx" by auto
    have l: "length trial = length original"
      using bulk_shrink_candidate_length [OF b] assms by (simp add: search_ok_def st)
    obtain ok s' where t: "try_trial exec h target trial s = (ok, s')" by (cases "try_trial exec h target trial s")
    from search_step [OF assms [unfolded st] a l t] show ?thesis
      by (cases ok) (simp_all add: bulk_phase_def st a b t)
  qed (use assms in \<open>auto simp: bulk_phase_def st\<close>)
qed

lemma shrink_witness_ok:
  "\<exists>st. shrink_witness exec h inputs ps target mx s = finish inputs st \<and> search_ok h target inputs mx (calls s) st"
proof -
  have start: "search_ok h target inputs mx (calls s) (inputs, 0, s)" by (simp add: search_ok_def)
  obtain b cur a s1 where b: "bulk_phase exec h target mx ps (inputs, 0, s) = (b, cur, a, s1)"
    by (metis prod_cases4)
  have ok1: "search_ok h target inputs mx (calls s) (cur, a, s1)" using bulk_phase_ok [OF start, of ps] by (simp add: b)
  let ?g = "grouped_phase exec h target mx
    (grouped_shrink_candidates cur ps (min (length ps) (length cur) div 2)) (cur, a, s1)"
  have ok2: "search_ok h target inputs mx (calls s) (snd ?g)"
    by (rule grouped_phase_ok [OF ok1]) (use ok1 grouped_shrink_candidates_length in \<open>auto simp: search_ok_def\<close>)
  obtain ret st2 where g: "?g = (ret, st2)" by (cases ?g)
  show ?thesis
    unfolding shrink_witness_def b
    using ok1 ok2 shrink_loop_ok [OF ok1, of ps] shrink_loop_ok [OF ok2, of ps]
    by (auto simp: Let_def g simp del: split_paired_Ex)
qed

end

text \<open>An executor that also counts its calls, and the search over it.\<close>

definition counting :: "'s executor \<Rightarrow> (nat \<times> 's) executor" where
  "counting exec = (\<lambda>(k, s) trial. case exec s trial of (r, s') \<Rightarrow> (r, k + 1, s'))"

interpretation counting: counted_executor "counting exec" fst for exec :: "'s executor"
  by unfold_locales (simp add: counting_def split: prod.splits)

lemma counting_fst [simp]: "fst (counting exec (k, s) trial) = fst (exec s trial)"
  by (simp add: counting_def split: prod.splits)

lemma accepted_counting [simp]: "accepted (counting exec) h target trial \<longleftrightarrow> accepted exec h target trial"
  by (simp add: accepted_def)

text \<open>C12: Shrinking a witness calls the executor exactly as often as the result says, never more
  often than the budget allows, keeps the number of inputs, and the inputs it returns are the
  original ones or inputs for which the executor returned a record of the target path.\<close>

theorem shrink_witness_sound:
  "case shrink_witness (counting exec) h inputs param_infos target max_attempts (0, s) of
     (r, calls, s') \<Rightarrow>
       sk_attempts r = calls \<and> calls \<le> max_attempts \<and> length (sk_inputs r) = length inputs \<and>
       (sk_inputs r = inputs \<or> accepted exec h target (sk_inputs r))"
  using counting.shrink_witness_ok [of exec h inputs param_infos target max_attempts "(0, s)"]
  by (auto simp: finish_def counting.search_ok_def)

text \<open>A function whose path does not depend on its input accepts every trial.\<close>

definition insensitive :: "'s executor" where
  "insensitive = (\<lambda>s trial. (Some default_result, s))"

lemma insensitive_trial [simp]: "try_trial insensitive h (h []) trial s = (True, s)"
  by (simp add: try_trial_def insensitive_def default_result_def hash_branch_path_def)

lemma shrink_candidates_zero:
  "shrink_candidates (TInt w sg) (json_of_i64 0) = [json_of_i64 1, json_of_i64 (- 1)]"
  unfolding shrink_candidates.simps by code_simp

lemma shrink_candidates_one:
  "shrink_candidates (TInt w sg) (json_of_i64 1) = [json_of_i64 0, json_of_i64 (- 1)]"
  unfolding shrink_candidates.simps by code_simp

lemma no_simpler_than_zero: "simpler_candidate (json_of_i64 0) (TInt w sg) = None"
  unfolding simpler_candidate_def shrink_candidates_zero by code_simp

lemma int_pass_insensitive:
  assumes "a < mx" and "pi_typ p = TInt w sg" and "shrink_candidates (TInt w sg) v = c # cs"
  shows "param_pass insensitive h (h []) mx [p] [0..<min (length [p]) (length [v])] False ([v], a, s)
           = (False, True, [c], a + 1, s)"
  using assms by (simp add: Let_def)

lemma zero_loop:
  assumes "pi_typ p = TInt w sg" and "a \<le> mx"
  shows "shrink_loop insensitive h (h []) mx [p] ([json_of_i64 (if even a then 0 else 1)], a, s)
           = ([json_of_i64 (if even mx then 0 else 1)], mx, s)"
  using assms(2)
proof (induction "mx - a" arbitrary: a)
  case 0
  then show ?case by (subst shrink_loop.simps) simp
next
  case (Suc k)
  have lt: "a < mx" using Suc.hyps(2) by simp
  have step: "param_pass insensitive h (h []) mx [p] [0..<min (length [p]) (length [v])] False ([v], a, s)
      = (False, True, [json_of_i64 (if even (a + 1) then 0 else 1)], a + 1, s)"
    if "v = json_of_i64 (if even a then 0 else 1)" for v
    using int_pass_insensitive [OF lt assms(1) shrink_candidates_zero]
      int_pass_insensitive [OF lt assms(1) shrink_candidates_one] that by (cases "even a") simp_all
  show ?case
    using Suc.hyps(1) [of "a + 1"] Suc.hyps(2) lt step [OF refl] by (subst shrink_loop.simps) simp
qed

text \<open>C39: An integer input that is already zero is not left alone: over a function whose path does
  not depend on its input the search spends the whole budget alternating between 1 and 0, and an
  odd budget returns 1, a more complex witness than the one it was given.\<close>

theorem shrink_zero_oscillates:
  "shrink_witness insensitive h [json_of_i64 0] [\<lparr>pi_name = x, pi_typ = TInt w sg, pi_type_name = tn\<rparr>] (h []) mx s =
     (\<lparr>sk_inputs = [json_of_i64 (if even mx then 0 else 1)], sk_attempts = mx, sk_shrunk = odd mx\<rparr>, s)"
proof -
  let ?p = "\<lparr>pi_name = x, pi_typ = TInt w sg, pi_type_name = tn\<rparr>"
  have bulk: "bulk_shrink_candidate [json_of_i64 0] [?p] = None"
    by (simp add: bulk_shrink_candidate_def no_simpler_than_zero)
  have eq: "json_eqs [json_of_i64 0] [json_of_i64 0]" "\<not> json_eqs [json_of_i64 1] [json_of_i64 0]" by code_simp+
  have phase: "bulk_phase insensitive h (h []) mx [?p] ([json_of_i64 0], 0, s) = (False, [json_of_i64 0], 0, s)"
    by (simp add: bulk_phase_def bulk)
  from zero_loop [of ?p w sg 0 mx h s] eq show ?thesis
    by (simp add: shrink_witness_def phase finish_def)
qed

end
