(* ===== verification/Loop_Analysis.thy ===== *)
theory Loop_Analysis
  imports Execution_Record Rust_Strings
begin

text \<open>
  Loop constraint rewriting (\<open>shatter-core/src/loop_analysis.rs\<close>): collapsing the repeated backedge
  constraints of a counted loop into one direct constraint on its induction variable, and merging
  them into an if-then-else chain over a free iteration variable.

  Both passes iterate over hash maps. The order of iteration is a parameter, a function from the
  keys of a map to the list in which they are visited; \<open>is_order\<close> is what the standard library
  promises of it.
\<close>

section \<open>Iteration counts\<close>

fun count_events :: "trace_event list \<Rightarrow> (u32, u32) fmap \<Rightarrow> (u32, u32) fmap" where
  "count_events [] counts = counts"
| "count_events (event # events) counts =
     (case event of
        TeScope (LoopEnter loop_id) \<Rightarrow>
          count_events events (fmupd loop_id (fm_get_or counts loop_id 0 + 1) counts)
      | _ \<Rightarrow> count_events events counts)"

definition count_loop_iterations :: "execute_result \<Rightarrow> (u32, u32) fmap" where
  "count_loop_iterations result = count_events (xr_scope_events result) fmempty"

section \<open>Backedge constraints\<close>

fun bound_bin_op :: "bound_op \<Rightarrow> bin_op_kind" where
  "bound_bin_op BoundLt = OpLt"
| "bound_bin_op BoundLe = OpLe"
| "bound_bin_op BoundGt = OpGt"
| "bound_bin_op BoundGe = OpGe"

fun is_param :: "string \<Rightarrow> sym_expr \<Rightarrow> bool" where
  "is_param iv (SeParam name path) = (name = iv)"
| "is_param iv _ = False"

definition constraint_matches_loop_condition :: "sym_expr \<Rightarrow> loop_info \<Rightarrow> bool" where
  "constraint_matches_loop_condition expr li =
     (case expr of
        SeBinOp op left right \<Rightarrow>
          op = bound_bin_op (iv_bound_op (lp_induction_var li)) \<and>
          (is_param (iv_name (lp_induction_var li)) left \<or> is_param (iv_name (lp_induction_var li)) right)
      | _ \<Rightarrow> False)"

definition build_direct_iv_constraint :: "loop_info \<Rightarrow> u32 \<Rightarrow> sym_expr" where
  "build_direct_iv_constraint li iteration_count =
     (let iv = lp_induction_var li;
          step_times_k = SeBinOp OpMul (iv_step_expr iv) (SeConst (CInt (ucast iteration_count)));
          iv_value = SeBinOp OpAdd (iv_init_expr iv) step_times_k
      in SeBinOp OpEq (SeParam (iv_name iv) []) iv_value)"

definition loop_map :: "loop_info list \<Rightarrow> (u32, loop_info) fmap" where
  "loop_map loops = fold (\<lambda>l m. fmupd (lp_loop_id l) l m) loops fmempty"

section \<open>Collapsing\<close>

type_synonym hash_order = "u32 fset \<Rightarrow> u32 list"

definition is_order :: "hash_order \<Rightarrow> bool" where
  "is_order order \<longleftrightarrow> (\<forall>S. distinct (order S) \<and> set (order S) = fset S)"

text \<open>The first loop, in the order of the map, whose condition the constraint has and that was entered.\<close>

fun matched_loop ::
    "(u32, loop_info) fmap \<Rightarrow> (u32, u32) fmap \<Rightarrow> sym_expr \<Rightarrow> u32 list \<Rightarrow> (u32 \<times> loop_info \<times> u32) option" where
  "matched_loop loops counts expr [] = None"
| "matched_loop loops counts expr (loop_id # ids) =
     (case (fmlookup loops loop_id, fmlookup counts loop_id) of
        (Some li, Some n) \<Rightarrow>
          if constraint_matches_loop_condition expr li then Some (loop_id, li, n)
          else matched_loop loops counts expr ids
      | _ \<Rightarrow> matched_loop loops counts expr ids)"

fun rewrite_constraints ::
    "(sym_expr \<Rightarrow> (u32 \<times> loop_info \<times> u32) option) \<Rightarrow> u32 set \<Rightarrow> sym_expr option list \<Rightarrow> sym_expr option list" where
  "rewrite_constraints matched replaced_loops [] = []"
| "rewrite_constraints matched replaced_loops (constraint # constraints) =
     (case constraint of
        Some expr \<Rightarrow>
          (case matched expr of
             Some (loop_id, li, n) \<Rightarrow>
               if loop_id \<notin> replaced_loops then
                 Some (build_direct_iv_constraint li n) #
                   rewrite_constraints matched (insert loop_id replaced_loops) constraints
               else rewrite_constraints matched replaced_loops constraints
           | None \<Rightarrow> constraint # rewrite_constraints matched replaced_loops constraints)
      | None \<Rightarrow> None # rewrite_constraints matched replaced_loops constraints)"

definition rewrite_loop_constraints ::
    "hash_order \<Rightarrow> sym_expr option list \<Rightarrow> loop_info list \<Rightarrow> execute_result \<Rightarrow> sym_expr option list" where
  "rewrite_loop_constraints order constraints loops result =
     (let iteration_counts = count_loop_iterations result;
          lm = loop_map loops
      in if loops = [] then constraints
         else if iteration_counts = fmempty then constraints
         else rewrite_constraints
                (\<lambda>expr. matched_loop lm iteration_counts expr (order (fmdom lm))) {} constraints)"

section \<open>Merging\<close>

definition MAX_MERGE_DEPTH :: u32 where "MAX_MERGE_DEPTH = 10"

record merged_loop_state =
  ml_loop_id :: u32
  ml_iteration_var :: string
  ml_merged_constraint :: sym_expr
  ml_iteration_count :: u32

definition merge_var_name :: "u32 \<Rightarrow> string" where
  "merge_var_name loop_id = ''__loop_'' @ show_nat (unat loop_id) @ ''_iter''"

definition merge_bound :: "string \<Rightarrow> u32 \<Rightarrow> sym_expr" where
  "merge_bound iter_var n =
     (let iter_param = SeParam iter_var [];
          lower = SeBinOp OpLe (SeConst (CInt 0)) iter_param;
          upper = SeBinOp OpLt iter_param (SeConst (CInt (ucast n)))
      in SeBinOp OpAnd lower upper)"

definition build_ite_chain :: "string \<Rightarrow> sym_expr list \<Rightarrow> sym_expr option" where
  "build_ite_chain iter_var constraints =
     (if constraints = [] then None
      else if length constraints = 1 then Some (constraints ! 0)
      else
        Some (foldl (\<lambda>result (i, constraint).
                       SeIte (SeBinOp OpEq (SeParam iter_var []) (SeConst (CInt (word_of_nat i))))
                         constraint result)
                (last constraints) (tl (rev (enumerate 0 constraints)))))"

fun merge_candidate ::
    "(u32, loop_info) fmap \<Rightarrow> (u32, u32) fmap \<Rightarrow> sym_expr \<Rightarrow> u32 list \<Rightarrow> u32 option" where
  "merge_candidate loops counts expr [] = None"
| "merge_candidate loops counts expr (loop_id # ids) =
     (case fmlookup loops loop_id of
        Some li \<Rightarrow>
          (let n = fm_get_or counts loop_id 0
           in if 2 \<le> n \<and> n \<le> MAX_MERGE_DEPTH \<and> constraint_matches_loop_condition expr li then Some loop_id
              else merge_candidate loops counts expr ids)
      | None \<Rightarrow> merge_candidate loops counts expr ids)"

type_synonym loop_members = "(u32, (usize \<times> sym_expr) list) fmap"

fun collect_members ::
    "(sym_expr \<Rightarrow> u32 option) \<Rightarrow> nat \<Rightarrow> sym_expr option list \<Rightarrow> loop_members \<Rightarrow> loop_members" where
  "collect_members candidate idx [] members = members"
| "collect_members candidate idx (constraint # constraints) members =
     collect_members candidate (Suc idx) constraints
       (case constraint of
          Some expr \<Rightarrow>
            (case candidate expr of
               Some loop_id \<Rightarrow> fmupd loop_id (fm_get_or members loop_id [] @ [(idx, expr)]) members
             | None \<Rightarrow> members)
        | None \<Rightarrow> members)"

text \<open>
  The states built for the mergeable loops, in the order of the map, with the set of indices they
  replace.
\<close>

fun build_states ::
    "loop_members \<Rightarrow> u32 list \<Rightarrow> nat set \<times> merged_loop_state list \<Rightarrow> nat set \<times> merged_loop_state list" where
  "build_states mergeable [] acc = acc"
| "build_states mergeable (loop_id # ids) (replaced, states) =
     (case fmlookup mergeable loop_id of
        None \<Rightarrow> build_states mergeable ids (replaced, states)
      | Some per_iter \<Rightarrow>
          (let iter_var = merge_var_name loop_id;
               n = word_of_nat (length per_iter) :: u32
           in case build_ite_chain iter_var (map snd per_iter) of
                None \<Rightarrow> build_states mergeable ids (replaced, states)
              | Some ite_chain \<Rightarrow>
                  build_states mergeable ids
                    (replaced \<union> fst ` set per_iter,
                     states @ [\<lparr>ml_loop_id = loop_id, ml_iteration_var = iter_var,
                       ml_merged_constraint = SeBinOp OpAnd (merge_bound iter_var n) ite_chain,
                       ml_iteration_count = n\<rparr>])))"

definition is_member :: "loop_members \<Rightarrow> u32 \<Rightarrow> nat \<Rightarrow> bool" where
  "is_member mergeable loop_id idx =
     (case fmlookup mergeable loop_id of
        None \<Rightarrow> False
      | Some v \<Rightarrow> list_ex (\<lambda>(i, _). i = idx) v)"

fun merge_output ::
    "loop_members \<Rightarrow> nat set \<Rightarrow> merged_loop_state list \<Rightarrow> u32 set \<Rightarrow> nat \<Rightarrow> sym_expr option list
     \<Rightarrow> sym_expr option list" where
  "merge_output mergeable replaced states first_replaced idx [] = []"
| "merge_output mergeable replaced states first_replaced idx (constraint # constraints) =
     (if idx \<in> replaced then
        (case find (\<lambda>ms. is_member mergeable (ml_loop_id ms) idx \<and> ml_loop_id ms \<notin> first_replaced) states of
           Some ms \<Rightarrow>
             Some (ml_merged_constraint ms) #
               merge_output mergeable replaced states (insert (ml_loop_id ms) first_replaced) (Suc idx) constraints
         | None \<Rightarrow> merge_output mergeable replaced states first_replaced (Suc idx) constraints)
      else constraint # merge_output mergeable replaced states first_replaced (Suc idx) constraints)"

definition merge_loop_states ::
    "hash_order \<Rightarrow> hash_order \<Rightarrow> sym_expr option list \<Rightarrow> loop_info list \<Rightarrow> execute_result
     \<Rightarrow> sym_expr option list" where
  "merge_loop_states order order' constraints loops result =
     (let iteration_counts = count_loop_iterations result;
          lm = loop_map loops;
          candidate = (\<lambda>expr. merge_candidate lm iteration_counts expr (order (fmdom lm)));
          mergeable = fm_retain (\<lambda>_ v. 2 \<le> length v) (collect_members candidate 0 constraints fmempty)
      in if loops = [] then constraints
         else if iteration_counts = fmempty then constraints
         else if mergeable = fmempty then constraints
         else
           (case build_states mergeable (order' (fmdom mergeable)) ({}, []) of
              (replaced, states) \<Rightarrow> merge_output mergeable replaced states {} 0 constraints))"

section \<open>Collapsing, declaratively\<close>

abbreviation backedge ::
    "hash_order \<Rightarrow> loop_info list \<Rightarrow> execute_result \<Rightarrow> sym_expr \<Rightarrow> (u32 \<times> loop_info \<times> u32) option" where
  "backedge order loops result expr \<equiv>
     matched_loop (loop_map loops) (count_loop_iterations result) expr (order (fmdom (loop_map loops)))"

definition loop_entries :: "execute_result \<Rightarrow> u32 \<Rightarrow> nat" where
  "loop_entries result loop_id = count_list (xr_scope_events result) (TeScope (LoopEnter loop_id))"

lemma count_events_lookup:
  "fmlookup (count_events events counts) loop_id =
     (let k = count_list events (TeScope (LoopEnter loop_id))
      in if k = 0 then fmlookup counts loop_id else Some (fm_get_or counts loop_id 0 + word_of_nat k))"
proof (induction events arbitrary: counts)
  case (Cons event events)
  then show ?case
    by (auto simp: Let_def split: trace_event.split scope_event.split)
qed simp

lemma count_loop_iterations_lookup:
  "fmlookup (count_loop_iterations result) loop_id =
     (if loop_entries result loop_id = 0 then None else Some (word_of_nat (loop_entries result loop_id)))"
  by (simp add: count_loop_iterations_def count_events_lookup loop_entries_def Let_def)

lemma matched_loop_Some:
  "matched_loop lm counts expr ids = Some (loop_id, li, n) \<Longrightarrow>
     loop_id \<in> set ids \<and> fmlookup lm loop_id = Some li \<and> fmlookup counts loop_id = Some n \<and>
     constraint_matches_loop_condition expr li"
  by (induction ids) (auto split: option.splits if_splits)

lemma matched_loop_None:
  "(\<And>li. \<not> constraint_matches_loop_condition expr li) \<Longrightarrow> matched_loop lm counts expr ids = None"
  by (induction ids) (auto split: option.splits)

lemma direct_not_backedge:
  "\<not> constraint_matches_loop_condition (build_direct_iv_constraint li n) li'"
  by (cases "iv_bound_op (lp_induction_var li')")
    (simp_all add: constraint_matches_loop_condition_def build_direct_iv_constraint_def Let_def)

lemma loop_map_lookup: "fmlookup (loop_map loops) k = Some li \<Longrightarrow> li \<in> set loops \<and> lp_loop_id li = k"
proof -
  have "fmlookup (fold (\<lambda>l m. fmupd (lp_loop_id l) l m) loops m) k = Some li \<Longrightarrow>
      fmlookup m k = Some li \<or> li \<in> set loops \<and> lp_loop_id li = k" for m
    by (induction loops arbitrary: m) (force split: if_splits)+
  from this [of fmempty] show "fmlookup (loop_map loops) k = Some li \<Longrightarrow> li \<in> set loops \<and> lp_loop_id li = k"
    by (simp add: loop_map_def)
qed

text \<open>What is left of the constraint at position \<open>j\<close>.\<close>

definition seen_loops ::
    "(sym_expr \<Rightarrow> (u32 \<times> loop_info \<times> u32) option) \<Rightarrow> sym_expr option list \<Rightarrow> u32 set" where
  "seen_loops matched cs = {loop_id. \<exists>e li n. Some e \<in> set cs \<and> matched e = Some (loop_id, li, n)}"

definition collapsed_at ::
    "(sym_expr \<Rightarrow> (u32 \<times> loop_info \<times> u32) option) \<Rightarrow> sym_expr option list \<Rightarrow> nat \<Rightarrow> sym_expr option list" where
  "collapsed_at matched cs j =
     (case cs ! j of
        None \<Rightarrow> [None]
      | Some e \<Rightarrow>
          (case matched e of
             None \<Rightarrow> [Some e]
           | Some (loop_id, li, n) \<Rightarrow>
               if loop_id \<in> seen_loops matched (take j cs) then []
               else [Some (build_direct_iv_constraint li n)]))"

lemma rewrite_constraints_Cons:
  "rewrite_constraints matched (seen_loops matched pre) (c # cs) =
     collapsed_at matched (pre @ c # cs) (length pre) @
     rewrite_constraints matched (seen_loops matched (pre @ [c])) cs"
proof (cases "\<exists>e m. c = Some e \<and> matched e = Some m")
  case True
  then obtain e id li n where c: "c = Some e" "matched e = Some (id, li, n)" by auto
  then have "seen_loops matched (pre @ [c]) = insert id (seen_loops matched pre)"
    by (auto simp: seen_loops_def)
  with c show ?thesis by (simp add: collapsed_at_def insert_absorb)
next
  case False
  then have "seen_loops matched (pre @ [c]) = seen_loops matched pre"
    by (auto simp: seen_loops_def)
  with False show ?thesis by (cases c) (auto simp: collapsed_at_def split: option.split)
qed

lemma rewrite_constraints_collapsed:
  "rewrite_constraints matched (seen_loops matched pre) cs =
     concat (map (collapsed_at matched (pre @ cs)) [length pre..<length (pre @ cs)])"
proof (induction cs arbitrary: pre)
  case (Cons c cs)
  have "[length pre..<length (pre @ c # cs)] = length pre # [length (pre @ [c])..<length ((pre @ [c]) @ cs)]"
    by (simp add: upt_conv_Cons del: upt_Suc)
  then show ?case
    using Cons.IH [of "pre @ [c]"] by (simp add: rewrite_constraints_Cons del: upt_Suc rewrite_constraints.simps)
qed simp

lemma rewrite_constraints_id:
  "(\<And>e. Some e \<in> set cs \<Longrightarrow> matched e = None) \<Longrightarrow> rewrite_constraints matched R cs = cs"
  by (induction cs) (auto split: option.split)

lemma rewrite_constraints_stable:
  assumes "\<And>li n. matched (build_direct_iv_constraint li n) = None"
  shows "Some e \<in> set (rewrite_constraints matched R cs) \<Longrightarrow> matched e = None"
  by (induction cs arbitrary: R) (auto simp: assms split: option.splits if_splits)

lemma no_entries_no_backedge:
  "loops = [] \<or> count_loop_iterations result = fmempty \<Longrightarrow> is_order order \<Longrightarrow> backedge order loops result e = None"
  using matched_loop_Some [of "loop_map loops" "count_loop_iterations result" e "order (fmdom (loop_map loops))"]
  by (cases "backedge order loops result e") (auto simp: loop_map_def)

lemma rewrite_loop_constraints_eq:
  assumes "is_order order"
  shows "rewrite_loop_constraints order cs loops result = rewrite_constraints (backedge order loops result) {} cs"
proof (cases "loops = [] \<or> count_loop_iterations result = fmempty")
  case True
  then have "rewrite_constraints (backedge order loops result) {} cs = cs"
    using no_entries_no_backedge [OF _ assms] by (intro rewrite_constraints_id) auto
  with True show ?thesis by (auto simp: rewrite_loop_constraints_def Let_def)
qed (simp add: rewrite_loop_constraints_def Let_def)

text \<open>C35: Collapsing replaces, for each loop, the first constraint attributed to it by one direct
  constraint on the induction variable and drops the later ones; every other constraint keeps its
  place. A constraint is attributed only to a loop whose condition it has, and the count in the direct
  constraint is the number of times the trace enters that loop, modulo the width of the counter. The
  pass is idempotent: a direct constraint is not taken for a backedge again.\<close>

theorem rewrite_loop_constraints_collapses:
  assumes ord: "is_order order"
  shows "rewrite_loop_constraints order cs loops result =
       concat (map (collapsed_at (backedge order loops result) cs) [0..<length cs]) \<and>
     (\<forall>e loop_id li n. backedge order loops result e = Some (loop_id, li, n) \<longrightarrow>
        li \<in> set loops \<and> lp_loop_id li = loop_id \<and> constraint_matches_loop_condition e li \<and>
        0 < loop_entries result loop_id \<and> n = word_of_nat (loop_entries result loop_id)) \<and>
     rewrite_loop_constraints order (rewrite_loop_constraints order cs loops result) loops result =
       rewrite_loop_constraints order cs loops result"
proof (intro conjI allI impI)
  let ?m = "backedge order loops result"
  show "rewrite_loop_constraints order cs loops result = concat (map (collapsed_at ?m cs) [0..<length cs])"
    using rewrite_constraints_collapsed [where matched = ?m and pre = "[]" and cs = cs]
    by (simp add: rewrite_loop_constraints_eq [OF ord] seen_loops_def)
  have "Some e \<in> set (rewrite_constraints ?m {} cs) \<Longrightarrow> ?m e = None" for e
    by (erule rewrite_constraints_stable [rotated]) (rule matched_loop_None [OF direct_not_backedge])
  then show "rewrite_loop_constraints order (rewrite_loop_constraints order cs loops result) loops result =
      rewrite_loop_constraints order cs loops result"
    unfolding rewrite_loop_constraints_eq [OF ord] by (rule rewrite_constraints_id)
  fix e loop_id li n assume "?m e = Some (loop_id, li, n)"
  note facts = matched_loop_Some [OF this]
  then show "constraint_matches_loop_condition e li" by blast
  from facts have "fmlookup (loop_map loops) loop_id = Some li" by blast
  from loop_map_lookup [OF this] show "li \<in> set loops" "lp_loop_id li = loop_id" by simp_all
  show "0 < loop_entries result loop_id" "n = word_of_nat (loop_entries result loop_id)"
    using facts by (auto simp: count_loop_iterations_lookup split: if_splits)
qed

section \<open>Merging, declaratively\<close>

fun ite_from :: "string \<Rightarrow> nat \<Rightarrow> sym_expr list \<Rightarrow> sym_expr" where
  "ite_from v i (c # d # cs) =
     SeIte (SeBinOp OpEq (SeParam v []) (SeConst (CInt (word_of_nat i)))) c (ite_from v (Suc i) (d # cs))"
| "ite_from v i [c] = c"
| "ite_from v i [] = SeUnknown"

lemma ite_from_foldr:
  "cs \<noteq> [] \<Longrightarrow>
   foldr (\<lambda>(i, c) r. SeIte (SeBinOp OpEq (SeParam v []) (SeConst (CInt (word_of_nat i)))) c r)
     (butlast (enumerate i cs)) (last cs) = ite_from v i cs"
  by (induction v i cs rule: ite_from.induct) auto

lemma build_ite_chain_eq: "cs \<noteq> [] \<Longrightarrow> build_ite_chain v cs = Some (ite_from v 0 cs)"
proof (cases "length cs = 1")
  case True
  then obtain c where "cs = [c]" by (auto simp: length_Suc_conv)
  then show ?thesis by (simp add: build_ite_chain_def)
next
  assume ne: "cs \<noteq> []"
  case False
  have "tl (rev (enumerate 0 cs)) = rev (butlast (enumerate 0 cs))"
    by (simp add: butlast_rev [symmetric] rev_swap [symmetric])
  with False ne ite_from_foldr [OF ne, of v 0] show ?thesis
    by (simp add: build_ite_chain_def foldl_conv_foldr case_prod_unfold)
qed

lemma sint_small: "n < 2 ^ 63 \<Longrightarrow> sint (word_of_nat n :: i64) = int n"
  using sint_sbintrunc' [where 'a = 64 and bin = "int n"] by (simp add: signed_take_bit_int_eq_self)

lemma ite_from_value:
  assumes "k < length cs" and "i + length cs < 2 ^ 63" and "\<rho> v [] = Some (VInt (int (i + k)))"
  shows "seval \<phi> \<rho> (ite_from v i cs) = seval \<phi> \<rho> (cs ! k)"
  using assms
proof (induction v i cs arbitrary: k rule: ite_from.induct)
  case (1 v i c d cs)
  have i: "sint (word_of_nat i :: i64) = int i" using 1 by (intro sint_small) simp
  show ?case
  proof (cases k)
    case 0
    with 1 i show ?thesis by simp
  next
    case (Suc m)
    with "1.IH" [of m] "1.prems" i show ?thesis by simp
  qed
qed auto

abbreviation holds :: "scalls \<Rightarrow> senv \<Rightarrow> sym_expr \<Rightarrow> bool" where
  "holds \<phi> \<rho> e \<equiv> seval \<phi> \<rho> e = Some (VBool True)"

lemma holds_and: "holds \<phi> \<rho> (SeBinOp OpAnd a b) \<longleftrightarrow> holds \<phi> \<rho> a \<and> holds \<phi> \<rho> b"
proof -
  have "bin_val OpAnd x y = Some (VBool True) \<longleftrightarrow> x = Some (VBool True) \<and> y = Some (VBool True)" for x y
    by (cases "(OpAnd, x, y)" rule: bin_val.cases) auto
  then show ?thesis by simp
qed

lemma merge_bound_holds:
  assumes "n < 2 ^ 32" and "\<rho> v [] = Some (VInt x)"
  shows "holds \<phi> \<rho> (merge_bound v (word_of_nat n)) \<longleftrightarrow> 0 \<le> x \<and> x < int n"
proof -
  have "(ucast (word_of_nat n :: u32) :: i64) = word_of_nat n"
    using assms(1) by (simp add: unsigned_of_nat take_bit_nat_eq_self ucast_eq)
  then have "sint (ucast (word_of_nat n :: u32) :: i64) = int n"
    using sint_small [of n] assms(1) by simp
  with assms(2) show ?thesis by (simp add: merge_bound_def Let_def)
qed

lemma merged_constraint_holds:
  assumes "cs \<noteq> []" and "length cs < 2 ^ 32" and "\<rho> v [] = Some (VInt x)"
  shows "holds \<phi> \<rho> (SeBinOp OpAnd (merge_bound v (word_of_nat (length cs))) (ite_from v 0 cs)) \<longleftrightarrow>
     (\<exists>k<length cs. x = int k \<and> holds \<phi> \<rho> (cs ! k))"
proof (cases "0 \<le> x \<and> x < int (length cs)")
  case True
  then obtain k where k: "x = int k" "k < length cs" by (metis nonneg_int_cases of_nat_less_iff)
  with ite_from_value [of k cs 0 \<rho> v \<phi>] assms True show ?thesis
    unfolding holds_and by (auto simp: merge_bound_holds)
next
  case False
  with assms show ?thesis unfolding holds_and by (auto simp: merge_bound_holds)
qed

text \<open>The constraints attributed to a loop, with their positions.\<close>

definition members_of ::
    "(sym_expr \<Rightarrow> u32 option) \<Rightarrow> u32 \<Rightarrow> nat \<Rightarrow> sym_expr option list \<Rightarrow> (nat \<times> sym_expr) list" where
  "members_of candidate loop_id idx cs =
     List.map_filter (\<lambda>(i, c). case c of
         Some e \<Rightarrow> if candidate e = Some loop_id then Some (i, e) else None
       | None \<Rightarrow> None) (enumerate idx cs)"

lemma collect_members_get:
  "fm_get_or (collect_members candidate idx cs M) loop_id [] =
     fm_get_or M loop_id [] @ members_of candidate loop_id idx cs"
proof (induction cs arbitrary: idx M)
  case (Cons c cs)
  then show ?case
    by (cases c) (auto simp: members_of_def List.map_filter_simps split: option.split)
qed (simp add: members_of_def List.map_filter_simps)

lemma in_members_of:
  "(i, e) \<in> set (members_of candidate loop_id 0 cs) \<longleftrightarrow>
     i < length cs \<and> cs ! i = Some e \<and> candidate e = Some loop_id"
  by (auto simp: members_of_def set_map_filter in_set_enumerate_eq split: option.splits if_splits
    intro!: bexI [of _ "(i, Some e)"])

definition mergeable_loops :: "(sym_expr \<Rightarrow> u32 option) \<Rightarrow> sym_expr option list \<Rightarrow> loop_members" where
  "mergeable_loops candidate cs = fm_retain (\<lambda>_ v. 2 \<le> length v) (collect_members candidate 0 cs fmempty)"

lemma mergeable_lookup:
  "fmlookup (mergeable_loops candidate cs) loop_id =
     (if 2 \<le> length (members_of candidate loop_id 0 cs) then Some (members_of candidate loop_id 0 cs) else None)"
  using collect_members_get [of candidate 0 cs fmempty loop_id]
  by (auto simp: mergeable_loops_def fm_get_or_def split: option.splits)

text \<open>The state built for a loop, and the conditions under which the passes over the map are exact.\<close>

definition merged_expr :: "loop_members \<Rightarrow> u32 \<Rightarrow> sym_expr" where
  "merged_expr M loop_id =
     SeBinOp OpAnd (merge_bound (merge_var_name loop_id) (word_of_nat (length (fm_get_or M loop_id []))))
       (ite_from (merge_var_name loop_id) 0 (map snd (fm_get_or M loop_id [])))"

definition merged_state :: "loop_members \<Rightarrow> u32 \<Rightarrow> merged_loop_state" where
  "merged_state M loop_id =
     \<lparr>ml_loop_id = loop_id, ml_iteration_var = merge_var_name loop_id,
      ml_merged_constraint = merged_expr M loop_id,
      ml_iteration_count = word_of_nat (length (fm_get_or M loop_id []))\<rparr>"

lemma build_states_eq:
  assumes "\<And>loop_id. fmlookup M loop_id \<noteq> Some []" and "set ids \<subseteq> fmdom' M"
  shows "build_states M ids (R, S) =
     (R \<union> {idx. \<exists>loop_id\<in>set ids. is_member M loop_id idx}, S @ map (merged_state M) ids)"
  using assms(2)
proof (induction ids arbitrary: R S)
  case (Cons k ids)
  then obtain v where v: "fmlookup M k = Some v" by (auto simp: fmdom'_iff)
  with assms(1) have "v \<noteq> []" by metis
  moreover have "fst ` set v = {idx. is_member M k idx}"
    using v by (force simp: is_member_def list_ex_iff)
  ultimately show ?case
    using Cons v
    by (auto simp: Let_def build_ite_chain_eq merged_state_def merged_expr_def fm_get_or_def)
qed simp

lemma find_member:
  assumes uniq: "\<And>a b i. is_member M a i \<Longrightarrow> is_member M b i \<Longrightarrow> a = b"
    and "is_member M loop_id idx" and "loop_id \<in> set ids"
  shows "find (\<lambda>ms. is_member M (ml_loop_id ms) idx \<and> ml_loop_id ms \<notin> seen) (map (merged_state M) ids) =
     (if loop_id \<in> seen then None else Some (merged_state M loop_id))"
proof -
  have eq: "is_member M k idx \<longleftrightarrow> k = loop_id" for k using uniq assms(2) by blast
  show ?thesis
  proof (cases "loop_id \<in> seen")
    case True
    then show ?thesis unfolding eq by (auto simp: find_None_iff)
  next
    case False
    with assms(3) show ?thesis unfolding eq by (induction ids) (auto simp: merged_state_def)
  qed
qed

lemma set_merge_output:
  assumes uniq: "\<And>a b i. is_member M a i \<Longrightarrow> is_member M b i \<Longrightarrow> a = b"
    and dom: "\<And>loop_id idx. is_member M loop_id idx \<Longrightarrow> loop_id \<in> set ids"
    and R: "R = {idx. \<exists>loop_id\<in>set ids. is_member M loop_id idx}"
  shows "x \<in> set (merge_output M R (map (merged_state M) ids) seen idx cs) \<longleftrightarrow>
     (\<exists>i c. (i, c) \<in> set (enumerate idx cs) \<and> i \<notin> R \<and> x = c) \<or>
     (\<exists>k. k \<notin> seen \<and> (\<exists>i c. (i, c) \<in> set (enumerate idx cs) \<and> is_member M k i) \<and> x = Some (merged_expr M k))"
proof (induction cs arbitrary: seen idx)
  case (Cons c cs)
  have en: "(\<exists>i d. (i, d) \<in> set (enumerate idx (c # cs)) \<and> P i d) \<longleftrightarrow>
      P idx c \<or> (\<exists>i d. (i, d) \<in> set (enumerate (Suc idx) cs) \<and> P i d)" for P
    by auto
  show ?case
  proof (cases "idx \<in> R")
    case True
    then obtain k where k: "k \<in> set ids" "is_member M k idx" using R by blast
    have only: "is_member M l idx \<longleftrightarrow> l = k" for l using uniq k(2) by blast
    have sel: "ml_loop_id (merged_state M k) = k" "ml_merged_constraint (merged_state M k) = merged_expr M k"
      by (simp_all add: merged_state_def)
    show ?thesis
    proof (cases "k \<in> seen")
      case True
      have "merge_output M R (map (merged_state M) ids) seen idx (c # cs) =
          merge_output M R (map (merged_state M) ids) seen (Suc idx) cs"
        using \<open>idx \<in> R\<close> True find_member [where seen = seen, OF uniq k(2,1)] by simp
      then have "x \<in> set (merge_output M R (map (merged_state M) ids) seen idx (c # cs)) \<longleftrightarrow>
          x \<in> set (merge_output M R (map (merged_state M) ids) seen (Suc idx) cs)"
        by (simp only:)
      then show ?thesis
        unfolding Cons.IH en only using \<open>idx \<in> R\<close> True by auto
    next
      case False
      have "merge_output M R (map (merged_state M) ids) seen idx (c # cs) =
          Some (merged_expr M k) # merge_output M R (map (merged_state M) ids) (insert k seen) (Suc idx) cs"
        using \<open>idx \<in> R\<close> False find_member [where seen = seen, OF uniq k(2,1)] sel by simp
      then have "x \<in> set (merge_output M R (map (merged_state M) ids) seen idx (c # cs)) \<longleftrightarrow>
          x = Some (merged_expr M k) \<or> x \<in> set (merge_output M R (map (merged_state M) ids) (insert k seen) (Suc idx) cs)"
        by (simp only: list.set insert_iff)
      then show ?thesis
        unfolding Cons.IH en only using \<open>idx \<in> R\<close> False by auto metis
    qed
  next
    case False
    then have none: "\<not> is_member M l idx" for l using R dom by blast
    have "merge_output M R (map (merged_state M) ids) seen idx (c # cs) =
        c # merge_output M R (map (merged_state M) ids) seen (Suc idx) cs"
      using False by simp
    then have "x \<in> set (merge_output M R (map (merged_state M) ids) seen idx (c # cs)) \<longleftrightarrow>
        x = c \<or> x \<in> set (merge_output M R (map (merged_state M) ids) seen (Suc idx) cs)"
      by (simp only: list.set insert_iff)
    then show ?thesis unfolding Cons.IH en using False none by auto
  qed
qed simp

abbreviation loop_of :: "hash_order \<Rightarrow> loop_info list \<Rightarrow> execute_result \<Rightarrow> sym_expr \<Rightarrow> u32 option" where
  "loop_of order loops result e \<equiv>
     merge_candidate (loop_map loops) (count_loop_iterations result) e (order (fmdom (loop_map loops)))"

lemma merge_candidate_Some:
  "merge_candidate lm counts e ids = Some k \<Longrightarrow>
     k \<in> set ids \<and> 2 \<le> fm_get_or counts k 0 \<and> fm_get_or counts k 0 \<le> MAX_MERGE_DEPTH \<and>
     (\<exists>li. fmlookup lm k = Some li \<and> constraint_matches_loop_condition e li)"
  by (induction ids) (auto simp: Let_def split: option.splits if_splits)

lemma is_member_mergeable:
  "is_member (mergeable_loops cand cs) k i \<longleftrightarrow>
     2 \<le> length (members_of cand k 0 cs) \<and> (\<exists>e. i < length cs \<and> cs ! i = Some e \<and> cand e = Some k)"
  unfolding is_member_def mergeable_lookup
  by (auto simp: list_ex_iff in_members_of)

lemma length_members_of: "length (members_of cand k 0 cs) \<le> length cs"
  using length_filter_le [of _ "enumerate 0 cs"] by (simp add: members_of_def List.map_filter_def)

lemma merge_loop_states_eq:
  fixes cs loops result
  assumes "is_order order" and "is_order order'"
  defines "M \<equiv> mergeable_loops (loop_of order loops result) cs"
  shows "x \<in> set (merge_loop_states order order' cs loops result) \<longleftrightarrow>
     (\<exists>i<length cs. (\<forall>k. \<not> is_member M k i) \<and> x = cs ! i) \<or>
     (\<exists>k\<in>fmdom' M. x = Some (merged_expr M k))"
proof (cases "M = fmempty")
  case True
  then have "\<not> is_member M k i" for k i by (simp add: is_member_def)
  moreover have "merge_loop_states order order' cs loops result = cs"
    using True by (simp add: merge_loop_states_def Let_def M_def mergeable_loops_def)
  ultimately show ?thesis using True by (auto simp: in_set_conv_nth)
next
  case False
  have none: "loop_of order loops result e = None" if "loops = [] \<or> count_loop_iterations result = fmempty" for e
    using merge_candidate_Some [of "loop_map loops" "count_loop_iterations result" e "order (fmdom (loop_map loops))"]
      that by (cases "loop_of order loops result e") (auto simp: loop_map_def)
  have "\<not> (loops = [] \<or> count_loop_iterations result = fmempty)"
  proof
    assume "loops = [] \<or> count_loop_iterations result = fmempty"
    from none [OF this] have "members_of (loop_of order loops result) k 0 cs = []" for k
      by (auto simp: members_of_def map_filter_Nil split: option.split)
    then have "fmlookup M k = None" for k by (simp add: M_def mergeable_lookup)
    then show False using False by (auto intro: fmap_ext)
  qed
  define ids where "ids = order' (fmdom M)"
  have ids: "set ids = fmdom' M" using assms(2) by (simp add: ids_def is_order_def fmdom'_alt_def)
  let ?R = "{idx. \<exists>k\<in>set ids. is_member M k idx}"
  have dom: "is_member M k i \<Longrightarrow> k \<in> set ids" for k i
    by (auto simp: is_member_def ids fmdom'_iff split: option.splits)
  have uniq: "is_member M a i \<Longrightarrow> is_member M b i \<Longrightarrow> a = b" for a b i
    by (auto simp: M_def is_member_mergeable)
  have "build_states M ids ({}, []) = (?R, map (merged_state M) ids)"
  proof -
    have "fmlookup M k \<noteq> Some []" for k by (auto simp: M_def mergeable_lookup)
    from build_states_eq [OF this, of ids "{}" "[]"] ids show ?thesis by simp
  qed
  then have eq: "merge_loop_states order order' cs loops result = merge_output M ?R (map (merged_state M) ids) {} 0 cs"
    using False \<open>\<not> (loops = [] \<or> count_loop_iterations result = fmempty)\<close>
    by (simp add: merge_loop_states_def Let_def M_def [unfolded mergeable_loops_def, symmetric] ids_def)
  have "(\<exists>i c. (i, c) \<in> set (enumerate 0 cs) \<and> is_member M k i) \<longleftrightarrow> k \<in> fmdom' M" for k
  proof
    assume "k \<in> fmdom' M"
    then have len: "2 \<le> length (members_of (loop_of order loops result) k 0 cs)"
      by (auto simp: fmdom'_iff M_def mergeable_lookup split: if_splits)
    then obtain i e where "(i, e) \<in> set (members_of (loop_of order loops result) k 0 cs)"
      by (cases "members_of (loop_of order loops result) k 0 cs") auto
    with len show "\<exists>i c. (i, c) \<in> set (enumerate 0 cs) \<and> is_member M k i"
      unfolding M_def is_member_mergeable in_members_of by (auto simp: in_set_enumerate_eq)
  qed (use dom ids in blast)
  then have "x \<in> set (merge_output M ?R (map (merged_state M) ids) {} 0 cs) \<longleftrightarrow>
      (\<exists>i c. (i, c) \<in> set (enumerate 0 cs) \<and> i \<notin> ?R \<and> x = c) \<or> (\<exists>k\<in>fmdom' M. x = Some (merged_expr M k))"
    using set_merge_output [where M = M and x = x and seen = "{}" and idx = 0 and cs = cs, OF uniq dom refl] by (simp add: Bex_def)
  moreover have "i \<notin> ?R \<longleftrightarrow> (\<forall>k. \<not> is_member M k i)" for i using dom by blast
  ultimately show ?thesis unfolding eq by (simp add: in_set_enumerate_eq)
qed

text \<open>C4: The merged constraints have exactly the meaning they should. An assignment satisfies the
  output of the pass if and only if it satisfies every constraint that is not part of a merged loop
  and, for each merged loop, its iteration variable selects one of the loop's constraints, which then
  holds. A loop is merged when at least two constraints are attributed to it. The iteration variables
  denote integers and there are fewer than \<open>2 ^ 32\<close> constraints.\<close>

theorem merge_loop_states_exact:
  assumes "is_order order" and "is_order order'" and len: "length cs < 2 ^ 32"
    and ints: "\<forall>k. \<exists>x. \<rho> (merge_var_name k) [] = Some (VInt x)"
  shows "(\<forall>e. Some e \<in> set (merge_loop_states order order' cs loops result) \<longrightarrow> holds \<phi> \<rho> e) \<longleftrightarrow>
     (\<forall>i<length cs. \<forall>e. cs ! i = Some e \<longrightarrow>
        (\<forall>k. loop_of order loops result e = Some k \<longrightarrow>
          length (members_of (loop_of order loops result) k 0 cs) < 2) \<longrightarrow> holds \<phi> \<rho> e) \<and>
     (\<forall>k. 2 \<le> length (members_of (loop_of order loops result) k 0 cs) \<longrightarrow>
        (\<exists>j<length (members_of (loop_of order loops result) k 0 cs).
           \<rho> (merge_var_name k) [] = Some (VInt (int j)) \<and>
           holds \<phi> \<rho> (snd (members_of (loop_of order loops result) k 0 cs ! j))))"
proof -
  define cand where "cand = loop_of order loops result"
  define M where "M = mergeable_loops cand cs"
  have mem: "x \<in> set (merge_loop_states order order' cs loops result) \<longleftrightarrow>
     (\<exists>i<length cs. (\<forall>k. \<not> is_member M k i) \<and> x = cs ! i) \<or> (\<exists>k\<in>fmdom' M. x = Some (merged_expr M k))" for x
    unfolding M_def cand_def by (rule merge_loop_states_eq [OF assms(1,2)])
  have kept: "(\<forall>k. \<not> is_member M k i) \<longleftrightarrow> (\<forall>k. cand e = Some k \<longrightarrow> length (members_of cand k 0 cs) < 2)"
    if "i < length cs" "cs ! i = Some e" for i e
    using that unfolding M_def is_member_mergeable not_le [symmetric] by auto
  have dom: "k \<in> fmdom' M \<longleftrightarrow> 2 \<le> length (members_of cand k 0 cs)" for k
    by (simp add: fmdom'_iff M_def mergeable_lookup)
  have merged: "holds \<phi> \<rho> (merged_expr M k) \<longleftrightarrow> (\<exists>j<length (members_of cand k 0 cs).
      \<rho> (merge_var_name k) [] = Some (VInt (int j)) \<and> holds \<phi> \<rho> (snd (members_of cand k 0 cs ! j)))"
    if k: "2 \<le> length (members_of cand k 0 cs)" for k
  proof -
    let ?v = "members_of cand k 0 cs"
    obtain x where x: "\<rho> (merge_var_name k) [] = Some (VInt x)" using ints by blast
    have "fm_get_or M k [] = ?v" using k by (simp add: M_def mergeable_lookup fm_get_or_def)
    moreover have "map snd ?v \<noteq> []" "length (map snd ?v) < 2 ^ 32"
      using k len length_members_of [of cand k cs] by auto
    ultimately show ?thesis
      using merged_constraint_holds [of "map snd ?v" \<rho> "merge_var_name k" x \<phi>] x
      by (auto simp: merged_expr_def simp del: seval.simps)
  qed
  have "(\<forall>e. Some e \<in> set (merge_loop_states order order' cs loops result) \<longrightarrow> holds \<phi> \<rho> e) \<longleftrightarrow>
     (\<forall>i<length cs. \<forall>e. cs ! i = Some e \<longrightarrow> (\<forall>k. \<not> is_member M k i) \<longrightarrow> holds \<phi> \<rho> e) \<and>
     (\<forall>k\<in>fmdom' M. holds \<phi> \<rho> (merged_expr M k))"
    unfolding mem by (auto dest: sym)
  moreover have "loop_of order loops result e = cand e" for e by (simp add: cand_def)
  ultimately show ?thesis
    unfolding cand_def [symmetric] Ball_def dom by (simp add: kept merged cong: imp_cong)
qed

section \<open>Two loops over one variable\<close>

text \<open>
  The condition of a loop is recognised by the name of its induction variable and its comparison
  alone, so with two loops over the same name the attribution, and with it the result, depends on the
  iteration order of the hash map.
\<close>

definition shared_loop :: "u32 \<Rightarrow> i64 \<Rightarrow> loop_info" where
  "shared_loop loop_id init = \<lparr>lp_loop_id = loop_id, lp_line = 0,
     lp_induction_var = \<lparr>iv_name = ''i'', iv_init_expr = SeConst (CInt init), iv_step_expr = SeConst (CInt 1),
       iv_bound_expr = SeParam ''n'' [], iv_bound_op = BoundLt\<rparr>\<rparr>"

definition shared_result :: execute_result where
  "shared_result = default_result\<lparr>xr_scope_events := map TeScope [LoopEnter 0, LoopEnter 0, LoopEnter 1, LoopEnter 1]\<rparr>"

abbreviation shared_condition :: sym_expr where
  "shared_condition \<equiv> SeBinOp OpLt (SeParam ''i'' []) (SeParam ''n'' [])"

definition ascending :: hash_order where "ascending S = sorted_list_of_fset S"

lemma ascending_order: "is_order ascending"
  by (simp add: is_order_def ascending_def sorted_list_of_fset.rep_eq)

lemma shared_map:
  "fmdom (loop_map [shared_loop 0 0, shared_loop 1 7]) = {|0, 1|}"
  "fmlookup (loop_map [shared_loop 0 0, shared_loop 1 7]) 0 = Some (shared_loop 0 0)"
  "fmlookup (loop_map [shared_loop 0 0, shared_loop 1 7]) 1 = Some (shared_loop 1 7)"
  by (auto simp: loop_map_def shared_loop_def)

lemma shared_orders: "ascending {|0, 1|} = [0, 1]"
proof -
  have "sorted_list_of_set {0, 1 :: u32} = [0, 1]"
    using sorted_list_of_set.idem_if_sorted_distinct [of "[0, 1 :: u32]"] by simp
  then show ?thesis by (simp add: ascending_def sorted_list_of_fset.rep_eq)
qed

lemma shared_counts: "count_loop_iterations shared_result = fmupd 1 2 (fmupd 0 2 fmempty)"
  by (rule fmap_ext) (auto simp: count_loop_iterations_lookup loop_entries_def shared_result_def)

lemma shared_matches: "constraint_matches_loop_condition shared_condition (shared_loop k init)"
  by (simp add: constraint_matches_loop_condition_def shared_loop_def)

text \<open>An iteration order that starts with the given key.\<close>

definition starting_with :: "u32 \<Rightarrow> hash_order" where
  "starting_with k S = (if k |\<in>| S then k # sorted_list_of_fset (S |-| {|k|}) else sorted_list_of_fset S)"

lemma starting_with_order: "is_order (starting_with k)"
  by (auto simp: is_order_def starting_with_def sorted_list_of_fset.rep_eq)

text \<open>The loops that a constraint may be attributed to, with the number of their entries.\<close>

definition candidate_loops :: "loop_info list \<Rightarrow> execute_result \<Rightarrow> sym_expr \<Rightarrow> (loop_info \<times> u32) set" where
  "candidate_loops loops result e =
     {(li, word_of_nat (loop_entries result loop_id)) | li loop_id.
        fmlookup (loop_map loops) loop_id = Some li \<and> 0 < loop_entries result loop_id \<and> constraint_matches_loop_condition e li}"

lemma backedge_candidate:
  "backedge order loops result e = Some (loop_id, li, n) \<Longrightarrow> (li, n) \<in> candidate_loops loops result e"
  by (drule matched_loop_Some) (auto simp: candidate_loops_def count_loop_iterations_lookup split: if_splits)

lemma matched_loop_complete:
  "matched_loop lm counts expr ids = None \<Longrightarrow> loop_id \<in> set ids \<Longrightarrow> fmlookup lm loop_id = Some li \<Longrightarrow>
     fmlookup counts loop_id = Some n \<Longrightarrow> \<not> constraint_matches_loop_condition expr li"
  by (induction ids) (auto split: option.splits if_splits)

lemma backedge_None:
  assumes "is_order order" and "backedge order loops result e = None"
  shows "candidate_loops loops result e = {}"
proof -
  have "\<not> constraint_matches_loop_condition e li"
    if "fmlookup (loop_map loops) loop_id = Some li" "0 < loop_entries result loop_id" for loop_id li
  proof (rule matched_loop_complete [OF assms(2)])
    show "loop_id \<in> set (order (fmdom (loop_map loops)))" using assms(1) fmdomI [OF that(1)] by (simp add: is_order_def)
    show "fmlookup (count_loop_iterations result) loop_id = Some (word_of_nat (loop_entries result loop_id))"
      using that(2) by (simp add: count_loop_iterations_lookup)
  qed (rule that(1))
  then show ?thesis by (auto simp: candidate_loops_def)
qed

lemma candidate_chosen:
  assumes "(li, n) \<in> candidate_loops loops result e"
  shows "\<exists>loop_id. backedge (starting_with loop_id) loops result e = Some (loop_id, li, n)"
proof -
  from assms obtain loop_id where l: "fmlookup (loop_map loops) loop_id = Some li" "0 < loop_entries result loop_id"
    "constraint_matches_loop_condition e li" "n = word_of_nat (loop_entries result loop_id)"
    by (auto simp: candidate_loops_def)
  then have "backedge (starting_with loop_id) loops result e = Some (loop_id, li, n)"
    using fmdomI [OF l(1)] by (simp add: starting_with_def count_loop_iterations_lookup)
  then show ?thesis ..
qed


theorem rewrite_loop_constraints_collapses_witness:
  "is_order ascending \<and>
   rewrite_loop_constraints ascending [Some shared_condition, None, Some shared_condition]
     [shared_loop 0 0] shared_result =
   concat (map (collapsed_at (backedge ascending [shared_loop 0 0] shared_result)
     [Some shared_condition, None, Some shared_condition]) [0, 1, 2])"
proof -
  have "[0..<length [Some shared_condition, None, Some shared_condition]] = [0, 1, 2]" by (simp add: upt_rec)
  then show ?thesis
    using rewrite_loop_constraints_collapses [OF ascending_order,
        of "[Some shared_condition, None, Some shared_condition]" "[shared_loop 0 0]" shared_result] ascending_order
    by (simp only:)
qed

text \<open>An assignment in which every iteration variable selects the first constraint.\<close>

definition shared_env :: senv where
  "shared_env v path = Some (VInt (if v = ''n'' then 5 else 0))"

lemma shared_candidate: "loop_of ascending [shared_loop 0 0, shared_loop 1 7] shared_result shared_condition = Some 0"
  unfolding shared_map shared_counts shared_orders
  by (simp add: shared_map shared_matches MAX_MERGE_DEPTH_def)

lemma shared_members:
  "members_of (loop_of ascending [shared_loop 0 0, shared_loop 1 7] shared_result) k 0
     [Some shared_condition, Some shared_condition] =
   (if k = 0 then [(0, shared_condition), (1, shared_condition)] else [])"
  using shared_candidate by (simp add: members_of_def List.map_filter_simps)

theorem merge_loop_states_exact_witness:
  "list_all (\<lambda>c. case c of Some e \<Rightarrow> holds (\<lambda>_ _ _. None) shared_env e | None \<Rightarrow> True)
     (merge_loop_states ascending ascending [Some shared_condition, Some shared_condition]
        [shared_loop 0 0, shared_loop 1 7] shared_result)"
proof -
  have n: "merge_var_name k \<noteq> ''n''" for k by (simp add: merge_var_name_def)
  have "\<forall>k. \<exists>x. shared_env (merge_var_name k) [] = Some (VInt x)" by (simp add: shared_env_def)
  note exact = merge_loop_states_exact [where \<rho> = shared_env and \<phi> = "\<lambda>_ _ _. None" and loops = "[shared_loop 0 0, shared_loop 1 7]"
      and result = shared_result and cs = "[Some shared_condition, Some shared_condition]", OF ascending_order ascending_order _ this]
  have "holds (\<lambda>_ _ _. None) shared_env shared_condition" by (simp add: shared_env_def)
  then have "\<forall>e. Some e \<in> set (merge_loop_states ascending ascending [Some shared_condition, Some shared_condition]
        [shared_loop 0 0, shared_loop 1 7] shared_result) \<longrightarrow> holds (\<lambda>_ _ _. None) shared_env e"
    unfolding exact [simplified] shared_members by (auto simp: less_Suc_eq shared_env_def n)
  then show ?thesis by (auto simp: list_all_iff split: option.split)
qed

end
