(* ===== verification/Symbolic_Unroll.thy ===== *)
theory Symbolic_Unroll
  imports Execution_Record Rust_Strings
begin

text \<open>
  Bounded symbolic unrolling (\<open>shatter-core/src/symbolic_unroll.rs\<close>): a template is extracted from
  the per-iteration snapshots of a counted loop, replayed iteration by iteration, or turned into a
  closed form over a free iteration variable. The theorems show that the closed form at iteration
  \<open>k\<close> has the value of the replayed state, and that it reproduces the observed snapshots.

  The \<open>?\<close> and \<open>return Err\<close> exits are values of \<open>template_extraction_error\<close>; the \<open>expect\<close> calls and the
  overflowing division of the constant folder are panics.
\<close>

section \<open>Data\<close>

definition MAX_TEMPLATE_ITERATIONS :: usize where "MAX_TEMPLATE_ITERATIONS = 32"
definition MAX_TEMPLATE_LOCALS :: usize where "MAX_TEMPLATE_LOCALS = 8"
definition MIN_TEMPLATE_ITERATIONS :: usize where "MIN_TEMPLATE_ITERATIONS = 2"
definition TRIANGULAR_DIVISOR :: i64 where "TRIANGULAR_DIVISOR = 2"

datatype accumulator_op = AccAdd | AccSub

datatype state_update =
    UpLinear sym_expr
  | UpAccumulator string accumulator_op

record local_template =
  lt_initial_expr :: sym_expr
  lt_update :: state_update

record iteration_template =
  it_loop_id :: u32
  it_iteration_var :: string
  it_iteration_count :: u32
  it_locals :: "(string, local_template) fmap"

record unrolled_formula =
  uf_iteration_var :: string
  uf_iteration_bound :: sym_expr
  uf_locals :: "(string, sym_expr) fmap"

datatype template_extraction_error =
    TooFewSnapshots usize
  | TooManySnapshots usize usize
  | TooManyLocals usize usize
  | MixedLoopIds u32 u32 u32
  | NonConsecutiveIterations u32 u32
  | IterationOutOfRange u32 u32
  | MissingLocal string u32
  | UnsupportedLocalPattern string
  | InvalidAccumulatorSource string string

section \<open>Expression builders\<close>

definition binary_expr :: "bin_op_kind \<Rightarrow> sym_expr \<Rightarrow> sym_expr \<Rightarrow> sym_expr" where
  "binary_expr op left right = SeBinOp op left right"

definition int_const :: "i64 \<Rightarrow> sym_expr" where
  "int_const v = SeConst (CInt v)"

definition zero_int_expr :: sym_expr where
  "zero_int_expr = int_const 0"

definition iteration_var_name :: "u32 \<Rightarrow> string" where
  "iteration_var_name loop_id = ''__loop_'' @ show_nat (unat loop_id) @ ''_iter''"

definition build_iteration_bound :: "string \<Rightarrow> u32 \<Rightarrow> sym_expr" where
  "build_iteration_bound iter_var n =
     (let iter_param = SeParam iter_var []
      in binary_expr OpAnd (binary_expr OpLe (int_const 0) iter_param)
           (binary_expr OpLt iter_param (int_const (ucast n))))"

definition build_linear_expr :: "sym_expr \<Rightarrow> sym_expr \<Rightarrow> sym_expr \<Rightarrow> sym_expr" where
  "build_linear_expr initial_expr step_expr iteration_expr =
     binary_expr OpAdd initial_expr (binary_expr OpMul step_expr iteration_expr)"

definition build_accumulator_expr ::
    "sym_expr \<Rightarrow> sym_expr \<Rightarrow> sym_expr \<Rightarrow> sym_expr \<Rightarrow> accumulator_op \<Rightarrow> sym_expr" where
  "build_accumulator_expr initial_expr addend_initial_expr addend_step_expr iteration_expr operator =
     (let scaled_initial = binary_expr OpMul iteration_expr addend_initial_expr;
          triangular_term =
            binary_expr OpDiv
              (binary_expr OpMul
                 (binary_expr OpMul iteration_expr (binary_expr OpSub iteration_expr (int_const 1)))
                 addend_step_expr)
              (int_const TRIANGULAR_DIVISOR);
          delta = binary_expr OpAdd scaled_initial triangular_term
      in case operator of
           AccAdd \<Rightarrow> binary_expr OpAdd initial_expr delta
         | AccSub \<Rightarrow> binary_expr OpSub initial_expr delta)"

section \<open>Constant folding\<close>

text \<open>
  Integer constants are folded bottom-up. Addition, subtraction and multiplication wrap in 64
  bits; the one quotient that does not fit, \<open>i64::MIN / -1\<close>, panics.
\<close>

definition fold_consts :: "bin_op_kind \<Rightarrow> i64 \<Rightarrow> i64 \<Rightarrow> panic + sym_expr" where
  "fold_consts op a b =
     (case op of
        OpAdd \<Rightarrow> Inr (int_const (a + b))
      | OpSub \<Rightarrow> Inr (int_const (a - b))
      | OpMul \<Rightarrow> Inr (int_const (a * b))
      | OpDiv \<Rightarrow>
          if b \<noteq> 0 then
            if sint a = - (2 ^ 63) \<and> sint b = -1 then Inl (Panic ''attempt to divide with overflow'')
            else Inr (int_const (word_of_int (sint a sdiv sint b)))
          else Inr (SeBinOp op (int_const a) (int_const b))
      | _ \<Rightarrow> Inr (SeBinOp op (int_const a) (int_const b)))"

definition fold_bin_op :: "bin_op_kind \<Rightarrow> sym_expr \<Rightarrow> sym_expr \<Rightarrow> panic + sym_expr" where
  "fold_bin_op op left right =
     (case (left, right) of
        (SeConst (CInt a), SeConst (CInt b)) \<Rightarrow> fold_consts op a b
      | _ \<Rightarrow> Inr (SeBinOp op left right))"

fun simplify_int_expr :: "sym_expr \<Rightarrow> panic + sym_expr"
  and simplify_args :: "sym_expr list \<Rightarrow> panic + sym_expr list"
where
  "simplify_int_expr (SeBinOp op left right) =
     and_then (simplify_int_expr left) (\<lambda>l.
     and_then (simplify_int_expr right) (\<lambda>r. fold_bin_op op l r))"
| "simplify_int_expr (SeUnOp op operand) =
     and_then (simplify_int_expr operand) (\<lambda>x. Inr (SeUnOp op x))"
| "simplify_int_expr (SeCall name receiver args) =
     and_then (case receiver of
                 None \<Rightarrow> Inr None
               | Some e \<Rightarrow> and_then (simplify_int_expr e) (\<lambda>x. Inr (Some x))) (\<lambda>rcv.
     and_then (simplify_args args) (\<lambda>xs. Inr (SeCall name rcv xs)))"
| "simplify_int_expr (SeIte condition then_expr else_expr) =
     and_then (simplify_int_expr condition) (\<lambda>c.
     and_then (simplify_int_expr then_expr) (\<lambda>t.
     and_then (simplify_int_expr else_expr) (\<lambda>e. Inr (SeIte c t e))))"
| "simplify_int_expr (SeParam name path) = Inr (SeParam name path)"
| "simplify_int_expr (SeConst c) = Inr (SeConst c)"
| "simplify_int_expr SeUnknown = Inr SeUnknown"
| "simplify_args [] = Inr []"
| "simplify_args (e # es) =
     and_then (simplify_int_expr e) (\<lambda>x. and_then (simplify_args es) (\<lambda>xs. Inr (x # xs)))"

section \<open>Extraction\<close>

text \<open>
  \<open>expected_iteration as u32\<close> truncates; the position is below 32 by the length check, and the
  conversion is written out.
\<close>

fun check_snapshots ::
    "u32 \<Rightarrow> nat \<Rightarrow> loop_body_state list \<Rightarrow> template_extraction_error + unit" where
  "check_snapshots expected_loop_id expected_iteration [] = Inr ()"
| "check_snapshots expected_loop_id expected_iteration (snapshot # rest) =
     (if ls_loop_id snapshot \<noteq> expected_loop_id then
        Inl (MixedLoopIds expected_loop_id (ls_loop_id snapshot) (ls_iteration snapshot))
      else if ls_iteration snapshot \<noteq> word_of_nat expected_iteration then
        Inl (NonConsecutiveIterations (word_of_nat expected_iteration) (ls_iteration snapshot))
      else check_snapshots expected_loop_id (Suc expected_iteration) rest)"

definition validate_snapshots ::
    "u32 \<Rightarrow> loop_body_state list \<Rightarrow> template_extraction_error + unit" where
  "validate_snapshots expected_loop_id snapshots =
     (if length snapshots < MIN_TEMPLATE_ITERATIONS then Inl (TooFewSnapshots (length snapshots))
      else if length snapshots > MAX_TEMPLATE_ITERATIONS then
        Inl (TooManySnapshots (length snapshots) MAX_TEMPLATE_ITERATIONS)
      else check_snapshots expected_loop_id 0 snapshots)"

definition required_local :: "loop_body_state \<Rightarrow> string \<Rightarrow> template_extraction_error + sym_expr" where
  "required_local snapshot local =
     (case fmlookup (ls_locals snapshot) local of
        None \<Rightarrow> Inl (MissingLocal local (ls_iteration snapshot))
      | Some e \<Rightarrow> Inr e)"

definition collect_local_values ::
    "loop_body_state list \<Rightarrow> string \<Rightarrow> template_extraction_error + sym_expr list" where
  "collect_local_values snapshots local =
     collect_results (map (\<lambda>snapshot. required_local snapshot local) snapshots)"

definition all_equal :: "sym_expr list \<Rightarrow> bool" where
  "all_equal vals \<longleftrightarrow> (\<forall>i\<in>{0..<length vals - 1}. sym_eq (vals ! i) (vals ! (i + 1)))"

definition matches_accumulator :: "sym_expr list \<Rightarrow> sym_expr list \<Rightarrow> bin_op_kind \<Rightarrow> bool" where
  "matches_accumulator local_values induction_values operator \<longleftrightarrow>
     length local_values = length induction_values \<and>
     (\<forall>i\<in>{1..<length local_values}.
        sym_eq (local_values ! i)
          (binary_expr operator (local_values ! (i - 1)) (induction_values ! (i - 1))))"

definition extract_local ::
    "loop_body_state list \<Rightarrow> string \<Rightarrow> sym_expr list \<Rightarrow> string
     \<Rightarrow> template_extraction_error + local_template" where
  "extract_local snapshots induction_name induction_values local_name =
     and_then (collect_local_values snapshots local_name) (\<lambda>local_values.
       let initial_expr = local_values ! 0
       in if all_equal local_values then
            Inr \<lparr>lt_initial_expr = initial_expr, lt_update = UpLinear zero_int_expr\<rparr>
          else if matches_accumulator local_values induction_values OpAdd then
            Inr \<lparr>lt_initial_expr = initial_expr, lt_update = UpAccumulator induction_name AccAdd\<rparr>
          else if matches_accumulator local_values induction_values OpSub then
            Inr \<lparr>lt_initial_expr = initial_expr, lt_update = UpAccumulator induction_name AccSub\<rparr>
          else Inl (UnsupportedLocalPattern local_name))"

fun extract_locals ::
    "loop_body_state list \<Rightarrow> string \<Rightarrow> sym_expr list \<Rightarrow> string list \<Rightarrow> (string, local_template) fmap
     \<Rightarrow> template_extraction_error + (string, local_template) fmap" where
  "extract_locals snapshots induction_name induction_values [] locals = Inr locals"
| "extract_locals snapshots induction_name induction_values (local_name # names) locals =
     (if local_name = induction_name then
        extract_locals snapshots induction_name induction_values names locals
      else
        and_then (extract_local snapshots induction_name induction_values local_name) (\<lambda>t.
          extract_locals snapshots induction_name induction_values names (fmupd local_name t locals)))"

definition extract_iteration_template ::
    "loop_info \<Rightarrow> loop_body_state list \<Rightarrow> template_extraction_error + iteration_template" where
  "extract_iteration_template li snapshots =
     and_then (validate_snapshots (lp_loop_id li) snapshots) (\<lambda>_.
       let first_snapshot = snapshots ! 0;
           found = fcard (fmdom (ls_locals first_snapshot));
           induction_name = iv_name (lp_induction_var li)
       in if found > MAX_TEMPLATE_LOCALS then Inl (TooManyLocals found MAX_TEMPLATE_LOCALS)
          else
            and_then (required_local first_snapshot induction_name) (\<lambda>induction_initial.
            and_then (collect_local_values snapshots induction_name) (\<lambda>induction_values.
            and_then (extract_locals snapshots induction_name induction_values
                        (btree_keys (ls_locals first_snapshot))
                        (fmupd induction_name
                           \<lparr>lt_initial_expr = induction_initial,
                            lt_update = UpLinear (iv_step_expr (lp_induction_var li))\<rparr> fmempty))
              (\<lambda>locals. Inr
                 \<lparr>it_loop_id = lp_loop_id li,
                  it_iteration_var = iteration_var_name (lp_loop_id li),
                  it_iteration_count = word_of_nat (length snapshots),
                  it_locals = locals\<rparr>))))"

section \<open>The closed form\<close>

definition unroll_local ::
    "(string, local_template) fmap \<Rightarrow> sym_expr \<Rightarrow> string \<Rightarrow> local_template
     \<Rightarrow> template_extraction_error + sym_expr" where
  "unroll_local locals iteration_param name local =
     (case lt_update local of
        UpLinear step_expr \<Rightarrow> Inr (build_linear_expr (lt_initial_expr local) step_expr iteration_param)
      | UpAccumulator source_local operator \<Rightarrow>
          (case fmlookup locals source_local of
             None \<Rightarrow> Inl (InvalidAccumulatorSource name source_local)
           | Some source \<Rightarrow>
               (case lt_update source of
                  UpLinear source_step \<Rightarrow>
                    Inr (build_accumulator_expr (lt_initial_expr local) (lt_initial_expr source)
                           source_step iteration_param operator)
                | UpAccumulator _ _ \<Rightarrow> Inl (InvalidAccumulatorSource name source_local))))"

fun unroll_locals ::
    "(string, local_template) fmap \<Rightarrow> sym_expr \<Rightarrow> string list \<Rightarrow> (string, sym_expr) fmap
     \<Rightarrow> template_extraction_error + (string, sym_expr) fmap" where
  "unroll_locals locals iteration_param [] acc = Inr acc"
| "unroll_locals locals iteration_param (name # names) acc =
     (case fmlookup locals name of
        None \<Rightarrow> unroll_locals locals iteration_param names acc
      | Some local \<Rightarrow>
          and_then (unroll_local locals iteration_param name local) (\<lambda>expr.
            unroll_locals locals iteration_param names (fmupd name expr acc)))"

definition build_unrolled_formula ::
    "iteration_template \<Rightarrow> template_extraction_error + unrolled_formula" where
  "build_unrolled_formula template =
     and_then (unroll_locals (it_locals template) (SeParam (it_iteration_var template) [])
                 (btree_keys (it_locals template)) fmempty)
       (\<lambda>locals. Inr
          \<lparr>uf_iteration_var = it_iteration_var template,
           uf_iteration_bound =
             build_iteration_bound (it_iteration_var template) (it_iteration_count template),
           uf_locals = locals\<rparr>)"

section \<open>Replay\<close>

fun accumulate_locals ::
    "(string, local_template) fmap \<Rightarrow> string list \<Rightarrow> (string, sym_expr) fmap
     \<Rightarrow> panic + (string, sym_expr) fmap" where
  "accumulate_locals locals [] state = Inr state"
| "accumulate_locals locals (name # names) state =
     (case map_option lt_update (fmlookup locals name) of
        Some (UpAccumulator source_local operator) \<Rightarrow>
          (case fmlookup state name of
             None \<Rightarrow> Inl (Panic ''accumulator local must already be initialized'')
           | Some previous \<Rightarrow>
               (case fmlookup state source_local of
                  None \<Rightarrow> Inl (Panic ''accumulator source local must already be initialized'')
                | Some source_value \<Rightarrow>
                    accumulate_locals locals names
                      (fmupd name
                         (case operator of
                            AccAdd \<Rightarrow> binary_expr OpAdd previous source_value
                          | AccSub \<Rightarrow> binary_expr OpSub previous source_value) state)))
      | _ \<Rightarrow> accumulate_locals locals names state)"

fun advance_linear ::
    "(string, local_template) fmap \<Rightarrow> nat \<Rightarrow> string list \<Rightarrow> (string, sym_expr) fmap
     \<Rightarrow> panic + (string, sym_expr) fmap" where
  "advance_linear locals next_iteration [] state = Inr state"
| "advance_linear locals next_iteration (name # names) state =
     (case fmlookup locals name of
        Some local \<Rightarrow>
          (case lt_update local of
             UpLinear step_expr \<Rightarrow>
               and_then
                 (simplify_int_expr
                    (build_linear_expr (lt_initial_expr local) step_expr
                       (int_const (word_of_nat next_iteration))))
                 (\<lambda>e. advance_linear locals next_iteration names (fmupd name e state))
           | UpAccumulator _ _ \<Rightarrow> advance_linear locals next_iteration names state)
      | None \<Rightarrow> advance_linear locals next_iteration names state)"

fun replay_iterations ::
    "(string, local_template) fmap \<Rightarrow> nat \<Rightarrow> (string, sym_expr) fmap \<Rightarrow> panic + (string, sym_expr) fmap" where
  "replay_iterations locals 0 state = Inr state"
| "replay_iterations locals (Suc i) state =
     and_then (replay_iterations locals i state) (\<lambda>s.
     and_then (accumulate_locals locals (btree_keys locals) s) (\<lambda>s'.
       advance_linear locals (Suc i) (btree_keys locals) s'))"

definition materialize_iteration_state ::
    "iteration_template \<Rightarrow> u32 \<Rightarrow> panic + (template_extraction_error + (string, sym_expr) fmap)" where
  "materialize_iteration_state template iteration =
     (if it_iteration_count template \<le> iteration then
        Inr (Inl (IterationOutOfRange iteration (it_iteration_count template)))
      else
        and_then (replay_iterations (it_locals template) (unat iteration)
                    (fmmap lt_initial_expr (it_locals template)))
          (\<lambda>state. Inr (Inr state)))"

section \<open>Folding keeps the value when nothing wraps\<close>

definition in_i64 :: "int \<Rightarrow> bool" where
  "in_i64 x \<longleftrightarrow> - (2 ^ 63) \<le> x \<and> x < 2 ^ 63"

fun fits :: "bin_op_kind \<Rightarrow> int \<Rightarrow> int \<Rightarrow> bool" where
  "fits OpAdd a b = in_i64 (a + b)"
| "fits OpSub a b = in_i64 (a - b)"
| "fits OpMul a b = in_i64 (a * b)"
| "fits OpDiv a b = (b = 0 \<or> in_i64 (a sdiv b))"
| "fits _ _ _ = True"

fun folds_exact :: "sym_expr \<Rightarrow> bool"
  and folds_exact_args :: "sym_expr list \<Rightarrow> bool"
where
  "folds_exact (SeBinOp op l r) =
     (folds_exact l \<and> folds_exact r \<and>
      (case (simplify_int_expr l, simplify_int_expr r) of
         (Inr (SeConst (CInt a)), Inr (SeConst (CInt b))) \<Rightarrow> fits op (sint a) (sint b)
       | _ \<Rightarrow> True))"
| "folds_exact (SeUnOp op e) = folds_exact e"
| "folds_exact (SeCall f rcv args) =
     ((case rcv of None \<Rightarrow> True | Some r \<Rightarrow> folds_exact r) \<and> folds_exact_args args)"
| "folds_exact (SeIte c t e) = (folds_exact c \<and> folds_exact t \<and> folds_exact e)"
| "folds_exact _ = True"
| "folds_exact_args [] = True"
| "folds_exact_args (e # es) = (folds_exact e \<and> folds_exact_args es)"

lemma sint_word_of_int: "in_i64 x \<Longrightarrow> sint (word_of_int x :: i64) = x"
  by (simp add: in_i64_def sint_sbintrunc' signed_take_bit_int_eq_self)

lemma sint_exact:
  fixes a b :: i64
  shows "in_i64 (sint a + sint b) \<Longrightarrow> sint (a + b) = sint a + sint b"
    and "in_i64 (sint a - sint b) \<Longrightarrow> sint (a - b) = sint a - sint b"
    and "in_i64 (sint a * sint b) \<Longrightarrow> sint (a * b) = sint a * sint b"
  by (simp_all add: in_i64_def sint_word_add sint_word_diff sint_word_mult signed_take_bit_int_eq_self)

lemma seval_int_const [simp]: "seval \<phi> \<rho> (int_const v) = Some (VInt (sint v))"
  by (simp add: int_const_def)

lemma seval_binary [simp]:
  "seval \<phi> \<rho> (binary_expr op l r) = bin_val op (seval \<phi> \<rho> l) (seval \<phi> \<rho> r)"
  by (simp add: binary_expr_def)

lemma fold_consts_sound:
  assumes "fits op (sint a) (sint b)"
  shows "\<exists>e. fold_consts op a b = Inr e \<and> (\<forall>\<phi> \<rho>. seval \<phi> \<rho> e = int_op op (sint a) (sint b))"
proof (cases op)
  case OpDiv
  show ?thesis
  proof (cases "b = 0")
    case False
    then have nz: "sint b \<noteq> 0" by (metis sint_0 signed_word_eqI)
    have "\<not> (sint a = - (2 ^ 63) \<and> sint b = - 1)"
      using assms OpDiv nz by (auto simp: in_i64_def signed_divide_int_def)
    with False nz assms OpDiv show ?thesis
      by (auto simp: fold_consts_def sint_word_of_int)
  qed (simp add: OpDiv fold_consts_def)
qed (use assms in \<open>simp_all add: fold_consts_def sint_exact\<close>)

lemma fold_bin_op_sound:
  assumes "case (l, r) of (SeConst (CInt a), SeConst (CInt b)) \<Rightarrow> fits op (sint a) (sint b) | _ \<Rightarrow> True"
  shows "\<exists>e. fold_bin_op op l r = Inr e \<and> (\<forall>\<phi> \<rho>. seval \<phi> \<rho> e = seval \<phi> \<rho> (SeBinOp op l r))"
proof (cases "\<exists>a b. l = SeConst (CInt a) \<and> r = SeConst (CInt b)")
  case True
  then obtain a b where "l = SeConst (CInt a)" "r = SeConst (CInt b)" by blast
  with assms fold_consts_sound [of op a b] show ?thesis by (simp add: fold_bin_op_def)
next
  case False
  then have "fold_bin_op op l r = Inr (SeBinOp op l r)"
    by (auto simp: fold_bin_op_def split: sym_expr.splits const_value.splits)
  then show ?thesis by simp
qed

lemma simplify_sound:
  "folds_exact e \<Longrightarrow> \<exists>e'. simplify_int_expr e = Inr e' \<and> (\<forall>\<phi> \<rho>. seval \<phi> \<rho> e' = seval \<phi> \<rho> e)"
  "folds_exact_args es \<Longrightarrow>
     \<exists>es'. simplify_args es = Inr es' \<and> (\<forall>\<phi> \<rho>. seval_args \<phi> \<rho> es' = seval_args \<phi> \<rho> es)"
proof (induction e and es rule: simplify_int_expr_simplify_args.induct)
  case (1 op l r)
  then obtain l' r' where l: "simplify_int_expr l = Inr l'" "\<And>\<phi> \<rho>. seval \<phi> \<rho> l' = seval \<phi> \<rho> l"
    and r: "simplify_int_expr r = Inr r'" "\<And>\<phi> \<rho>. seval \<phi> \<rho> r' = seval \<phi> \<rho> r" by auto
  have "case (l', r') of (SeConst (CInt a), SeConst (CInt b)) \<Rightarrow> fits op (sint a) (sint b) | _ \<Rightarrow> True"
    using 1(3) l(1) r(1) by (auto split: sym_expr.splits const_value.splits)
  from fold_bin_op_sound [OF this] show ?case by (auto simp: l r)
next
  case (3 f rcv args)
  then show ?case by (cases rcv) auto
next
  case (4 c t e)
  then show ?case by (auto split: option.split sval.split)
qed auto

section \<open>What a template means\<close>

text \<open>
  The value of a local at iteration \<open>k\<close>, from the values of the expressions of its template: a linear
  local is \<open>init + step * k\<close>, an accumulator has added (subtracted) the source's values of the
  iterations before \<open>k\<close>.
\<close>

definition ival :: "scalls \<Rightarrow> senv \<Rightarrow> sym_expr \<Rightarrow> int" where
  "ival \<phi> \<rho> e = (case seval \<phi> \<rho> e of Some (VInt i) \<Rightarrow> i | _ \<Rightarrow> 0)"

definition is_int :: "scalls \<Rightarrow> senv \<Rightarrow> sym_expr \<Rightarrow> bool" where
  "is_int \<phi> \<rho> e \<longleftrightarrow> seval \<phi> \<rho> e = Some (VInt (ival \<phi> \<rho> e))"

definition acc_value :: "accumulator_op \<Rightarrow> int \<Rightarrow> int \<Rightarrow> int \<Rightarrow> nat \<Rightarrow> int" where
  "acc_value op a b s k =
     (case op of AccAdd \<Rightarrow> a + (\<Sum>i<k. b + s * int i) | AccSub \<Rightarrow> a - (\<Sum>i<k. b + s * int i))"

definition local_value ::
    "scalls \<Rightarrow> senv \<Rightarrow> (string, local_template) fmap \<Rightarrow> local_template \<Rightarrow> nat \<Rightarrow> int" where
  "local_value \<phi> \<rho> L t k =
     (case lt_update t of
        UpLinear step \<Rightarrow> ival \<phi> \<rho> (lt_initial_expr t) + ival \<phi> \<rho> step * int k
      | UpAccumulator src op \<Rightarrow>
          (case fmlookup L src of
             Some t' \<Rightarrow>
               (case lt_update t' of
                  UpLinear step \<Rightarrow>
                    acc_value op (ival \<phi> \<rho> (lt_initial_expr t)) (ival \<phi> \<rho> (lt_initial_expr t')) (ival \<phi> \<rho> step) k
                | _ \<Rightarrow> 0)
           | None \<Rightarrow> 0))"

text \<open>Templates over integers, that do not mention the iteration variable.\<close>

definition int_local :: "scalls \<Rightarrow> senv \<Rightarrow> local_template \<Rightarrow> bool" where
  "int_local \<phi> \<rho> t \<longleftrightarrow> is_int \<phi> \<rho> (lt_initial_expr t) \<and>
     (case lt_update t of UpLinear step \<Rightarrow> is_int \<phi> \<rho> step | _ \<Rightarrow> True)"

definition local_params :: "local_template \<Rightarrow> string set" where
  "local_params t = extract_param_names (lt_initial_expr t) \<union>
     (case lt_update t of UpLinear step \<Rightarrow> extract_param_names step | _ \<Rightarrow> {})"

definition sources_linear :: "(string, local_template) fmap \<Rightarrow> bool" where
  "sources_linear L \<longleftrightarrow>
     (\<forall>name t src op. fmlookup L name = Some t \<longrightarrow> lt_update t = UpAccumulator src op \<longrightarrow>
        (\<exists>t' step. fmlookup L src = Some t' \<and> lt_update t' = UpLinear step))"

lemma sdiv2_even: "(2 * y) sdiv 2 = (y::int)"
  by (simp add: signed_divide_int_def abs_mult sgn_mult sgn_mult_abs)

lemma triangular_sum: "2 * (\<Sum>i<k. b + s * int i) = 2 * (int k * b) + int k * (int k - 1) * s"
  by (induction k) (simp_all add: algebra_simps)

lemma triangular_sdiv:
  "int k * b + (int k * (int k - 1) * s) sdiv 2 = (\<Sum>i<k. b + s * int i)"
proof -
  define y where "y = (\<Sum>i<k. b + s * int i) - int k * b"
  have "int k * (int k - 1) * s = 2 * y"
    using triangular_sum [where k = k and b = b and s = s] by (simp add: y_def)
  then show ?thesis by (simp only: sdiv2_even) (simp add: y_def)
qed

lemma acc_value_Suc:
  "acc_value op a b s (Suc k) =
     (case op of AccAdd \<Rightarrow> acc_value op a b s k + (b + s * int k) | AccSub \<Rightarrow> acc_value op a b s k - (b + s * int k))"
  by (cases op) (simp_all add: acc_value_def)

section \<open>The closed form has the template's value\<close>

lemma unroll_local_sources: "unroll_local L p name t = Inr e \<Longrightarrow> lt_update t = UpAccumulator src op \<Longrightarrow>
    \<exists>t' step. fmlookup L src = Some t' \<and> lt_update t' = UpLinear step"
  by (auto simp: unroll_local_def split: option.splits state_update.splits)

lemma unroll_local_value:
  assumes "unroll_local L (SeParam v []) name t = Inr e" and "fmlookup L name = Some t"
    and int: "\<And>u. u \<in> fmran' L \<Longrightarrow> int_local \<phi> \<rho> u"
    and fresh: "\<And>u. u \<in> fmran' L \<Longrightarrow> v \<notin> local_params u"
  shows "seval \<phi> (bind_int \<rho> v (int k)) e = Some (VInt (local_value \<phi> \<rho> L t k))"
proof -
  have t: "t \<in> fmran' L" using assms(2) by (rule fmran'I)
  note facts = int [OF t] fresh [OF t]
  show ?thesis
  proof (cases "lt_update t")
    case (UpLinear step)
    with assms(1) facts show ?thesis
      by (auto simp: unroll_local_def build_linear_expr_def int_local_def is_int_def local_params_def
        local_value_def extract_param_names_set)
  next
    case (UpAccumulator src op)
    then obtain t' step where t': "fmlookup L src = Some t'" "lt_update t' = UpLinear step"
      using unroll_local_sources [OF assms(1)] by blast
    have "t' \<in> fmran' L" using t'(1) by (rule fmran'I)
    note facts = facts int [OF this] fresh [OF this]
    show ?thesis
      using assms(1) facts UpAccumulator t'
      by (cases op)
        (auto simp: unroll_local_def build_accumulator_expr_def int_local_def is_int_def local_params_def
          local_value_def extract_param_names_set TRIANGULAR_DIVISOR_def Let_def acc_value_def
          triangular_sdiv)
  qed
qed

lemma unroll_locals_lookup:
  assumes "unroll_locals L p names acc = Inr m"
  shows "name \<in> set names \<Longrightarrow> fmlookup L name = Some t \<Longrightarrow>
           \<exists>e. unroll_local L p name t = Inr e \<and> fmlookup m name = Some e"
    and "name \<notin> set names \<or> fmlookup L name = None \<Longrightarrow> fmlookup m name = fmlookup acc name"
proof -
  have "(name \<in> set names \<longrightarrow> fmlookup L name = Some t \<longrightarrow>
           (\<exists>e. unroll_local L p name t = Inr e \<and> fmlookup m name = Some e)) \<and>
        (name \<notin> set names \<or> fmlookup L name = None \<longrightarrow> fmlookup m name = fmlookup acc name)"
    using assms
  proof (induction names arbitrary: acc)
    case (Cons n names)
    then show ?case
      by (cases "name \<in> set names") (auto split: option.splits simp: and_then_Inr_iff)
  qed simp
  then show "name \<in> set names \<Longrightarrow> fmlookup L name = Some t \<Longrightarrow>
           \<exists>e. unroll_local L p name t = Inr e \<and> fmlookup m name = Some e"
    and "name \<notin> set names \<or> fmlookup L name = None \<Longrightarrow> fmlookup m name = fmlookup acc name"
    by blast+
qed

lemma build_unrolled_lookup:
  assumes "build_unrolled_formula t = Inr f"
  shows "fmlookup (it_locals t) name = Some u \<Longrightarrow>
      \<exists>e. unroll_local (it_locals t) (SeParam (it_iteration_var t) []) name u = Inr e \<and>
          fmlookup (uf_locals f) name = Some e"
    and "fmdom (uf_locals f) = fmdom (it_locals t)"
    and "uf_iteration_bound f = build_iteration_bound (it_iteration_var t) (it_iteration_count t)"
proof -
  obtain m where m: "unroll_locals (it_locals t) (SeParam (it_iteration_var t) [])
      (btree_keys (it_locals t)) fmempty = Inr m" and f: "uf_locals f = m"
      "uf_iteration_bound f = build_iteration_bound (it_iteration_var t) (it_iteration_count t)"
    using assms by (auto simp: build_unrolled_formula_def and_then_Inr_iff)
  note lk = unroll_locals_lookup [OF m]
  show some: "\<exists>e. unroll_local (it_locals t) (SeParam (it_iteration_var t) []) name u = Inr e \<and>
      fmlookup (uf_locals f) name = Some e" if "fmlookup (it_locals t) name = Some u" for name u
    using lk(1) [of name u] that f(1) by (auto simp: fmdom'_iff)
  show "fmdom (uf_locals f) = fmdom (it_locals t)"
  proof (rule fset_eqI)
    fix n
    show "n |\<in>| fmdom (uf_locals f) \<longleftrightarrow> n |\<in>| fmdom (it_locals t)"
      using some [of n] lk(2) [of n] f(1)
      by (cases "fmlookup (it_locals t) n") (auto simp: fmlookup_dom_iff)
  qed
  show "uf_iteration_bound f = build_iteration_bound (it_iteration_var t) (it_iteration_count t)" by (rule f)
qed

section \<open>The replay has the template's value\<close>

definition linear_exact :: "(string, local_template) fmap \<Rightarrow> nat \<Rightarrow> bool" where
  "linear_exact L j \<longleftrightarrow>
     (\<forall>t\<in>fmran' L.
        case lt_update t of
          UpLinear step \<Rightarrow>
            folds_exact (build_linear_expr (lt_initial_expr t) step (int_const (word_of_nat j)))
        | UpAccumulator _ _ \<Rightarrow> True)"

definition state_at ::
    "scalls \<Rightarrow> senv \<Rightarrow> (string, local_template) fmap \<Rightarrow> (string \<Rightarrow> nat) \<Rightarrow> (string, sym_expr) fmap \<Rightarrow> bool" where
  "state_at \<phi> \<rho> L k st \<longleftrightarrow>
     fmdom st = fmdom L \<and>
     (\<forall>name t. fmlookup L name = Some t \<longrightarrow>
        (\<exists>e. fmlookup st name = Some e \<and> seval \<phi> \<rho> e = Some (VInt (local_value \<phi> \<rho> L t (k name)))))"

abbreviation is_linear :: "(string, local_template) fmap \<Rightarrow> string \<Rightarrow> bool" where
  "is_linear L name \<equiv> \<exists>t step. fmlookup L name = Some t \<and> lt_update t = UpLinear step"

lemma state_at_cong:
  "state_at \<phi> \<rho> L k st \<Longrightarrow> (\<And>name. name \<in> fmdom' L \<Longrightarrow> k name = k' name) \<Longrightarrow> state_at \<phi> \<rho> L k' st"
  by (force simp: state_at_def fmdom'_iff)

lemma state_at_upd:
  assumes "state_at \<phi> \<rho> L k st" and "fmlookup L name = Some t"
    and "seval \<phi> \<rho> e = Some (VInt (local_value \<phi> \<rho> L t j))"
  shows "state_at \<phi> \<rho> L (k(name := j)) (fmupd name e st)"
proof -
  have "finsert name (fmdom L) = fmdom L"
    using assms(2) by (simp add: finsert_absorb fmdomI)
  with assms show ?thesis by (auto simp: state_at_def)
qed

lemma local_value_acc_Suc:
  assumes "fmlookup L src = Some u" and "lt_update u = UpLinear step" and "lt_update t = UpAccumulator src op"
  shows "local_value \<phi> \<rho> L t (Suc k) =
     (case op of AccAdd \<Rightarrow> local_value \<phi> \<rho> L t k + local_value \<phi> \<rho> L u k
               | AccSub \<Rightarrow> local_value \<phi> \<rho> L t k - local_value \<phi> \<rho> L u k)"
  using assms by (cases op) (simp_all add: local_value_def acc_value_Suc)

lemma accumulate_locals_ok:
  assumes "sources_linear L" and "distinct names" and "set names \<subseteq> fmdom' L"
    and "\<And>name. name \<in> set names \<or> is_linear L name \<Longrightarrow> k name = i"
    and "state_at \<phi> \<rho> L k st"
  shows "\<exists>st'. accumulate_locals L names st = Inr st' \<and>
     state_at \<phi> \<rho> L (\<lambda>n. if n \<in> set names \<and> \<not> is_linear L n then Suc i else k n) st'"
  using assms(2-)
proof (induction names arbitrary: st k)
  case Nil
  then show ?case by simp
next
  case (Cons n names)
  then obtain t where t: "fmlookup L n = Some t" by (auto simp: fmdom'_iff)
  show ?case
  proof (cases "lt_update t")
    case (UpLinear step)
    then have lin: "is_linear L n" using t by blast
    have "\<exists>st'. accumulate_locals L names st = Inr st' \<and>
        state_at \<phi> \<rho> L (\<lambda>m. if m \<in> set names \<and> \<not> is_linear L m then Suc i else k m) st'"
      by (rule Cons.IH) (use Cons.prems in auto)
    then obtain st' where st': "accumulate_locals L names st = Inr st'"
      "state_at \<phi> \<rho> L (\<lambda>m. if m \<in> set names \<and> \<not> is_linear L m then Suc i else k m) st'" by blast
    have "state_at \<phi> \<rho> L (\<lambda>m. if m \<in> set (n # names) \<and> \<not> is_linear L m then Suc i else k m) st'"
      by (rule state_at_cong [OF st'(2)]) (use lin in auto)
    with st'(1) show ?thesis using t UpLinear by auto
  next
    case (UpAccumulator src op)
    then obtain u step where u: "fmlookup L src = Some u" "lt_update u = UpLinear step"
      using assms(1) t unfolding sources_linear_def by blast
    then have src: "is_linear L src" by blast
    have nlin: "\<not> is_linear L n" using t UpAccumulator by auto
    have ki: "k n = i" "k src = i" using Cons.prems(3) [of n] Cons.prems(3) [of src] src by simp_all
    obtain p where p: "fmlookup st n = Some p" "seval \<phi> \<rho> p = Some (VInt (local_value \<phi> \<rho> L t i))"
      using Cons.prems(4) t ki(1) unfolding state_at_def by metis
    obtain q where q: "fmlookup st src = Some q" "seval \<phi> \<rho> q = Some (VInt (local_value \<phi> \<rho> L u i))"
      using Cons.prems(4) u(1) ki(2) unfolding state_at_def by metis
    define e where "e = (case op of AccAdd \<Rightarrow> binary_expr OpAdd p q | AccSub \<Rightarrow> binary_expr OpSub p q)"
    have e: "seval \<phi> \<rho> e = Some (VInt (local_value \<phi> \<rho> L t (Suc i)))"
      unfolding e_def local_value_acc_Suc [OF u UpAccumulator] by (cases op) (simp_all add: p q)
    have upd: "state_at \<phi> \<rho> L (k(n := Suc i)) (fmupd n e st)"
      by (rule state_at_upd [OF Cons.prems(4) t e])
    have "\<exists>st'. accumulate_locals L names (fmupd n e st) = Inr st' \<and>
        state_at \<phi> \<rho> L (\<lambda>m. if m \<in> set names \<and> \<not> is_linear L m then Suc i else (k(n := Suc i)) m) st'"
      by (rule Cons.IH [OF _ _ _ upd]) (use Cons.prems nlin in auto)
    then obtain st' where st': "accumulate_locals L names (fmupd n e st) = Inr st'"
      "state_at \<phi> \<rho> L (\<lambda>m. if m \<in> set names \<and> \<not> is_linear L m then Suc i else (k(n := Suc i)) m) st'"
      by blast
    have "state_at \<phi> \<rho> L (\<lambda>m. if m \<in> set (n # names) \<and> \<not> is_linear L m then Suc i else k m) st'"
      by (rule state_at_cong [OF st'(2)]) (use nlin in auto)
    moreover have "accumulate_locals L (n # names) st = Inr st'"
      using st'(1) t UpAccumulator p(1) q(1) by (simp add: e_def)
    ultimately show ?thesis by blast
  qed
qed

lemma advance_linear_ok:
  assumes ex: "linear_exact L j" and "j < 2 ^ 32"
    and int: "\<And>u. u \<in> fmran' L \<Longrightarrow> int_local \<phi> \<rho> u"
    and "set names \<subseteq> fmdom' L" and "state_at \<phi> \<rho> L k st"
  shows "\<exists>st'. advance_linear L j names st = Inr st' \<and>
     state_at \<phi> \<rho> L (\<lambda>n. if n \<in> set names \<and> is_linear L n then j else k n) st'"
  using assms(4-)
proof (induction names arbitrary: st k)
  case Nil
  then show ?case by simp
next
  case (Cons n names)
  then obtain t where t: "fmlookup L n = Some t" by (auto simp: fmdom'_iff)
  then have tr: "t \<in> fmran' L" by (rule fmran'I)
  show ?case
  proof (cases "lt_update t")
    case (UpLinear step)
    then have lin: "is_linear L n" using t by blast
    from ex tr UpLinear have "folds_exact (build_linear_expr (lt_initial_expr t) step (int_const (word_of_nat j)))"
      unfolding linear_exact_def by (auto split: state_update.splits)
    from simplify_sound(1) [OF this] obtain e where
      e: "simplify_int_expr (build_linear_expr (lt_initial_expr t) step (int_const (word_of_nat j))) = Inr e"
      "seval \<phi> \<rho> e = seval \<phi> \<rho> (build_linear_expr (lt_initial_expr t) step (int_const (word_of_nat j)))" by blast
    have sj: "sint (word_of_nat j :: i64) = int j"
      using sint_word_of_int [of "int j"] assms(2) by (simp add: in_i64_def)
    have "seval \<phi> \<rho> e = Some (VInt (local_value \<phi> \<rho> L t j))"
      using int [OF tr] UpLinear by (simp add: e(2) build_linear_expr_def sj int_local_def is_int_def local_value_def)
    from Cons.IH [OF _ state_at_upd [OF Cons.prems(2) t this]] Cons.prems(1)
    obtain st' where st': "advance_linear L j names (fmupd n e st) = Inr st'"
      "state_at \<phi> \<rho> L (\<lambda>m. if m \<in> set names \<and> is_linear L m then j else (k(n := j)) m) st'" by auto
    have "state_at \<phi> \<rho> L (\<lambda>m. if m \<in> set (n # names) \<and> is_linear L m then j else k m) st'"
      by (rule state_at_cong [OF st'(2)]) (use lin in auto)
    with st'(1) show ?thesis using t UpLinear e(1) by auto
  next
    case (UpAccumulator src op)
    then have nlin: "\<not> is_linear L n" using t by auto
    from Cons.IH [OF _ Cons.prems(2)] Cons.prems(1)
    obtain st' where st': "advance_linear L j names st = Inr st'"
      "state_at \<phi> \<rho> L (\<lambda>m. if m \<in> set names \<and> is_linear L m then j else k m) st'" by auto
    have "state_at \<phi> \<rho> L (\<lambda>m. if m \<in> set (n # names) \<and> is_linear L m then j else k m) st'"
      by (rule state_at_cong [OF st'(2)]) (use nlin in auto)
    with st'(1) show ?thesis using t UpAccumulator by auto
  qed
qed

lemma replay_iterations_ok:
  assumes "sources_linear L" and "\<And>j. 0 < j \<Longrightarrow> j \<le> k \<Longrightarrow> linear_exact L j" and "k < 2 ^ 32"
    and int: "\<And>u. u \<in> fmran' L \<Longrightarrow> int_local \<phi> \<rho> u"
  shows "\<exists>st. replay_iterations L k (fmmap lt_initial_expr L) = Inr st \<and> state_at \<phi> \<rho> L (\<lambda>_. k) st"
  using assms(2,3)
proof (induction k)
  case 0
  have "\<exists>e. fmlookup (fmmap lt_initial_expr L) name = Some e \<and> seval \<phi> \<rho> e = Some (VInt (local_value \<phi> \<rho> L t 0))"
    if t: "fmlookup L name = Some t" for name t
  proof (cases "lt_update t")
    case (UpAccumulator src op)
    then obtain u step where "fmlookup L src = Some u" "lt_update u = UpLinear step"
      using assms(1) t unfolding sources_linear_def by blast
    with UpAccumulator int [OF fmran'I [OF t]] t show ?thesis
      by (cases op) (simp_all add: local_value_def acc_value_def int_local_def is_int_def)
  qed (use int [OF fmran'I [OF t]] t in \<open>simp_all add: local_value_def int_local_def is_int_def\<close>)
  then show ?case by (simp add: state_at_def)
next
  case (Suc k)
  then obtain st where st: "replay_iterations L k (fmmap lt_initial_expr L) = Inr st"
    "state_at \<phi> \<rho> L (\<lambda>_. k) st" by auto
  obtain s1 where s1: "accumulate_locals L (btree_keys L) st = Inr s1"
    "state_at \<phi> \<rho> L (\<lambda>n. if n \<in> set (btree_keys L) \<and> \<not> is_linear L n then Suc k else k) s1"
    using accumulate_locals_ok [OF assms(1) distinct_btree_keys _ _ st(2), of L k] by auto
  have ex: "linear_exact L (Suc k)" by (rule Suc.prems(1)) simp_all
  obtain s2 where s2: "advance_linear L (Suc k) (btree_keys L) s1 = Inr s2"
    "state_at \<phi> \<rho> L (\<lambda>n. if n \<in> set (btree_keys L) \<and> is_linear L n then Suc k
        else if n \<in> set (btree_keys L) \<and> \<not> is_linear L n then Suc k else k) s2"
    using advance_linear_ok [OF ex Suc.prems(2) int _ s1(2), of "btree_keys L"] by auto
  have "state_at \<phi> \<rho> L (\<lambda>_. Suc k) s2"
    by (rule state_at_cong [OF s2(2)]) auto
  with st(1) s1(1) s2(1) show ?case by auto
qed

text \<open>C34: Replaying a template and its closed form agree. Whenever a closed form is built, then for every
  iteration below the template's count the replay returns a state (it neither panics nor reports an
  error) over the same locals, and every local of it has the integer value of the closed form with
  the iteration variable set to that iteration. The initial and step expressions denote integers
  that do not mention the iteration variable, and the constants folded on the way fit in 64 bits.
\<close>

theorem closed_form_matches_replay:
  assumes f: "build_unrolled_formula t = Inr f" and k: "k < it_iteration_count t"
    and int: "\<forall>u\<in>fmran' (it_locals t). int_local \<phi> \<rho> u"
    and fresh: "\<forall>u\<in>fmran' (it_locals t). it_iteration_var t \<notin> local_params u"
    and exact: "\<forall>j\<in>{1..unat k}. linear_exact (it_locals t) j"
  shows "\<exists>st. materialize_iteration_state t k = Inr (Inr st) \<and>
     fmdom st = fmdom (it_locals t) \<and> fmdom (uf_locals f) = fmdom (it_locals t) \<and>
     (\<forall>name\<in>fmdom' (it_locals t). \<exists>e c i. fmlookup st name = Some e \<and> fmlookup (uf_locals f) name = Some c \<and>
        seval \<phi> \<rho> e = Some (VInt i) \<and>
        seval \<phi> (bind_int \<rho> (it_iteration_var t) (int (unat k))) c = Some (VInt i))"
proof -
  note lk = build_unrolled_lookup [OF f]
  have "sources_linear (it_locals t)"
    unfolding sources_linear_def using lk(1) unroll_local_sources by blast
  moreover have "unat k < 2 ^ 32" using unsigned_less [of k] by simp
  ultimately obtain st where st: "replay_iterations (it_locals t) (unat k) (fmmap lt_initial_expr (it_locals t)) = Inr st"
    "state_at \<phi> \<rho> (it_locals t) (\<lambda>_. unat k) st"
    using replay_iterations_ok [of "it_locals t" "unat k" \<phi> \<rho>] exact int by auto
  have "\<exists>e c i. fmlookup st name = Some e \<and> fmlookup (uf_locals f) name = Some c \<and>
        seval \<phi> \<rho> e = Some (VInt i) \<and> seval \<phi> (bind_int \<rho> (it_iteration_var t) (int (unat k))) c = Some (VInt i)"
    if n: "name \<in> fmdom' (it_locals t)" for name
  proof -
    from n obtain u where u: "fmlookup (it_locals t) name = Some u" by (auto simp: fmdom'_iff)
    then obtain e where "fmlookup st name = Some e"
      "seval \<phi> \<rho> e = Some (VInt (local_value \<phi> \<rho> (it_locals t) u (unat k)))"
      using st(2) unfolding state_at_def by blast
    moreover from lk(1) [OF u] obtain c where
      "unroll_local (it_locals t) (SeParam (it_iteration_var t) []) name u = Inr c" "fmlookup (uf_locals f) name = Some c"
      by blast
    ultimately show ?thesis
      using unroll_local_value [OF _ u, of "it_iteration_var t" c \<phi> \<rho> "unat k"] int fresh by blast
  qed
  then show ?thesis
    using st k lk(2) by (auto simp: materialize_iteration_state_def state_at_def not_le)
qed

section \<open>Extraction reproduces the snapshots\<close>

lemma check_snapshots_ok:
  "check_snapshots lid i snaps = Inr () \<Longrightarrow> j < length snaps \<Longrightarrow>
     ls_loop_id (snaps ! j) = lid \<and> ls_iteration (snaps ! j) = word_of_nat (i + j)"
  by (induction snaps arbitrary: i j) (auto split: if_splits simp: nth_Cons split: nat.splits)

lemma collect_local_values_ok:
  "collect_local_values snaps name = Inr vs \<longleftrightarrow>
     length vs = length snaps \<and> (\<forall>j<length snaps. fmlookup (ls_locals (snaps ! j)) name = Some (vs ! j))"
proof -
  have req: "required_local s name = Inr v \<longleftrightarrow> fmlookup (ls_locals s) name = Some v" for s v
    by (auto simp: required_local_def split: option.splits)
  show ?thesis
    by (auto simp: collect_local_values_def collect_results_Inr list_eq_iff_nth_eq req)
qed

lemma extract_locals_lookup:
  assumes "extract_locals snaps iv vs names L0 = Inr L"
  shows "name \<in> set names \<Longrightarrow> name \<noteq> iv \<Longrightarrow> \<exists>t. extract_local snaps iv vs name = Inr t \<and> fmlookup L name = Some t"
    and "name \<notin> set names \<or> name = iv \<Longrightarrow> fmlookup L name = fmlookup L0 name"
proof -
  have "(name \<in> set names \<longrightarrow> name \<noteq> iv \<longrightarrow> (\<exists>t. extract_local snaps iv vs name = Inr t \<and> fmlookup L name = Some t)) \<and>
    (name \<notin> set names \<or> name = iv \<longrightarrow> fmlookup L name = fmlookup L0 name)"
    using assms
  proof (induction names arbitrary: L0)
    case (Cons n names)
    then show ?case
      by (cases "name \<in> set names") (auto split: if_splits simp: and_then_Inr_iff)
  qed simp
  then show "name \<in> set names \<Longrightarrow> name \<noteq> iv \<Longrightarrow> \<exists>t. extract_local snaps iv vs name = Inr t \<and> fmlookup L name = Some t"
    and "name \<notin> set names \<or> name = iv \<Longrightarrow> fmlookup L name = fmlookup L0 name" by blast+
qed

lemma all_equal_val:
  "all_equal vs \<Longrightarrow> j < length vs \<Longrightarrow> seval \<phi> \<rho> (vs ! j) = seval \<phi> \<rho> (vs ! 0)"
proof (induction j)
  case (Suc j)
  then have "sym_eq (vs ! j) (vs ! (j + 1))" by (simp add: all_equal_def)
  from sym_eq_val(1) [OF this] Suc show ?case by simp
qed simp

lemma matches_accumulator_val:
  "matches_accumulator vs us op \<Longrightarrow> Suc j < length vs \<Longrightarrow>
     seval \<phi> \<rho> (vs ! Suc j) = bin_val op (seval \<phi> \<rho> (vs ! j)) (seval \<phi> \<rho> (us ! j))"
proof -
  assume "matches_accumulator vs us op" and j: "Suc j < length vs"
  then have "sym_eq (vs ! Suc j) (binary_expr op (vs ! (Suc j - 1)) (us ! (Suc j - 1)))"
    unfolding matches_accumulator_def using j by (metis atLeastLessThan_iff One_nat_def Suc_le_mono zero_le)
  from sym_eq_val(1) [OF this] show ?thesis by simp
qed

fun acc_bin :: "accumulator_op \<Rightarrow> bin_op_kind" where
  "acc_bin AccAdd = OpAdd"
| "acc_bin AccSub = OpSub"

lemma accumulated_val:
  assumes "matches_accumulator vs us (acc_bin op)" and "j < length vs"
    and "seval \<phi> \<rho> (vs ! 0) = Some (VInt a)"
    and "\<And>i. i < length us \<Longrightarrow> seval \<phi> \<rho> (us ! i) = Some (VInt (b + s * int i))"
  shows "seval \<phi> \<rho> (vs ! j) = Some (VInt (acc_value op a b s j))"
  using assms(2)
proof (induction j)
  case 0
  show ?case using assms(3) by (cases op) (simp_all add: acc_value_def)
next
  case (Suc j)
  have "j < length us" using Suc.prems assms(1) by (simp add: matches_accumulator_def)
  with Suc matches_accumulator_val [OF assms(1) Suc.prems] assms(4) show ?case
    by (cases op) (simp_all add: acc_value_Suc)
qed

lemma extract_facts:
  assumes "extract_iteration_template li snaps = Inr t"
  defines "iv \<equiv> iv_name (lp_induction_var li)"
  obtains us where "collect_local_values snaps iv = Inr us" and "2 \<le> length snaps" and "length snaps \<le> 32"
    and "it_iteration_var t = iteration_var_name (lp_loop_id li)"
    and "it_iteration_count t = word_of_nat (length snaps)"
    and "fmdom (it_locals t) = fmdom (ls_locals (snaps ! 0))"
    and "fmlookup (it_locals t) iv =
      Some \<lparr>lt_initial_expr = us ! 0, lt_update = UpLinear (iv_step_expr (lp_induction_var li))\<rparr>"
    and "\<And>name u. name \<noteq> iv \<Longrightarrow> fmlookup (it_locals t) name = Some u \<Longrightarrow> extract_local snaps iv us name = Inr u"
proof -
  let ?first = "snaps ! 0"
  let ?t0 = "\<lambda>init. fmupd iv \<lparr>lt_initial_expr = init, lt_update = UpLinear (iv_step_expr (lp_induction_var li))\<rparr> fmempty"
  from assms(1) obtain init us where
    v: "validate_snapshots (lp_loop_id li) snaps = Inr ()" and
    init: "required_local ?first iv = Inr init" and us: "collect_local_values snaps iv = Inr us" and
    L: "extract_locals snaps iv us (btree_keys (ls_locals ?first)) (?t0 init) = Inr (it_locals t)" and
    t: "it_iteration_var t = iteration_var_name (lp_loop_id li)"
      "it_iteration_count t = word_of_nat (length snaps)"
    by (auto simp: extract_iteration_template_def and_then_Inr_iff Let_def iv_def split: if_splits)
  have len: "2 \<le> length snaps" "length snaps \<le> 32"
    using v by (auto simp: validate_snapshots_def MIN_TEMPLATE_ITERATIONS_def MAX_TEMPLATE_ITERATIONS_def split: if_splits)
  then have pos: "0 < length snaps" by linarith
  have "init = us ! 0" and iv: "iv \<in> fmdom' (ls_locals ?first)"
    using init us pos by (auto simp: collect_local_values_ok required_local_def fmdom'_iff split: option.splits)
  note lk = extract_locals_lookup [OF L]
  show thesis
  proof (rule that [OF us len t])
    show "fmlookup (it_locals t) iv =
      Some \<lparr>lt_initial_expr = us ! 0, lt_update = UpLinear (iv_step_expr (lp_induction_var li))\<rparr>"
      using lk(2) [of iv] \<open>init = us ! 0\<close> by simp
    then have "n \<in> fmdom' (it_locals t) \<longleftrightarrow> n \<in> fmdom' (ls_locals ?first)" for n
      using lk(1) [of n] lk(2) [of n] iv
      by (cases "n = iv"; cases "n \<in> fmdom' (ls_locals ?first)") (auto simp: fmdom'_iff)
    then show "fmdom (it_locals t) = fmdom (ls_locals ?first)"
      by (intro fset_eqI) (simp add: fmdom'_alt_def)
    show "extract_local snaps iv us name = Inr u" if "name \<noteq> iv" "fmlookup (it_locals t) name = Some u" for name u
      using lk(1) [of name] lk(2) [of name] that by (cases "name \<in> fmdom' (ls_locals ?first)") auto
  qed
qed

lemma extract_local_cases:
  assumes "extract_local snaps iv us name = Inr u"
  obtains (const) vs where "collect_local_values snaps name = Inr vs" "all_equal vs"
      "u = \<lparr>lt_initial_expr = vs ! 0, lt_update = UpLinear zero_int_expr\<rparr>"
  | (acc) vs op where "collect_local_values snaps name = Inr vs" "matches_accumulator vs us (acc_bin op)"
      "u = \<lparr>lt_initial_expr = vs ! 0, lt_update = UpAccumulator iv op\<rparr>"
proof -
  from assms obtain vs where vs: "collect_local_values snaps name = Inr vs"
    by (auto simp: extract_local_def and_then_Inr_iff)
  consider "all_equal vs" | "\<not> all_equal vs" "matches_accumulator vs us OpAdd"
    | "\<not> all_equal vs" "\<not> matches_accumulator vs us OpAdd" "matches_accumulator vs us OpSub"
    using assms vs by (auto simp: extract_local_def Let_def split: if_splits)
  then show thesis
    using assms vs const [of vs] acc [of vs AccAdd] acc [of vs AccSub]
    by cases (auto simp: extract_local_def Let_def)
qed

lemma unroll_locals_total:
  assumes "sources_linear L"
  shows "\<exists>m. unroll_locals L p names acc = Inr m"
proof (induction names arbitrary: acc)
  case (Cons n names)
  show ?case
  proof (cases "fmlookup L n")
    case (Some t)
    have "\<exists>e. unroll_local L p n t = Inr e"
      using assms Some unfolding sources_linear_def
      by (cases "lt_update t") (fastforce simp: unroll_local_def)+
    with Some Cons.IH show ?thesis by auto
  qed (simp add: Cons.IH)
qed simp

lemma iteration_bound_value:
  "n < 2 ^ 32 \<Longrightarrow> seval \<phi> (bind_int \<rho> v k) (build_iteration_bound v (word_of_nat n)) = Some (VBool (0 \<le> k \<and> k < int n))"
proof -
  assume n: "n < 2 ^ 32"
  then have "(ucast (word_of_nat n :: u32) :: i64) = word_of_int (int n)"
    by (simp add: unsigned_of_nat take_bit_nat_eq_self ucast_eq)
  then have "sint (ucast (word_of_nat n :: u32) :: i64) = int n"
    using n sint_word_of_int [of "int n"] by (simp add: in_i64_def)
  then show ?thesis by (simp add: build_iteration_bound_def Let_def)
qed

text \<open>
  The snapshots of a counted loop over integers: the induction variable starts at \<open>b\<close> and advances by
  the step the static analysis reports, and the locals of the first snapshot denote integers.
\<close>

definition counted_run ::
    "scalls \<Rightarrow> senv \<Rightarrow> loop_info \<Rightarrow> loop_body_state list \<Rightarrow> int \<Rightarrow> int \<Rightarrow> bool" where
  "counted_run \<phi> \<rho> li snaps b s \<longleftrightarrow>
     seval \<phi> \<rho> (iv_step_expr (lp_induction_var li)) = Some (VInt s) \<and>
     (\<forall>j<length snaps. \<exists>e. fmlookup (ls_locals (snaps ! j)) (iv_name (lp_induction_var li)) = Some e \<and>
        seval \<phi> \<rho> e = Some (VInt (b + s * int j))) \<and>
     (\<forall>e\<in>fmran' (ls_locals (snaps ! 0)). is_int \<phi> \<rho> e)"

definition iteration_var_fresh :: "loop_info \<Rightarrow> loop_body_state list \<Rightarrow> bool" where
  "iteration_var_fresh li snaps \<longleftrightarrow>
     iteration_var_name (lp_loop_id li) \<notin> extract_param_names (iv_step_expr (lp_induction_var li)) \<and>
     (\<forall>e\<in>fmran' (ls_locals (snaps ! 0)). iteration_var_name (lp_loop_id li) \<notin> extract_param_names e)"

lemma extract_sources_linear:
  assumes "extract_iteration_template li snaps = Inr t"
  shows "sources_linear (it_locals t)"
proof (rule extract_facts [OF assms])
  fix us
  let ?iv = "iv_name (lp_induction_var li)" and ?L = "it_locals t"
  assume ind: "fmlookup ?L ?iv = Some \<lparr>lt_initial_expr = us ! 0, lt_update = UpLinear (iv_step_expr (lp_induction_var li))\<rparr>"
    and others: "\<And>name u. name \<noteq> ?iv \<Longrightarrow> fmlookup ?L name = Some u \<Longrightarrow> extract_local snaps ?iv us name = Inr u"
  have "\<exists>t' step. fmlookup ?L src = Some t' \<and> lt_update t' = UpLinear step"
    if u: "fmlookup ?L name = Some u" and acc: "lt_update u = UpAccumulator src op" for name u src op
  proof -
    have "name \<noteq> ?iv" using ind u acc by auto
    from others [OF this u] have "src = ?iv"
      by (cases rule: extract_local_cases) (use acc in auto)
    with ind show ?thesis by simp
  qed
  then show ?thesis unfolding sources_linear_def by blast
qed

lemma extract_values:
  assumes t: "extract_iteration_template li snaps = Inr t" and run: "counted_run \<phi> \<rho> li snaps b s"
    and u: "fmlookup (it_locals t) name = Some u"
  shows "int_local \<phi> \<rho> u"
    and "iteration_var_fresh li snaps \<Longrightarrow> it_iteration_var t \<notin> local_params u"
    and "j < length snaps \<Longrightarrow> \<exists>e. fmlookup (ls_locals (snaps ! j)) name = Some e \<and>
      seval \<phi> \<rho> e = Some (VInt (local_value \<phi> \<rho> (it_locals t) u j))"
proof -
  let ?iv = "iv_name (lp_induction_var li)" and ?step = "iv_step_expr (lp_induction_var li)"
  obtain us where us: "collect_local_values snaps ?iv = Inr us" and len: "2 \<le> length snaps"
    and v: "it_iteration_var t = iteration_var_name (lp_loop_id li)"
    and ind: "fmlookup (it_locals t) ?iv = Some \<lparr>lt_initial_expr = us ! 0, lt_update = UpLinear ?step\<rparr>"
    and others: "name \<noteq> ?iv \<Longrightarrow> extract_local snaps ?iv us name = Inr u"
    by (rule extract_facts [OF t]) (use u in blast)
  have step: "seval \<phi> \<rho> ?step = Some (VInt s)" using run by (simp add: counted_run_def)
  have len0: "0 < length snaps" using len by linarith
  have lookup: "fmlookup (ls_locals (snaps ! j)) n = Some (vs ! j)" and lvs: "length vs = length snaps"
    if "collect_local_values snaps n = Inr vs" "j < length snaps" for n vs j
    using that by (simp_all add: collect_local_values_ok)
  have us_val: "seval \<phi> \<rho> (us ! j) = Some (VInt (b + s * int j))" if "j < length snaps" for j
    using run lookup [OF us that] that by (force simp: counted_run_def)
  have init: "is_int \<phi> \<rho> (vs ! 0)" and init_fresh: "iteration_var_fresh li snaps \<Longrightarrow> it_iteration_var t \<notin> extract_param_names (vs ! 0)"
    if "collect_local_values snaps n = Inr vs" for n vs
    using run v fmran'I [OF lookup [OF that len0]] by (simp_all add: counted_run_def iteration_var_fresh_def)
  consider (iv) "name = ?iv" | (other) "name \<noteq> ?iv" by blast
  then have "int_local \<phi> \<rho> u \<and> (iteration_var_fresh li snaps \<longrightarrow> it_iteration_var t \<notin> local_params u) \<and>
    (j < length snaps \<longrightarrow> (\<exists>e. fmlookup (ls_locals (snaps ! j)) name = Some e \<and>
      seval \<phi> \<rho> e = Some (VInt (local_value \<phi> \<rho> (it_locals t) u j))))"
  proof cases
    case iv
    then have "u = \<lparr>lt_initial_expr = us ! 0, lt_update = UpLinear ?step\<rparr>" using ind u by simp
    then show ?thesis
      using iv init [OF us] init_fresh [OF us] step us_val [of j] us_val [OF len0] lookup [OF us, of j] v
      by (simp add: int_local_def local_params_def is_int_def ival_def local_value_def iteration_var_fresh_def)
  next
    case other
    from others [OF other] show ?thesis
    proof (cases rule: extract_local_cases)
      case (const vs)
      then show ?thesis
        using init [OF const(1)] init_fresh [OF const(1)] lookup [OF const(1), of j] lvs [OF const(1) len0]
          all_equal_val [OF const(2), of j]
        by (simp add: int_local_def local_params_def is_int_def ival_def local_value_def zero_int_expr_def
          extract_param_names_set int_const_def)
    next
      case (acc vs op)
      have "j < length snaps \<Longrightarrow> seval \<phi> \<rho> (vs ! j) = Some (VInt (acc_value op (ival \<phi> \<rho> (vs ! 0)) b s j))"
        by (rule accumulated_val [OF acc(2)])
          (use lvs [OF acc(1) len0] lvs [OF us len0] init [OF acc(1)] us_val in \<open>simp_all add: is_int_def\<close>)
      then show ?thesis
        using acc(3) init [OF acc(1)] init_fresh [OF acc(1)] lookup [OF acc(1), of j] ind us_val [OF len0] step
        by (simp add: int_local_def local_params_def local_value_def ival_def)
    qed
  qed
  then show "int_local \<phi> \<rho> u"
    and "iteration_var_fresh li snaps \<Longrightarrow> it_iteration_var t \<notin> local_params u"
    and "j < length snaps \<Longrightarrow> \<exists>e. fmlookup (ls_locals (snaps ! j)) name = Some e \<and>
      seval \<phi> \<rho> e = Some (VInt (local_value \<phi> \<rho> (it_locals t) u j))" by blast+
qed

text \<open>
  Extraction does not look at the values of the induction variable after the first snapshot: with that
  variable alone any values are accepted and taken for \<open>initial + step * k\<close>. That they are so is a
  hypothesis of the next theorem.
\<close>

lemma induction_values_unchecked:
  assumes "2 \<le> length es" and "length es \<le> 32"
  shows "\<exists>t. extract_iteration_template li
      (map (\<lambda>(j, e). \<lparr>ls_loop_id = lp_loop_id li, ls_iteration = word_of_nat j,
         ls_locals = fmupd (iv_name (lp_induction_var li)) e fmempty\<rparr>) (enumerate 0 es)) = Inr t \<and>
    it_locals t = fmupd (iv_name (lp_induction_var li))
      \<lparr>lt_initial_expr = es ! 0, lt_update = UpLinear (iv_step_expr (lp_induction_var li))\<rparr> fmempty"
proof -
  let ?n = "iv_name (lp_induction_var li)"
  let ?snap = "\<lambda>(j, e). \<lparr>ls_loop_id = lp_loop_id li, ls_iteration = word_of_nat j, ls_locals = fmupd ?n e fmempty\<rparr>"
  have ok: "check_snapshots (lp_loop_id li) k (map ?snap (enumerate k es)) = Inr ()" for k
    by (induction es arbitrary: k) simp_all
  have vals: "collect_local_values (map ?snap (enumerate k es)) ?n = Inr es" for k
    by (induction es arbitrary: k) (simp_all add: collect_local_values_def required_local_def)
  have first: "ls_locals (map ?snap (enumerate 0 es) ! 0) = fmupd ?n (es ! 0) fmempty"
    using assms(1) by (cases es) simp_all
  have keys: "btree_keys (fmupd ?n (es ! 0) fmempty) = [?n]" by (rule btree_keys_eqI) simp_all
  show ?thesis
    using assms ok [of 0] vals [of 0]
    by (simp add: extract_iteration_template_def Let_def validate_snapshots_def MIN_TEMPLATE_ITERATIONS_def
        MAX_TEMPLATE_ITERATIONS_def MAX_TEMPLATE_LOCALS_def required_local_def first keys fcard_finsert_if fcard_fempty)
qed

text \<open>C3: A template that was extracted always has a closed form, over the locals of the first snapshot,
  and for a counted run the closed form reproduces the run it was extracted from: its bound holds
  exactly for the observed iterations, and at iteration \<open>j\<close> each local has the value of snapshot \<open>j\<close>.
  In a counted run the locals are integers and the induction variable has the value \<open>b + s * j\<close> in
  snapshot \<open>j\<close>, where \<open>s\<close> is the value of its step; the expressions do not mention the iteration
  variable. Extraction itself does not check that the induction variable is linear.
\<close>

theorem unrolled_formula_reproduces_snapshots:
  assumes t: "extract_iteration_template li snaps = Inr t"
    and run: "counted_run \<phi> \<rho> li snaps b s" and fresh: "iteration_var_fresh li snaps"
  shows "\<exists>f. build_unrolled_formula t = Inr f \<and> fmdom (uf_locals f) = fmdom (ls_locals (snaps ! 0)) \<and>
     (\<forall>k. seval \<phi> (bind_int \<rho> (it_iteration_var t) k) (uf_iteration_bound f) =
        Some (VBool (0 \<le> k \<and> k < int (length snaps)))) \<and>
     (\<forall>j<length snaps. \<forall>name\<in>fmdom' (ls_locals (snaps ! 0)). \<exists>c e.
        fmlookup (uf_locals f) name = Some c \<and> fmlookup (ls_locals (snaps ! j)) name = Some e \<and>
        seval \<phi> (bind_int \<rho> (it_iteration_var t) (int j)) c = seval \<phi> \<rho> e)"
proof -
  let ?L = "it_locals t" and ?v = "it_iteration_var t"
  have len: "length snaps \<le> 32" and count: "it_iteration_count t = word_of_nat (length snaps)"
    and dom: "fmdom ?L = fmdom (ls_locals (snaps ! 0))"
    by (rule extract_facts [OF t], assumption)+
  obtain m where "unroll_locals ?L (SeParam ?v []) (btree_keys ?L) fmempty = Inr m"
    using unroll_locals_total [OF extract_sources_linear [OF t]] by blast
  then obtain f where f: "build_unrolled_formula t = Inr f" by (simp add: build_unrolled_formula_def)
  note lk = build_unrolled_lookup [OF f] and ev = extract_values [OF t run]
  have "\<exists>c e. fmlookup (uf_locals f) name = Some c \<and> fmlookup (ls_locals (snaps ! j)) name = Some e \<and>
        seval \<phi> (bind_int \<rho> ?v (int j)) c = seval \<phi> \<rho> e"
    if j: "j < length snaps" and n: "name \<in> fmdom' (ls_locals (snaps ! 0))" for j name
  proof -
    obtain u where u: "fmlookup ?L name = Some u"
      using n dom by (metis fmdom'_alt_def fmlookup_dom_iff)
    from lk(1) [OF u] obtain c where c: "unroll_local ?L (SeParam ?v []) name u = Inr c" "fmlookup (uf_locals f) name = Some c"
      by blast
    have "seval \<phi> (bind_int \<rho> ?v (int j)) c = Some (VInt (local_value \<phi> \<rho> ?L u j))"
      by (rule unroll_local_value [OF c(1) u]) (use ev(1,2) fresh in \<open>auto simp: fmlookup_ran'_iff\<close>)
    with c(2) ev(3) [OF u j] show ?thesis by auto
  qed
  moreover have "seval \<phi> (bind_int \<rho> ?v k) (uf_iteration_bound f) = Some (VBool (0 \<le> k \<and> k < int (length snaps)))" for k
    unfolding lk(3) count by (rule iteration_bound_value) (use len in simp)
  ultimately show ?thesis using f dom lk(2) by auto
qed

section \<open>An observed loop\<close>

text \<open>\<open>for (i = 0; i < n; i++) sum += i\<close>, observed for three iterations.\<close>

definition sample_loop :: loop_info where
  "sample_loop = \<lparr>lp_loop_id = 0, lp_line = 3,
     lp_induction_var = \<lparr>iv_name = ''i'', iv_init_expr = int_const 0, iv_step_expr = int_const 1,
       iv_bound_expr = SeParam ''n'' [], iv_bound_op = BoundLt\<rparr>\<rparr>"

definition sample_snapshot :: "nat \<Rightarrow> sym_expr \<Rightarrow> loop_body_state" where
  "sample_snapshot j acc = \<lparr>ls_loop_id = 0, ls_iteration = word_of_nat j,
     ls_locals = fmupd ''sum'' acc (fmupd ''i'' (int_const (word_of_nat j)) fmempty)\<rparr>"

definition sample_snapshots :: "loop_body_state list" where
  "sample_snapshots =
     [sample_snapshot 0 (SeParam ''s'' []),
      sample_snapshot 1 (binary_expr OpAdd (SeParam ''s'' []) (int_const 0)),
      sample_snapshot 2 (binary_expr OpAdd (binary_expr OpAdd (SeParam ''s'' []) (int_const 0)) (int_const 1))]"

definition sample_template :: iteration_template where
  "sample_template = \<lparr>it_loop_id = 0, it_iteration_var = ''__loop_0_iter'', it_iteration_count = 3,
     it_locals =
       fmupd ''sum'' \<lparr>lt_initial_expr = SeParam ''s'' [], lt_update = UpAccumulator ''i'' AccAdd\<rparr>
         (fmupd ''i'' \<lparr>lt_initial_expr = int_const 0, lt_update = UpLinear (int_const 1)\<rparr> fmempty)\<rparr>"

definition sample_env :: senv where
  "sample_env v path = (if v = ''s'' then Some (VInt 10) else None)"

lemma sample_var: "iteration_var_name 0 = ''__loop_0_iter''"
proof -
  have "digit_char 0 = CHR ''0''" by code_simp
  then show ?thesis by (simp add: iteration_var_name_def show_nat.simps [of 0])
qed

lemma sample_keys: "btree_keys (fmupd ''sum'' x (fmupd ''i'' y fmempty)) = [''i'', ''sum'']"
proof (rule btree_keys_eqI)
  show "sorted [''i'', ''sum'']" by code_simp
qed auto

lemma sample_extracted: "extract_iteration_template sample_loop sample_snapshots = Inr sample_template"
proof -
  have valid: "validate_snapshots 0 sample_snapshots = Inr ()"
    by (simp add: validate_snapshots_def MIN_TEMPLATE_ITERATIONS_def MAX_TEMPLATE_ITERATIONS_def
      sample_snapshots_def sample_snapshot_def)
  have i: "collect_local_values sample_snapshots ''i'' = Inr [int_const 0, int_const 1, int_const 2]"
    by (simp add: collect_local_values_def sample_snapshots_def sample_snapshot_def required_local_def)
  have "extract_local sample_snapshots ''i'' [int_const 0, int_const 1, int_const 2] ''sum'' =
      Inr \<lparr>lt_initial_expr = SeParam ''s'' [], lt_update = UpAccumulator ''i'' AccAdd\<rparr>"
    by (simp add: extract_local_def collect_local_values_def sample_snapshots_def sample_snapshot_def required_local_def
      all_equal_def matches_accumulator_def binary_expr_def int_const_def atLeastLessThanSuc numeral_2_eq_2 numeral_3_eq_3)
  moreover have "ls_locals (sample_snapshots ! 0) = fmupd ''sum'' (SeParam ''s'' []) (fmupd ''i'' (int_const 0) fmempty)"
    "length sample_snapshots = 3"
    by (simp_all add: sample_snapshots_def sample_snapshot_def)
  moreover have "fcard {|''sum'', ''i''|} \<le> 8" by (simp add: fcard_finsert_if fcard_fempty)
  ultimately show ?thesis
    using valid i
    by (simp add: extract_iteration_template_def sample_loop_def sample_template_def Let_def MAX_TEMPLATE_LOCALS_def
      required_local_def sample_keys sample_var)
qed

lemma fmran'_two: "u \<in> fmran' (fmupd k x (fmupd k' y fmempty)) \<Longrightarrow> u = x \<or> u = y"
  by (auto simp: fmlookup_ran'_iff split: if_splits)

lemma sample_first:
  "ls_locals (sample_snapshots ! 0) = fmupd ''sum'' (SeParam ''s'' []) (fmupd ''i'' (int_const 0) fmempty)"
  by (simp add: sample_snapshots_def sample_snapshot_def)

lemma sample_run: "counted_run (\<lambda>_ _ _. None) sample_env sample_loop sample_snapshots 0 1"
proof -
  have "\<forall>j<length sample_snapshots. \<exists>e. fmlookup (ls_locals (sample_snapshots ! j)) ''i'' = Some e \<and>
      seval (\<lambda>_ _ _. None) sample_env e = Some (VInt (int j))"
    by (simp add: All_less_Suc sample_snapshots_def sample_snapshot_def)
  moreover have "\<forall>e\<in>fmran' (ls_locals (sample_snapshots ! 0)). is_int (\<lambda>_ _ _. None) sample_env e"
    unfolding sample_first by (auto dest!: fmran'_two simp: is_int_def ival_def sample_env_def)
  ultimately show ?thesis by (simp add: counted_run_def sample_loop_def)
qed

lemma sample_fresh: "iteration_var_fresh sample_loop sample_snapshots"
  unfolding iteration_var_fresh_def sample_first
  by (auto dest!: fmran'_two simp: sample_loop_def extract_param_names_def int_const_def sample_var)

theorem unrolled_formula_reproduces_snapshots_witness:
  "counted_run (\<lambda>_ _ _. None) sample_env sample_loop sample_snapshots 0 1 \<and>
   (\<exists>f. build_unrolled_formula sample_template = Inr f \<and>
      fmdom (uf_locals f) = fmdom (ls_locals (sample_snapshots ! 0)))"
  using unrolled_formula_reproduces_snapshots [OF sample_extracted sample_run sample_fresh] sample_run by blast

lemma sample_locals:
  "u \<in> fmran' (it_locals sample_template) \<Longrightarrow>
     u = \<lparr>lt_initial_expr = SeParam ''s'' [], lt_update = UpAccumulator ''i'' AccAdd\<rparr> \<or>
     u = \<lparr>lt_initial_expr = int_const 0, lt_update = UpLinear (int_const 1)\<rparr>"
  unfolding sample_template_def iteration_template.select_convs by (rule fmran'_two)

lemma sample_formula:
  "\<exists>f. build_unrolled_formula sample_template = Inr f"
  by (simp add: build_unrolled_formula_def sample_template_def sample_keys unroll_local_def)

theorem closed_form_matches_replay_witness:
  "\<exists>st f. materialize_iteration_state sample_template 2 = Inr (Inr st) \<and>
     build_unrolled_formula sample_template = Inr f \<and>
     fmdom st = fmdom (it_locals sample_template) \<and> fmdom (uf_locals f) = fmdom (it_locals sample_template)"
proof -
  obtain f where f: "build_unrolled_formula sample_template = Inr f" using sample_formula by blast
  have k: "2 < it_iteration_count sample_template" by (simp add: sample_template_def)
  have int: "\<forall>u\<in>fmran' (it_locals sample_template). int_local (\<lambda>_ _ _. None) sample_env u"
    by (auto dest!: sample_locals simp: int_local_def is_int_def ival_def sample_env_def)
  have fresh: "\<forall>u\<in>fmran' (it_locals sample_template). it_iteration_var sample_template \<notin> local_params u"
    by (auto dest!: sample_locals simp: local_params_def extract_param_names_def int_const_def)
      (simp_all add: sample_template_def)
  have "\<forall>j\<in>{1, 2}. linear_exact (it_locals sample_template) j"
    by (auto dest!: sample_locals simp: linear_exact_def build_linear_expr_def binary_expr_def int_const_def
      fold_bin_op_def fold_consts_def in_i64_def)
  moreover have "{1..unat (2 :: u32)} = {1, 2}"
  proof -
    have "unat (2 :: u32) = 2" by simp
    then show ?thesis by (simp only:) auto
  qed
  ultimately have exact: "\<forall>j\<in>{1..unat (2 :: u32)}. linear_exact (it_locals sample_template) j" by simp
  from closed_form_matches_replay [OF f k int fresh exact] f show ?thesis by blast
qed

end
