(* ===== verification/Boundary_Search.thy ===== *)
theory Boundary_Search
  imports Json_Ops Execution_Record "HOL-Library.Signed_Division"
begin

text \<open>
  Boundary search (\<open>shatter-core/src/boundary_search.rs\<close>): the witnesses of the two sides of a branch,
  the midpoints between two values by type, and the refinement that bisects between the witnesses
  with real executions.

  The executor is a parameter with a state (the source takes a \<open>FnMut\<close>). The source collects the
  branch ids in a hash set and sorts them afterwards, so the order of the set does not matter.
\<close>

section \<open>Data\<close>

datatype mock_behavior = ReturnGenerated | RepeatLast | ThrowError | Passthrough

record mock_config =
  mk_symbol :: string
  mk_return_values :: "json list"
  mk_should_track_calls :: bool
  mk_default_behavior :: mock_behavior

type_synonym raw_result = "json list \<times> mock_config list \<times> execute_result"
type_synonym 's mock_executor = "'s \<Rightarrow> json list \<Rightarrow> mock_config list \<Rightarrow> execute_result option \<times> 's"

definition MAX_BOUNDARY_STEPS :: usize where "MAX_BOUNDARY_STEPS = 4"
definition MAX_BOUNDARY_BRANCHES_PER_ROUND :: usize where "MAX_BOUNDARY_BRANCHES_PER_ROUND = 3"
definition FLOAT_CONVERGENCE_EPSILON :: f64 where "FLOAT_CONVERGENCE_EPSILON = 0x3E112E0BE826D695"
definition DEFAULT_REFINE_BUDGET :: usize where "DEFAULT_REFINE_BUDGET = 20"

section \<open>Witness pairs\<close>

text \<open>The side of the first decision for the branch.\<close>

fun took_side :: "u32 \<Rightarrow> branch_decision list \<Rightarrow> bool option" where
  "took_side branch_id [] = None"
| "took_side branch_id (decision # path) =
     (if bd_branch_id decision = branch_id then Some (bd_taken decision) else took_side branch_id path)"

fun scan_witnesses ::
    "u32 \<Rightarrow> raw_result list \<Rightarrow> json list option \<Rightarrow> json list option \<Rightarrow> json list option \<times> json list option" where
  "scan_witnesses branch_id [] tw fw = (tw, fw)"
| "scan_witnesses branch_id ((inputs, _, result) # rest) tw fw =
     (let (tw', fw') =
        (case took_side branch_id (xr_branch_path result) of
           Some True \<Rightarrow> (if tw = None then Some inputs else tw, fw)
         | Some False \<Rightarrow> (tw, if fw = None then Some inputs else fw)
         | None \<Rightarrow> (tw, fw))
      in if tw' \<noteq> None \<and> fw' \<noteq> None then (tw', fw') else scan_witnesses branch_id rest tw' fw')"

definition find_witness_pair :: "raw_result list \<Rightarrow> u32 \<Rightarrow> (json list \<times> json list) option" where
  "find_witness_pair raw_results branch_id =
     (case scan_witnesses branch_id (rev raw_results) None None of
        (Some tw, Some fw) \<Rightarrow> Some (tw, fw)
      | _ \<Rightarrow> None)"

section \<open>Midpoints\<close>

definition midpoint :: "i64 \<Rightarrow> i64 \<Rightarrow> i64" where
  "midpoint lo hi = word_of_int ((sint lo + sint hi) sdiv 2)"

fun int_steps :: "nat \<Rightarrow> i64 \<Rightarrow> i64 \<Rightarrow> json list \<Rightarrow> json list" where
  "int_steps 0 lo hi results = results"
| "int_steps (Suc n) lo hi results =
     (let mid = midpoint lo hi
      in if mid = lo \<or> mid = hi then results
         else let results' = results @ [json_of_i64 mid]
              in if length results' mod 2 = 1 then int_steps n lo mid results'
                 else int_steps n mid hi results')"

definition interpolate_int :: "json \<Rightarrow> json \<Rightarrow> usize \<Rightarrow> json list" where
  "interpolate_int a b max_steps =
     (case (as_i64 a, as_i64 b) of
        (Some va, Some vb) \<Rightarrow> if va = vb then [] else int_steps max_steps va vb []
      | _ \<Rightarrow> [])"

definition too_close :: "f64 \<Rightarrow> f64 \<Rightarrow> bool" where
  "too_close x y = f64_lt (f64_abs (f64_sub x y)) FLOAT_CONVERGENCE_EPSILON"

fun float_steps :: "nat \<Rightarrow> f64 \<Rightarrow> f64 \<Rightarrow> json list \<Rightarrow> json list" where
  "float_steps 0 lo hi results = results"
| "float_steps (Suc n) lo hi results =
     (let mid = f64_div (f64_add lo hi) 0x4000000000000000
      in if too_close mid lo \<or> too_close mid hi then results
         else let results' = results @ [json_of_f64 mid]
              in if length results' mod 2 = 1 then float_steps n lo mid results'
                 else float_steps n mid hi results')"

definition interpolate_float :: "json \<Rightarrow> json \<Rightarrow> usize \<Rightarrow> json list" where
  "interpolate_float a b max_steps =
     (case (as_f64 a, as_f64 b) of
        (Some va, Some vb) \<Rightarrow>
          if \<not> (f64_finite va \<and> f64_finite vb) then []
          else if too_close va vb then []
          else float_steps max_steps va vb []
      | _ \<Rightarrow> [])"

text \<open>Pushing results one at a time until there are enough.\<close>

fun push_capped :: "usize \<Rightarrow> json list \<Rightarrow> json list \<Rightarrow> json list" where
  "push_capped max_steps results [] = results"
| "push_capped max_steps results (x # xs) =
     (if length results + 1 \<ge> max_steps then results @ [x] else push_capped max_steps (results @ [x]) xs)"

definition interpolate_array :: "(json \<Rightarrow> json \<Rightarrow> json list) \<Rightarrow> json \<Rightarrow> json \<Rightarrow> usize \<Rightarrow> json list" where
  "interpolate_array midpoints a b max_steps =
     (case (as_array a, as_array b) of
        (Some arr_a, Some arr_b) \<Rightarrow>
          push_capped max_steps []
            (concat (map (\<lambda>(i, x, y).
               if json_eq x y then [] else map (\<lambda>mid. JArray (arr_a[i := mid])) (midpoints x y))
               (enumerate 0 (zip arr_a arr_b))))
      | _ \<Rightarrow> [])"

fun interpolate_value :: "type_info \<Rightarrow> json \<Rightarrow> json \<Rightarrow> usize \<Rightarrow> json list"
  and interpolate_fields :: "(string \<times> type_info) list \<Rightarrow> (string \<times> json) list \<Rightarrow> (string \<times> json) list \<Rightarrow> usize \<Rightarrow> json list"
  and interpolate_union :: "type_info list \<Rightarrow> json \<Rightarrow> json \<Rightarrow> usize \<Rightarrow> json list"
where
  "interpolate_value (TInt w sg) a b max_steps = interpolate_int a b max_steps"
| "interpolate_value TFloat a b max_steps = interpolate_float a b max_steps"
| "interpolate_value (TArray element) a b max_steps =
     interpolate_array (\<lambda>x y. interpolate_value element x y max_steps) a b max_steps"
| "interpolate_value (TObject flds) a b max_steps =
     (case (as_object a, as_object b) of
        (Some obj_a, Some obj_b) \<Rightarrow> push_capped max_steps [] (interpolate_fields flds obj_a obj_b max_steps)
      | _ \<Rightarrow> [])"
| "interpolate_value (TNullable inner) a b max_steps =
     (if a = JNull then if b = JNull then [] else [b]
      else if b = JNull then [a]
      else interpolate_value inner a b max_steps)"
| "interpolate_value (TUnion variants samples) a b max_steps = interpolate_union variants a b max_steps"
| "interpolate_value TBool a b max_steps = []"
| "interpolate_value TStr a b max_steps = []"
| "interpolate_value (TComplex kind attrs inner) a b max_steps = []"
| "interpolate_value (TOpaque name sr mr) a b max_steps = []"
| "interpolate_value TUnknown a b max_steps = []"
| "interpolate_fields [] obj_a obj_b max_steps = []"
| "interpolate_fields ((name, ft) # flds) obj_a obj_b max_steps =
     (case (obj_get obj_a name, obj_get obj_b name) of
        (Some x, Some y) \<Rightarrow>
          if json_eq x y then []
          else map (\<lambda>mid. JObject (obj_insert obj_a name mid)) (interpolate_value ft x y max_steps)
      | _ \<Rightarrow> []) @ interpolate_fields flds obj_a obj_b max_steps"
| "interpolate_union [] a b max_steps = []"
| "interpolate_union (variant # variants) a b max_steps =
     (let midpoints = interpolate_value variant a b max_steps
      in if midpoints \<noteq> [] then midpoints else interpolate_union variants a b max_steps)"

section \<open>Candidate inputs\<close>

definition per_param_midpoints ::
    "json list \<Rightarrow> json list \<Rightarrow> param_info list \<Rightarrow> usize \<Rightarrow> (nat \<times> json list) list" where
  "per_param_midpoints tw fw param_infos max_steps =
     concat (map (\<lambda>i.
       if json_eq (tw ! i) (fw ! i) then []
       else (let midpoints = interpolate_value (pi_typ (param_infos ! i)) (tw ! i) (fw ! i) max_steps
             in if midpoints \<noteq> [] then [(i, midpoints)] else []))
       [0..<min (min (length tw) (length fw)) (length param_infos)])"

text \<open>One round over the parameters: whether the loop was left, whether anything was produced, the candidates.\<close>

fun fill_round ::
    "json list \<Rightarrow> usize \<Rightarrow> nat \<Rightarrow> (nat \<times> json list) list \<Rightarrow> bool \<Rightarrow> json list list \<Rightarrow> bool \<times> bool \<times> json list list" where
  "fill_round base max_steps step [] produced candidates = (False, produced, candidates)"
| "fill_round base max_steps step ((param_idx, midpoints) # rest) produced candidates =
     (if step \<ge> length midpoints then fill_round base max_steps step rest produced candidates
      else let candidates' = candidates @ [base[param_idx := midpoints ! step]]
           in if length candidates' \<ge> max_steps then (True, True, candidates')
              else fill_round base max_steps step rest True candidates')"

lemma fill_round_produced:
  "fill_round base mx step per p cs = (False, True, cs') \<Longrightarrow> p \<or> (\<exists>(i, ms) \<in> set per. step < length ms)"
  by (induction base mx step per p cs rule: fill_round.induct) (auto simp: Let_def split: if_splits)

function round_robin ::
    "json list \<Rightarrow> usize \<Rightarrow> (nat \<times> json list) list \<Rightarrow> nat \<Rightarrow> json list list \<Rightarrow> json list list" where
  "round_robin base max_steps per step candidates =
     (case fill_round base max_steps step per False candidates of
        (stop, produced, candidates') \<Rightarrow>
          if stop \<or> \<not> produced then candidates'
          else round_robin base max_steps per (step + 1) candidates')"
  by pat_completeness auto
termination
proof (relation "measure (\<lambda>(_, _, per, step, _). Max (insert 0 (length ` snd ` set per)) - step)", goal_cases)
  case (2 base mx per step cs stop y produced cs')
  then have "fill_round base mx step per False cs = (False, True, cs')" by (cases stop; cases produced) simp_all
  then obtain i ms where "(i, ms) \<in> set per" and lt: "step < length ms"
    using fill_round_produced [of base mx step per False cs cs'] by blast
  then have "length ms \<le> Max (insert 0 (length ` snd ` set per))" by (intro Max_ge) force+
  with lt show ?case by simp
qed simp

declare round_robin.simps [simp del]

definition interpolate_inputs ::
    "json list \<Rightarrow> json list \<Rightarrow> param_info list \<Rightarrow> usize \<Rightarrow> json list list" where
  "interpolate_inputs tw fw param_infos max_steps =
     (if max_steps = 0 then []
      else let per = per_param_midpoints tw fw param_infos max_steps
           in if per = [] then []
              else round_robin (take (min (min (length tw) (length fw)) (length param_infos)) tw) max_steps per 0 [])"

section \<open>Refinement\<close>

record boundary_result =
  br_branch_id :: u32
  br_true_witness :: "json list"
  br_false_witness :: "json list"
  br_executions_used :: usize

type_synonym 's refinement = "json list \<times> json list \<times> usize \<times> 's"

fun refine_loop ::
    "'s mock_executor \<Rightarrow> mock_config list \<Rightarrow> param_info list \<Rightarrow> u32 \<Rightarrow> nat \<Rightarrow> 's refinement \<Rightarrow> 's refinement" where
  "refine_loop exec mocks param_infos branch_id 0 st = st"
| "refine_loop exec mocks param_infos branch_id (Suc n) (tw, fw, used, s) =
     (case interpolate_inputs tw fw param_infos 1 of
        [] \<Rightarrow> (tw, fw, used, s)
      | candidate # _ \<Rightarrow>
          (case exec s candidate mocks of
             (None, s') \<Rightarrow> (tw, fw, used, s')
           | (Some result, s') \<Rightarrow>
               refine_loop exec mocks param_infos branch_id n
                 (case took_side branch_id (xr_branch_path result) of
                    Some True \<Rightarrow> (candidate, fw, used + 1, s')
                  | Some False \<Rightarrow> (tw, candidate, used + 1, s')
                  | None \<Rightarrow> (tw, fw, used + 1, s'))))"

definition first_mocks :: "raw_result list \<Rightarrow> mock_config list" where
  "first_mocks raw_results = (case raw_results of [] \<Rightarrow> [] | (_, mocks, _) # _ \<Rightarrow> mocks)"

definition two_sided_branches :: "raw_result list \<Rightarrow> u32 list" where
  "two_sided_branches raw_results =
     sort (filter (\<lambda>bid. find_witness_pair raw_results bid \<noteq> None)
       (remdups (concat (map (\<lambda>(_, _, result). map bd_branch_id (xr_branch_path result)) raw_results))))"

fun refine_each ::
    "'s mock_executor \<Rightarrow> raw_result list \<Rightarrow> param_info list \<Rightarrow> usize \<Rightarrow> u32 list \<Rightarrow> 's
     \<Rightarrow> boundary_result list \<times> 's" where
  "refine_each exec raw_results param_infos budget [] s = ([], s)"
| "refine_each exec raw_results param_infos budget (branch_id # bids) s =
     (case find_witness_pair raw_results branch_id of
        None \<Rightarrow> refine_each exec raw_results param_infos budget bids s
      | Some (tw, fw) \<Rightarrow>
          (case refine_loop exec (first_mocks raw_results) param_infos branch_id budget (tw, fw, 0, s) of
             (tw', fw', used, s') \<Rightarrow>
               (case refine_each exec raw_results param_infos budget bids s' of
                  (results, s'') \<Rightarrow>
                    (\<lparr>br_branch_id = branch_id, br_true_witness = tw', br_false_witness = fw',
                      br_executions_used = used\<rparr> # results, s''))))"

definition refine_boundaries ::
    "'s mock_executor \<Rightarrow> raw_result list \<Rightarrow> param_info list \<Rightarrow> usize \<Rightarrow> 's \<Rightarrow> boundary_result list \<times> 's" where
  "refine_boundaries exec raw_results param_infos budget s =
     (if budget = 0 then ([], s)
      else refine_each exec raw_results param_infos budget (two_sided_branches raw_results) s)"

section \<open>Witnesses keep their side\<close>

definition observed :: "raw_result list \<Rightarrow> u32 \<Rightarrow> bool \<Rightarrow> json list \<Rightarrow> bool" where
  "observed raw_results branch_id side w \<longleftrightarrow>
     (\<exists>mocks r. (w, mocks, r) \<in> set raw_results \<and> took_side branch_id (xr_branch_path r) = Some side)"

definition executed ::
    "'s mock_executor \<Rightarrow> mock_config list \<Rightarrow> u32 \<Rightarrow> bool \<Rightarrow> json list \<Rightarrow> bool" where
  "executed exec mocks branch_id side w \<longleftrightarrow>
     (\<exists>s r. fst (exec s w mocks) = Some r \<and> took_side branch_id (xr_branch_path r) = Some side)"

lemma took_side_id: "took_side bid path = Some side \<Longrightarrow> bid \<in> set (map bd_branch_id path)"
  by (induction path) (auto split: if_splits)

lemma observed_Cons [simp]:
  "observed ((inputs, mocks, r) # raws) bid side w \<longleftrightarrow>
     w = inputs \<and> took_side bid (xr_branch_path r) = Some side \<or> observed raws bid side w"
  by (auto simp: observed_def)

lemma observed_Nil [simp]: "\<not> observed [] bid side w"
  by (simp add: observed_def)

lemma scan_witnesses_true:
  "fst (scan_witnesses bid raws tw fw) = Some w \<Longrightarrow> tw = Some w \<or> observed raws bid True w"
proof (induction raws arbitrary: tw fw)
  case (Cons x raws)
  obtain i m r where x: "x = (i, m, r)" by (cases x)
  from Cons.prems show ?case
    by (auto simp: x Let_def split: if_splits option.splits bool.splits dest!: Cons.IH)
qed simp

lemma scan_witnesses_false:
  "snd (scan_witnesses bid raws tw fw) = Some w \<Longrightarrow> fw = Some w \<or> observed raws bid False w"
proof (induction raws arbitrary: tw fw)
  case (Cons x raws)
  obtain i m r where x: "x = (i, m, r)" by (cases x)
  from Cons.prems show ?case
    by (auto simp: x Let_def split: if_splits option.splits bool.splits dest!: Cons.IH)
qed simp

lemma scan_witnesses_complete:
  assumes "tw \<noteq> None \<or> (\<exists>w. observed raws bid True w)" and "fw \<noteq> None \<or> (\<exists>w. observed raws bid False w)"
  shows "fst (scan_witnesses bid raws tw fw) \<noteq> None \<and> snd (scan_witnesses bid raws tw fw) \<noteq> None"
  using assms
proof (induction raws arbitrary: tw fw)
  case (Cons x raws)
  obtain i m r where x: "x = (i, m, r)" by (cases x)
  let ?tw = "case took_side bid (xr_branch_path r) of Some True \<Rightarrow> if tw = None then Some i else tw | _ \<Rightarrow> tw"
  let ?fw = "case took_side bid (xr_branch_path r) of Some False \<Rightarrow> if fw = None then Some i else fw | _ \<Rightarrow> fw"
  have step: "scan_witnesses bid (x # raws) tw fw =
      (if ?tw \<noteq> None \<and> ?fw \<noteq> None then (?tw, ?fw) else scan_witnesses bid raws ?tw ?fw)"
    by (simp add: x split: option.split bool.split)
  have "?tw \<noteq> None \<or> (\<exists>w. observed raws bid True w)" "?fw \<noteq> None \<or> (\<exists>w. observed raws bid False w)"
    using Cons.prems by (auto simp: x split: option.split bool.split)
  from Cons.IH [OF this] show ?case unfolding step by simp
qed (auto simp: observed_def)

lemma observed_rev [simp]: "observed (rev raws) bid side w \<longleftrightarrow> observed raws bid side w"
  by (simp add: observed_def)

lemma find_witness_pair_sound:
  "find_witness_pair raws bid = Some (tw, fw) \<Longrightarrow> observed raws bid True tw \<and> observed raws bid False fw"
  using scan_witnesses_true [of bid "rev raws" None None tw] scan_witnesses_false [of bid "rev raws" None None fw]
  by (auto simp: find_witness_pair_def split: prod.splits option.splits)

lemma find_witness_pair_iff:
  "find_witness_pair raws bid \<noteq> None \<longleftrightarrow> (\<exists>w. observed raws bid True w) \<and> (\<exists>w. observed raws bid False w)"
proof
  assume "(\<exists>w. observed raws bid True w) \<and> (\<exists>w. observed raws bid False w)"
  then show "find_witness_pair raws bid \<noteq> None"
    using scan_witnesses_complete [of None "rev raws" bid None]
    by (auto simp: find_witness_pair_def split: prod.splits option.splits)
qed (use find_witness_pair_sound in fast)

lemma observed_branch_id:
  assumes "observed raws bid side w"
  shows "bid \<in> set (concat (map (\<lambda>(_, _, r). map bd_branch_id (xr_branch_path r)) raws))"
proof -
  from assms obtain mocks r where "(w, mocks, r) \<in> set raws" "bid \<in> set (map bd_branch_id (xr_branch_path r))"
    by (auto simp: observed_def dest: took_side_id)
  then show ?thesis by (auto intro!: bexI [of _ "(w, mocks, r)"])
qed

lemma two_sided_branches_set:
  "bid \<in> set (two_sided_branches raws) \<longleftrightarrow>
     (\<exists>w. observed raws bid True w) \<and> (\<exists>w. observed raws bid False w)"
  using observed_branch_id [of raws bid True] find_witness_pair_iff [of raws bid]
  by (auto simp: two_sided_branches_def)

lemma two_sided_branches_sorted: "sorted_wrt (<) (two_sided_branches raws)"
  by (simp add: two_sided_branches_def strict_sorted_iff)

lemma refine_loop_sound:
  assumes "refine_loop exec mocks ps bid n (tw, fw, used, s) = (tw', fw', used', s')"
  shows "(tw' = tw \<or> executed exec mocks bid True tw') \<and> (fw' = fw \<or> executed exec mocks bid False fw')
    \<and> used' \<le> used + n"
  using assms
proof (induction n arbitrary: tw fw used s)
  case (Suc n)
  show ?case
  proof (cases "interpolate_inputs tw fw ps 1")
    case Nil
    with Suc.prems show ?thesis by simp
  next
    case (Cons c cs)
    obtain res s1 where e: "exec s c mocks = (res, s1)" by (cases "exec s c mocks")
    show ?thesis
    proof (cases res)
      case None
      with Suc.prems Cons e show ?thesis by simp
    next
      case (Some r)
      have ex: "executed exec mocks bid side c" if "took_side bid (xr_branch_path r) = Some side" for side
        using that e Some unfolding executed_def by (intro exI [of _ s] exI [of _ r]) simp
      show ?thesis
      proof (cases "took_side bid (xr_branch_path r)")
        case None
        with Suc.prems Cons e Some have "refine_loop exec mocks ps bid n (tw, fw, used + 1, s1) = (tw', fw', used', s')"
          by simp
        from Suc.IH [OF this] show ?thesis by auto
      next
        case side: (Some side)
        with Suc.prems Cons e Some
        have "refine_loop exec mocks ps bid n (if side then c else tw, if side then fw else c, used + 1, s1)
            = (tw', fw', used', s')" by (cases side) simp_all
        from Suc.IH [OF this] ex [OF side] show ?thesis by (cases side) auto
      qed
    qed
  qed
qed simp

definition justified ::
    "'s mock_executor \<Rightarrow> raw_result list \<Rightarrow> usize \<Rightarrow> boundary_result \<Rightarrow> bool" where
  "justified exec raws budget b \<longleftrightarrow>
     br_executions_used b \<le> budget \<and>
     (observed raws (br_branch_id b) True (br_true_witness b) \<or>
      executed exec (first_mocks raws) (br_branch_id b) True (br_true_witness b)) \<and>
     (observed raws (br_branch_id b) False (br_false_witness b) \<or>
      executed exec (first_mocks raws) (br_branch_id b) False (br_false_witness b))"

lemma refine_each_sound:
  assumes "refine_each exec raws ps budget bids s = (results, s')"
    and "\<And>bid. bid \<in> set bids \<Longrightarrow> find_witness_pair raws bid \<noteq> None"
  shows "map br_branch_id results = bids \<and> list_all (justified exec raws budget) results"
  using assms
proof (induction bids arbitrary: s s' results)
  case (Cons bid bids)
  obtain tw fw where p: "find_witness_pair raws bid = Some (tw, fw)" using Cons.prems(2) [of bid] by force
  obtain tw' fw' used s1 where l: "refine_loop exec (first_mocks raws) ps bid budget (tw, fw, 0, s) = (tw', fw', used, s1)"
    by (metis prod_cases4)
  obtain rest s2 where r: "refine_each exec raws ps budget bids s1 = (rest, s2)"
    by (cases "refine_each exec raws ps budget bids s1")
  from refine_loop_sound [OF l] find_witness_pair_sound [OF p] Cons.IH [OF r] Cons.prems p l r show ?case
    by (auto simp: justified_def)
qed simp

text \<open>C18: Boundary refinement reports, in ascending order and once each, exactly the branches with an
  observed input on either side. Every reported witness was seen to take its side of the branch, in
  the raw results or in an execution of the refinement, and no branch uses more executions than the
  budget.\<close>

theorem refine_boundaries_sound:
  "case refine_boundaries exec raw_results param_infos (Suc n) s of
     (results, s') \<Rightarrow>
       sorted_wrt (<) (map br_branch_id results) \<and>
       (bid \<in> set (map br_branch_id results) \<longleftrightarrow>
          (\<exists>w. observed raw_results bid True w) \<and> (\<exists>w. observed raw_results bid False w)) \<and>
       list_all (justified exec raw_results (Suc n)) results"
proof -
  obtain results s' where r: "refine_each exec raw_results param_infos (Suc n) (two_sided_branches raw_results) s = (results, s')"
    by (cases "refine_each exec raw_results param_infos (Suc n) (two_sided_branches raw_results) s")
  have "find_witness_pair raw_results b \<noteq> None" if "b \<in> set (two_sided_branches raw_results)" for b
    using that by (simp only: two_sided_branches_set find_witness_pair_iff)
  from refine_each_sound [OF r this]
  have "map br_branch_id results = two_sided_branches raw_results \<and> list_all (justified exec raw_results (Suc n)) results"
    by blast
  then show ?thesis
    by (simp only: refine_boundaries_def r nat.simps if_False prod.case two_sided_branches_set
        two_sided_branches_sorted simp_thms)
qed

section \<open>Convergence on integers\<close>

lemma as_i64_json_of_i64 [simp]: "as_i64 (json_of_i64 x) = Some x"
proof (cases "sint x < 0")
  case False
  then have "uint x = sint x" using sint_lt [of x] uint_sint [of x] by (simp add: take_bit_int_eq_self)
  then have "uint x < 2 ^ 63" using sint_lt [of x] by simp
  with False show ?thesis by (simp add: json_of_i64_def)
qed (simp add: json_of_i64_def)

lemma json_eq_i64 [simp]: "json_eq (json_of_i64 x) (json_of_i64 y) \<longleftrightarrow> x = y"
  by (auto simp: json_of_i64_def)

lemma sint_eq_iff: "x = y \<longleftrightarrow> sint x = sint (y :: i64)"
  using signed_word_eqI by blast

lemma trunc_half: "2 * (k sdiv 2) \<in> {k - 1, k, k + (1 :: int)}"
proof (cases "k \<ge> 0")
  case True
  then have "k sdiv 2 = k div 2" by (cases "k = 0") (simp_all add: signed_divide_int_def)
  then show ?thesis by (simp, presburger)
next
  case False
  then have "k sdiv 2 = - ((- k) div 2)" by (simp add: signed_divide_int_def)
  then show ?thesis by (simp, presburger)
qed

lemma sint_midpoint: "sint (midpoint lo hi) = (sint lo + sint hi) sdiv 2"
proof -
  have "- (2 ^ 63) \<le> sint lo" "sint lo < 2 ^ 63" "- (2 ^ 63) \<le> sint hi" "sint hi < 2 ^ 63"
    using sint_ge [of lo] sint_lt [of lo] sint_ge [of hi] sint_lt [of hi] by simp_all
  with trunc_half [of "sint lo + sint hi"]
  have "- (2 ^ 63) \<le> (sint lo + sint hi) sdiv 2 \<and> (sint lo + sint hi) sdiv 2 < 2 ^ 63" by auto
  then show ?thesis unfolding midpoint_def by (simp add: sint_sbintrunc' signed_take_bit_int_eq_self)
qed

definition gap :: "i64 \<Rightarrow> i64 \<Rightarrow> int" where
  "gap x y = \<bar>sint x - sint y\<bar>"

lemma midpoint_stops: "midpoint lo hi = lo \<or> midpoint lo hi = hi \<longleftrightarrow> gap lo hi \<le> 1"
proof -
  have "midpoint lo hi = lo \<longleftrightarrow> (sint lo + sint hi) sdiv 2 = sint lo"
    "midpoint lo hi = hi \<longleftrightarrow> (sint lo + sint hi) sdiv 2 = sint hi"
    by (simp_all add: sint_eq_iff sint_midpoint)
  with trunc_half [of "sint lo + sint hi"] show ?thesis unfolding gap_def by auto
qed

lemma midpoint_halves:
  assumes "gap lo hi \<le> 2 * k"
  shows "gap (midpoint lo hi) hi \<le> k \<and> gap lo (midpoint lo hi) \<le> k"
  using assms trunc_half [of "sint lo + sint hi"] by (auto simp: gap_def sint_midpoint)

lemma interpolate_one_int:
  assumes "pi_typ p = TInt w sg" and "t \<noteq> f"
  shows "interpolate_inputs [json_of_i64 t] [json_of_i64 f] [p] 1 =
    (if gap t f \<le> 1 then [] else [[json_of_i64 (midpoint t f)]])"
  using assms midpoint_stops [of t f]
  by (auto simp: interpolate_inputs_def per_param_midpoints_def interpolate_int_def Let_def round_robin.simps)

text \<open>The executor reaches the branch on every integer and decides it by a predicate.\<close>

definition decides :: "'s mock_executor \<Rightarrow> mock_config list \<Rightarrow> u32 \<Rightarrow> (i64 \<Rightarrow> bool) \<Rightarrow> bool" where
  "decides exec mocks bid P \<longleftrightarrow>
     (\<forall>s v. \<exists>r. fst (exec s [json_of_i64 v] mocks) = Some r \<and> took_side bid (xr_branch_path r) = Some (P v))"

lemma refine_int_stop:
  assumes "pi_typ p = TInt w sg" and "t \<noteq> f" and "gap t f \<le> 1"
  shows "refine_loop exec mocks [p] bid budget ([json_of_i64 t], [json_of_i64 f], used, s)
    = ([json_of_i64 t], [json_of_i64 f], used, s)"
  using interpolate_one_int [OF assms(1,2)] assms(3) by (cases budget) simp_all

lemma refine_int_step:
  assumes "decides exec mocks bid P" and "pi_typ p = TInt w sg" and "t \<noteq> f" and "\<not> gap t f \<le> 1"
  obtains s' where "refine_loop exec mocks [p] bid (Suc b) ([json_of_i64 t], [json_of_i64 f], used, s)
    = refine_loop exec mocks [p] bid b
        (if P (midpoint t f) then ([json_of_i64 (midpoint t f)], [json_of_i64 f], used + 1, s')
         else ([json_of_i64 t], [json_of_i64 (midpoint t f)], used + 1, s'))"
proof -
  obtain r s' where "exec s [json_of_i64 (midpoint t f)] mocks = (Some r, s')"
    and "took_side bid (xr_branch_path r) = Some (P (midpoint t f))"
    using assms(1) unfolding decides_def by (metis fst_conv surj_pair)
  with interpolate_one_int [OF assms(2,3)] assms(4) show thesis
    by (intro that [of s']) (cases "P (midpoint t f)"; simp)
qed

lemma refine_loop_converges:
  assumes "decides exec mocks bid P" and "pi_typ p = TInt w sg"
    and "P t" and "\<not> P f" and "gap t f \<le> 2 ^ n" and "n \<le> budget"
  shows "\<exists>t' f' used' s'. refine_loop exec mocks [p] bid budget ([json_of_i64 t], [json_of_i64 f], used, s)
      = ([json_of_i64 t'], [json_of_i64 f'], used', s') \<and> P t' \<and> \<not> P f' \<and> gap t' f' = 1 \<and> used' \<le> used + n"
  using assms(3-)
proof (induction n arbitrary: t f used s budget)
  case 0
  then have ne: "t \<noteq> f" by blast
  then have "gap t f = 1" using 0 by (auto simp: gap_def sint_eq_iff)
  with 0 refine_int_stop [OF assms(2) ne] show ?case
    by (intro exI [of _ t] exI [of _ f] exI [of _ used] exI [of _ s]) simp
next
  case (Suc n)
  from Suc.prems obtain b where b: "budget = Suc b" "n \<le> b" by (cases budget) auto
  have ne: "t \<noteq> f" using Suc.prems by blast
  show ?case
  proof (cases "gap t f \<le> 1")
    case True
    then have "gap t f = 1" using ne by (auto simp: gap_def sint_eq_iff)
    with Suc.prems True refine_int_stop [OF assms(2) ne True] show ?thesis
      by (intro exI [of _ t] exI [of _ f] exI [of _ used] exI [of _ s]) simp
  next
    case False
    let ?m = "midpoint t f"
    obtain s' where step: "refine_loop exec mocks [p] bid (Suc b) ([json_of_i64 t], [json_of_i64 f], used, s)
      = refine_loop exec mocks [p] bid b
          (if P ?m then ([json_of_i64 ?m], [json_of_i64 f], used + 1, s')
           else ([json_of_i64 t], [json_of_i64 ?m], used + 1, s'))"
      by (rule refine_int_step [OF assms(1,2) ne False])
    have half: "gap ?m f \<le> 2 ^ n" "gap t ?m \<le> 2 ^ n" using midpoint_halves [of t f "2 ^ n"] Suc.prems by simp_all
    let ?t = "if P ?m then ?m else t" and ?f = "if P ?m then f else ?m"
    have "P ?t" "\<not> P ?f" "gap ?t ?f \<le> 2 ^ n" using Suc.prems half by simp_all
    from Suc.IH [OF this b(2), of "used + 1" s'] obtain t' f' used' s'' where
      "refine_loop exec mocks [p] bid b ([json_of_i64 ?t], [json_of_i64 ?f], used + 1, s')
        = ([json_of_i64 t'], [json_of_i64 f'], used', s'') \<and> P t' \<and> \<not> P f' \<and> gap t' f' = 1 \<and> used' \<le> used + 1 + n"
      by blast
    then show ?thesis unfolding b(1) step by (intro exI [of _ t'] exI [of _ f'] exI [of _ used'] exI [of _ s'']) (cases "P ?m"; simp)
  qed
qed

text \<open>C8: Over a function of one integer parameter whose executions all succeed and reach the branch,
  on a side that depends on the value only, a refinement budget of 64 executions per branch is enough
  whatever the two witnesses: refinement ends with an input on either side whose values are adjacent,
  within 64 executions. When an execution fails or misses the branch this need not be so, as the loop
  then tries the same candidate again.\<close>

theorem refine_int_converges:
  assumes "decides exec mocks bid P" and "pi_typ p = TInt w sg"
    and "P t" and "\<not> P f" and "64 \<le> budget"
  shows "\<exists>t' f' used s'. refine_loop exec mocks [p] bid budget ([json_of_i64 t], [json_of_i64 f], 0, s)
      = ([json_of_i64 t'], [json_of_i64 f'], used, s') \<and>
      P t' \<and> \<not> P f' \<and> \<bar>sint t' - sint f'\<bar> = 1 \<and> used \<le> 64"
proof -
  have "gap t f \<le> 2 ^ 64"
    using sint_ge [of t] sint_lt [of t] sint_ge [of f] sint_lt [of f] by (simp add: gap_def)
  from refine_loop_converges [OF assms(1-4) this assms(5), of 0 s] show ?thesis by (simp add: gap_def)
qed

text \<open>A function that takes branch 1 on the integers below 1000.\<close>

definition below_1000 :: "unit mock_executor" where
  "below_1000 s inputs mocks =
     (case inputs of
        [v] \<Rightarrow>
          (case as_i64 v of
             Some i \<Rightarrow>
               (Some (default_result\<lparr>xr_branch_path :=
                  [\<lparr>bd_branch_id = 1, bd_line = 3, bd_taken = sint i < 1000, bd_constraint = ScUnknown [],
                    bd_conditions = None\<rparr>]\<rparr>), s)
           | None \<Rightarrow> (None, s))
      | _ \<Rightarrow> (None, s))"

lemma below_1000_decides: "decides below_1000 mocks 1 (\<lambda>v. sint v < 1000)"
  by (simp add: decides_def below_1000_def)

theorem refine_int_converges_witness:
  "\<exists>t' f' used s'. refine_loop below_1000 [] [\<lparr>pi_name = ''n'', pi_typ = TInt None None, pi_type_name = None\<rparr>] 1 64
      ([json_of_i64 (- 5)], [json_of_i64 123456789], 0, ())
      = ([json_of_i64 t'], [json_of_i64 f'], used, s') \<and>
      sint t' < 1000 \<and> \<not> sint f' < 1000 \<and> \<bar>sint t' - sint f'\<bar> = 1 \<and> used \<le> 64"
  using refine_int_converges [OF below_1000_decides,
      of "\<lparr>pi_name = ''n'', pi_typ = TInt None None, pi_type_name = None\<rparr>" None None "- 5" 123456789 64 "[]" "()"]
  by simp

end
