(* ===== verification/Frontier.thy ===== *)
theory Frontier
  imports Json_Ops "HOL-Library.Finite_Map" "HOL-Library.Multiset"
begin

text \<open>
  Frontier tracking (\<open>shatter-core/src/frontier.rs\<close>): the priority score of a frontier, computed in
  IEEE arithmetic, the score-ordered set with all its operations, and the rankers whose scores are
  a function of the context.

  \<open>sort_by\<close> is a stable sort; what it does when the comparison is not a total preorder, which takes a
  NaN score, is left open by the library, and \<open>sorted_desc\<close> then stands for one possible order.
\<close>

section \<open>Scores\<close>

definition FRONTIER_STALL_THRESHOLD :: u32 where "FRONTIER_STALL_THRESHOLD = 10"
definition DEPTH_WEIGHT :: f64 where "DEPTH_WEIGHT = 0x3FF0000000000000"
definition STALL_DECAY :: f64 where "STALL_DECAY = 0x4000000000000000"
definition CONSTRAINT_BOOST :: f64 where "CONSTRAINT_BOOST = 0x4008000000000000"
definition RARITY_WEIGHT :: f64 where "RARITY_WEIGHT = 0x3FF8000000000000"

record frontier =
  fr_branch_id :: u32
  fr_depth :: u32
  fr_blocking_params :: "usize list"
  fr_best_prefix :: "json list"
  fr_stall_count :: u32
  fr_rarity_boost :: f64

definition f64_of_u32 :: "u32 \<Rightarrow> f64" where
  "f64_of_u32 n = f64_of_int (uint n)"

definition frontier_score :: "frontier \<Rightarrow> f64" where
  "frontier_score f =
     (let depth_component = f64_mul DEPTH_WEIGHT (f64_of_u32 (fr_depth f));
          stall_ratio = f64_div (f64_of_u32 (fr_stall_count f)) (f64_of_u32 FRONTIER_STALL_THRESHOLD);
          stall_component = f64_mul STALL_DECAY (f64_max (f64_sub 0x3FF0000000000000 stall_ratio) 0);
          constraint_component = (if fr_blocking_params f = [] then 0 else CONSTRAINT_BOOST);
          rarity_component = f64_mul RARITY_WEIGHT (fr_rarity_boost f)
      in f64_add (f64_add (f64_add depth_component stall_component) constraint_component) rarity_component)"

section \<open>The set\<close>

record frontier_set =
  fs_frontiers :: "frontier list"
  fs_external_scores :: "(u32, f64) fmap"

definition new_set :: frontier_set where
  "new_set = \<lparr>fs_frontiers = [], fs_external_scores = fmempty\<rparr>"

text \<open>\<open>Vec::swap_remove\<close>.\<close>

definition swap_remove :: "'a list \<Rightarrow> nat \<Rightarrow> 'a list" where
  "swap_remove xs i = butlast (xs[i := last xs])"

definition insert_frontier :: "frontier \<Rightarrow> frontier_set \<Rightarrow> frontier_set" where
  "insert_frontier fr q =
     (let fs = (case position (\<lambda>f. fr_branch_id f = fr_branch_id fr) (fs_frontiers q) of
                  Some pos \<Rightarrow> swap_remove (fs_frontiers q) pos
                | None \<Rightarrow> fs_frontiers q)
      in q\<lparr>fs_frontiers := fs @ [fr]\<rparr>)"

definition score :: "frontier_set \<Rightarrow> frontier \<Rightarrow> f64" where
  "score q f =
     (case fmlookup (fs_external_scores q) (fr_branch_id f) of
        Some x \<Rightarrow> x
      | None \<Rightarrow> frontier_score f)"

text \<open>\<open>Iterator::max_by\<close>: the last of the elements no later element compares below; a NaN compares equal.\<close>

fun max_by_score :: "('a \<Rightarrow> f64) \<Rightarrow> nat \<times> 'a \<Rightarrow> (nat \<times> 'a) list \<Rightarrow> nat \<times> 'a" where
  "max_by_score sc best [] = best"
| "max_by_score sc best (x # xs) =
     max_by_score sc (if f64_lt (sc (snd x)) (sc (snd best)) then best else x) xs"

definition best_index :: "frontier_set \<Rightarrow> nat option" where
  "best_index q =
     (case enumerate 0 (fs_frontiers q) of
        [] \<Rightarrow> None
      | x # xs \<Rightarrow> Some (fst (max_by_score (score q) x xs)))"

definition pop_highest_priority :: "frontier_set \<Rightarrow> frontier option \<times> frontier_set" where
  "pop_highest_priority q =
     (case best_index q of
        None \<Rightarrow> (None, q)
      | Some idx \<Rightarrow>
          (Some (fs_frontiers q ! idx), q\<lparr>fs_frontiers := swap_remove (fs_frontiers q) idx\<rparr>))"

definition peek :: "frontier_set \<Rightarrow> frontier option" where
  "peek q = map_option (\<lambda>idx. fs_frontiers q ! idx) (best_index q)"

text \<open>Updating the first frontier with the id, and whether there is one.\<close>

fun update_first :: "u32 \<Rightarrow> (frontier \<Rightarrow> frontier) \<Rightarrow> frontier list \<Rightarrow> bool \<times> frontier list" where
  "update_first branch_id g [] = (False, [])"
| "update_first branch_id g (f # fs) =
     (if fr_branch_id f = branch_id then (True, g f # fs)
      else case update_first branch_id g fs of (found, fs') \<Rightarrow> (found, f # fs'))"

definition increment_stall :: "u32 \<Rightarrow> frontier_set \<Rightarrow> bool \<times> frontier_set" where
  "increment_stall branch_id q =
     (case update_first branch_id (\<lambda>f. f\<lparr>fr_stall_count := sat_add (fr_stall_count f) 1\<rparr>) (fs_frontiers q) of
        (found, fs) \<Rightarrow> (found, q\<lparr>fs_frontiers := fs\<rparr>))"

definition reset_stall :: "u32 \<Rightarrow> frontier_set \<Rightarrow> bool \<times> frontier_set" where
  "reset_stall branch_id q =
     (case update_first branch_id (\<lambda>f. f\<lparr>fr_stall_count := 0\<rparr>) (fs_frontiers q) of
        (found, fs) \<Rightarrow> (found, q\<lparr>fs_frontiers := fs\<rparr>))"

definition remove_frontier :: "u32 \<Rightarrow> frontier_set \<Rightarrow> frontier option \<times> frontier_set" where
  "remove_frontier branch_id q =
     (let q' = q\<lparr>fs_external_scores := fmdrop branch_id (fs_external_scores q)\<rparr>
      in case position (\<lambda>f. fr_branch_id f = branch_id) (fs_frontiers q') of
           Some pos \<Rightarrow> (Some (fs_frontiers q' ! pos), q'\<lparr>fs_frontiers := swap_remove (fs_frontiers q') pos\<rparr>)
         | None \<Rightarrow> (None, q'))"

definition len :: "frontier_set \<Rightarrow> usize" where
  "len q = length (fs_frontiers q)"

definition is_empty :: "frontier_set \<Rightarrow> bool" where
  "is_empty q = (fs_frontiers q = [])"

function abandon_loop :: "u32 \<Rightarrow> nat \<Rightarrow> frontier list \<Rightarrow> frontier list \<Rightarrow> frontier list \<times> frontier list" where
  "abandon_loop threshold i fs abandoned =
     (if i < length fs then
        if fr_stall_count (fs ! i) \<ge> threshold
        then abandon_loop threshold i (swap_remove fs i) (abandoned @ [fs ! i])
        else abandon_loop threshold (i + 1) fs abandoned
      else (abandoned, fs))"
  by pat_completeness auto
termination
  by (relation "measure (\<lambda>(_, i, fs, _). length fs - i)") (auto simp: swap_remove_def)

declare abandon_loop.simps [simp del]

definition abandon_stalled :: "u32 \<Rightarrow> frontier_set \<Rightarrow> frontier list \<times> frontier_set" where
  "abandon_stalled threshold q =
     (case abandon_loop threshold 0 (fs_frontiers q) [] of
        (abandoned, fs) \<Rightarrow> (abandoned, q\<lparr>fs_frontiers := fs\<rparr>))"

definition set_external_scores :: "(u32, f64) fmap \<Rightarrow> frontier_set \<Rightarrow> frontier_set" where
  "set_external_scores scores q = q\<lparr>fs_external_scores := scores\<rparr>"

definition has_external_scores :: "frontier_set \<Rightarrow> bool" where
  "has_external_scores q = (fs_external_scores q \<noteq> fmempty)"

fun insert_desc :: "('a \<Rightarrow> f64) \<Rightarrow> 'a \<Rightarrow> 'a list \<Rightarrow> 'a list" where
  "insert_desc sc x [] = [x]"
| "insert_desc sc x (y # ys) = (if f64_lt (sc x) (sc y) then y # insert_desc sc x ys else x # y # ys)"

definition sorted_desc :: "frontier_set \<Rightarrow> frontier list" where
  "sorted_desc q = foldr (insert_desc (score q)) (fs_frontiers q) []"

section \<open>Rankers\<close>

record frontier_summary =
  su_branch_id :: u32
  su_depth :: u32
  su_stall_count :: u32
  su_line :: u32
  su_predicate :: string

record rank_context =
  rc_function_name :: string
  rc_function_source :: string
  rc_round :: usize
  rc_frontiers :: "frontier_summary list"

datatype ranker = HeuristicRanker | ScriptedRanker "u32 list"

fun ranker_name :: "ranker \<Rightarrow> string" where
  "ranker_name HeuristicRanker = ''heuristic''"
| "ranker_name (ScriptedRanker _) = ''scripted''"

fun is_noop :: "ranker \<Rightarrow> bool" where
  "is_noop HeuristicRanker = True"
| "is_noop (ScriptedRanker _) = False"

fun rank :: "ranker \<Rightarrow> rank_context \<Rightarrow> (u32, f64) fmap" where
  "rank HeuristicRanker ctx = fmempty"
| "rank (ScriptedRanker priority) ctx =
     fold (\<lambda>f. fmupd (su_branch_id f) (if su_branch_id f \<in> set priority then 0x3FF0000000000000 else 0))
       (rc_frontiers ctx) fmempty"

section \<open>The set as a multiset with unique ids\<close>

lemma swap_remove_mset:
  assumes "i < length xs"
  shows "mset xs = add_mset (xs ! i) (mset (swap_remove xs i))"
proof -
  from assms obtain ys z where xs: "xs = ys @ [z]" by (cases xs rule: rev_cases) auto
  show ?thesis
  proof (cases "i = length ys")
    case True
    then show ?thesis by (simp add: xs swap_remove_def)
  next
    case False
    with assms have i: "i < length ys" by (simp add: xs)
    then have "ys ! i \<in># mset ys" by simp
    with i show ?thesis
      by (simp add: xs swap_remove_def list_update_append nth_append mset_update)
  qed
qed

definition unique_ids :: "frontier list \<Rightarrow> bool" where
  "unique_ids fs \<longleftrightarrow> distinct (map fr_branch_id fs)"

lemma unique_ids_mset: "mset xs = mset ys \<Longrightarrow> unique_ids xs \<longleftrightarrow> unique_ids ys"
  unfolding unique_ids_def by (intro mset_eq_imp_distinct_iff) simp

lemma unique_ids_swap_remove:
  assumes "i < length fs" and "unique_ids fs"
  shows "unique_ids (swap_remove fs i)"
    and "fr_branch_id (fs ! i) \<notin> fr_branch_id ` set (swap_remove fs i)"
proof -
  have "unique_ids (fs ! i # swap_remove fs i)"
    using unique_ids_mset [of fs "fs ! i # swap_remove fs i"] swap_remove_mset [OF assms(1)] assms(2) by simp
  then show "unique_ids (swap_remove fs i)"
    "fr_branch_id (fs ! i) \<notin> fr_branch_id ` set (swap_remove fs i)"
    by (simp_all add: unique_ids_def)
qed

lemma update_first_ids:
  assumes "\<And>f. fr_branch_id (g f) = fr_branch_id f"
  shows "map fr_branch_id (snd (update_first bid g fs)) = map fr_branch_id fs"
  using assms by (induction fs) (auto split: prod.split)

lemma best_index_range: "best_index q = Some i \<Longrightarrow> i < length (fs_frontiers q)"
proof -
  have "max_by_score sc x xs \<in> set (x # xs)" for sc and x :: "nat \<times> frontier" and xs
    by (induction xs arbitrary: x) (auto split: if_splits)
  then show "best_index q = Some i \<Longrightarrow> i < length (fs_frontiers q)"
    by (auto simp: best_index_def in_set_enumerate_eq split: list.splits dest!: arg_cong [of _ _ set])
qed

lemma max_by_score_max:
  assumes "\<And>x. x \<in> set (best # xs) \<Longrightarrow> \<not> f64_is_nan (sc (snd x))"
  shows "max_by_score sc best xs \<in> set (best # xs) \<and>
    (\<forall>x \<in> set (best # xs). \<not> f64_lt (sc (snd (max_by_score sc best xs))) (sc (snd x)))"
  using assms
proof (induction xs arbitrary: best)
  case (Cons x xs)
  let ?b = "if f64_lt (sc (snd x)) (sc (snd best)) then best else x"
  have nn: "\<not> f64_is_nan (sc (snd y))" if "y \<in> set (?b # xs)" for y
    using that by (intro Cons.prems) (auto split: if_splits)
  from Cons.IH [OF nn]
  have "max_by_score sc ?b xs \<in> set (?b # xs)" "\<forall>y \<in> set (?b # xs). \<not> f64_lt (sc (snd (max_by_score sc ?b xs))) (sc (snd y))"
    by blast+
  with Cons.prems [of x] Cons.prems [of best] show ?case by (auto simp: f64_lt_def split: if_splits)
qed (simp add: f64_lt_def)

lemma best_index_max:
  assumes "best_index q = Some i" and "\<And>f. f \<in> set (fs_frontiers q) \<Longrightarrow> \<not> f64_is_nan (score q f)"
    and "g \<in> set (fs_frontiers q)"
  shows "\<not> f64_lt (score q (fs_frontiers q ! i)) (score q g)"
proof -
  obtain x xs where e: "enumerate 0 (fs_frontiers q) = x # xs" and i: "i = fst (max_by_score (score q) x xs)"
    using assms(1) by (auto simp: best_index_def split: list.splits)
  have "snd ` set (x # xs) = set (fs_frontiers q)" unfolding e [symmetric] by (metis list.set_map map_snd_enumerate)
  then have m: "max_by_score (score q) x xs \<in> set (x # xs)"
    and max: "\<forall>y \<in> set (x # xs). \<not> f64_lt (score q (snd (max_by_score (score q) x xs))) (score q (snd y))"
    using max_by_score_max [of x xs "score q"] assms(2) by blast+
  from m have "fs_frontiers q ! i = snd (max_by_score (score q) x xs)"
    unfolding e [symmetric] i by (auto simp: in_set_enumerate_eq)
  moreover from assms(3) obtain y where "y \<in> set (x # xs)" "snd y = g"
    using \<open>snd ` set (x # xs) = set (fs_frontiers q)\<close> by (metis imageE)
  ultimately show ?thesis using max by auto
qed

lemma abandon_loop_split:
  assumes "abandon_loop t i fs ab = (gone, kept)"
    and "\<forall>f \<in> set (take i fs). fr_stall_count f < t" and "\<forall>f \<in> set ab. t \<le> fr_stall_count f"
  shows "mset gone + mset kept = mset ab + mset fs \<and>
    (\<forall>f \<in> set gone. t \<le> fr_stall_count f) \<and> (\<forall>f \<in> set kept. fr_stall_count f < t)"
  using assms
proof (induction t i fs ab rule: abandon_loop.induct)
  case (1 t i fs ab)
  show ?case
  proof (cases "i < length fs")
    case False
    with 1(3-) show ?thesis by (auto simp: abandon_loop.simps [of t i fs])
  next
    case i: True
    show ?thesis
    proof (cases "t \<le> fr_stall_count (fs ! i)")
      case True
      have "take i (swap_remove fs i) = take i fs" using i by (simp add: swap_remove_def take_butlast)
      with 1(1) [OF i True] 1(3-) True i swap_remove_mset [OF i] show ?thesis
        by (simp add: abandon_loop.simps [of t i fs])
    next
      case False
      with 1(2) [OF i False] 1(3-) i show ?thesis
        by (simp add: abandon_loop.simps [of t i fs] take_Suc_conv_app_nth not_le)
    qed
  qed
qed

section \<open>Histories of the set\<close>

datatype frontier_op =
    OpInsert frontier
  | OpPop
  | OpIncrementStall u32
  | OpRemove u32
  | OpResetStall u32
  | OpAbandonStalled u32
  | OpSetScores "(u32, f64) fmap"

fun apply_op :: "frontier_op \<Rightarrow> frontier_set \<Rightarrow> frontier_set" where
  "apply_op (OpInsert f) q = insert_frontier f q"
| "apply_op OpPop q = snd (pop_highest_priority q)"
| "apply_op (OpIncrementStall bid) q = snd (increment_stall bid q)"
| "apply_op (OpRemove bid) q = snd (remove_frontier bid q)"
| "apply_op (OpResetStall bid) q = snd (reset_stall bid q)"
| "apply_op (OpAbandonStalled t) q = snd (abandon_stalled t q)"
| "apply_op (OpSetScores sc) q = set_external_scores sc q"

definition run_ops :: "frontier_op list \<Rightarrow> frontier_set" where
  "run_ops ops = fold apply_op ops new_set"

lemma insert_unique: "unique_ids (fs_frontiers q) \<Longrightarrow> unique_ids (fs_frontiers (insert_frontier f q))"
proof (cases "position (\<lambda>g. fr_branch_id g = fr_branch_id f) (fs_frontiers q)")
  case None
  assume "unique_ids (fs_frontiers q)"
  moreover have "fr_branch_id f \<notin> fr_branch_id ` set (fs_frontiers q)" using None unfolding position_None by auto
  ultimately show ?thesis by (simp add: insert_frontier_def None unique_ids_def)
next
  case (Some i)
  assume u: "unique_ids (fs_frontiers q)"
  from position_Some [OF Some] have i: "i < length (fs_frontiers q)" "fr_branch_id (fs_frontiers q ! i) = fr_branch_id f"
    by simp_all
  from unique_ids_swap_remove [OF i(1) u] show ?thesis by (simp add: insert_frontier_def unique_ids_def Some i(2))
qed

lemma abandon_stalled_split:
  assumes "abandon_stalled t q = (gone, q')"
  shows "mset (fs_frontiers q) = mset gone + mset (fs_frontiers q') \<and>
    list_all (\<lambda>f. t \<le> fr_stall_count f) gone \<and> list_all (\<lambda>f. fr_stall_count f < t) (fs_frontiers q')"
  using assms abandon_loop_split [of t 0 "fs_frontiers q" "[]"]
  by (auto simp: abandon_stalled_def list_all_iff split: prod.splits)

lemma stall_unique [simp]:
  "unique_ids (fs_frontiers (snd (increment_stall bid q))) \<longleftrightarrow> unique_ids (fs_frontiers q)"
  "unique_ids (fs_frontiers (snd (reset_stall bid q))) \<longleftrightarrow> unique_ids (fs_frontiers q)"
  by (simp_all add: increment_stall_def reset_stall_def unique_ids_def case_prod_beta update_first_ids)

lemma apply_op_unique: "unique_ids (fs_frontiers q) \<Longrightarrow> unique_ids (fs_frontiers (apply_op c q))"
proof (cases c)
  case OpPop
  assume "unique_ids (fs_frontiers q)"
  with OpPop show ?thesis
    by (auto simp: pop_highest_priority_def unique_ids_swap_remove dest: best_index_range split: option.split)
next
  case (OpRemove bid)
  assume "unique_ids (fs_frontiers q)"
  with OpRemove show ?thesis
    by (auto simp: remove_frontier_def Let_def unique_ids_swap_remove dest: position_Some split: option.split)
next
  case (OpAbandonStalled t)
  assume u: "unique_ids (fs_frontiers q)"
  obtain gone q' where a: "abandon_stalled t q = (gone, q')" by (cases "abandon_stalled t q")
  have "unique_ids (gone @ fs_frontiers q')"
    using abandon_stalled_split [OF a] u unique_ids_mset [of "gone @ fs_frontiers q'" "fs_frontiers q"] by simp
  with OpAbandonStalled a show ?thesis by (simp add: unique_ids_def)
qed (simp_all add: insert_unique set_external_scores_def stall_unique)

definition frontier_step :: "frontier_set \<Rightarrow> frontier_set \<Rightarrow> bool" where
  "frontier_step q q' \<longleftrightarrow> (\<exists>c. q' = apply_op c q)"

interpretation worklist: invariant_system "\<lambda>q. q = new_set" frontier_step "\<lambda>q. unique_ids (fs_frontiers q)"
  by unfold_locales (auto simp: frontier_step_def apply_op_unique, simp add: new_set_def unique_ids_def)

lemma run_ops_reachable: "frontier_step\<^sup>*\<^sup>* new_set (run_ops ops)"
  unfolding run_ops_def
proof (induction ops rule: rev_induct)
  case (snoc c ops)
  have "frontier_step (fold apply_op ops new_set) (apply_op c (fold apply_op ops new_set))"
    by (auto simp: frontier_step_def)
  with snoc show ?case by simp
qed simp

lemmas run_ops_unique = worklist.inv_reachable [OF refl run_ops_reachable]

text \<open>C19: After any sequence of operations on a fresh set no two frontiers share a branch id. If no
  score is NaN, popping removes exactly the frontier that \<open>peek\<close> shows, and no other frontier has a
  higher effective score; abandoning splits the set exactly by the stall threshold.\<close>

theorem frontier_set_contract:
  assumes "list_all (\<lambda>f. \<not> f64_is_nan (score (run_ops ops) f)) (fs_frontiers (run_ops ops))"
  shows "unique_ids (fs_frontiers (run_ops ops)) \<and>
    (case pop_highest_priority (run_ops ops) of
       (None, q') \<Rightarrow> q' = run_ops ops \<and> fs_frontiers q' = []
     | (Some f, q') \<Rightarrow>
         peek (run_ops ops) = Some f \<and> mset (fs_frontiers (run_ops ops)) = add_mset f (mset (fs_frontiers q')) \<and>
         list_all (\<lambda>g. \<not> f64_lt (score (run_ops ops) f) (score (run_ops ops) g)) (fs_frontiers (run_ops ops))) \<and>
    (case abandon_stalled threshold (run_ops ops) of
       (gone, q') \<Rightarrow>
         mset (fs_frontiers (run_ops ops)) = mset gone + mset (fs_frontiers q') \<and>
         list_all (\<lambda>f. threshold \<le> fr_stall_count f) gone \<and>
         list_all (\<lambda>f. fr_stall_count f < threshold) (fs_frontiers q'))"
proof -
  let ?q = "run_ops ops"
  have "case pop_highest_priority ?q of
       (None, q') \<Rightarrow> q' = ?q \<and> fs_frontiers q' = []
     | (Some f, q') \<Rightarrow>
         peek ?q = Some f \<and> mset (fs_frontiers ?q) = add_mset f (mset (fs_frontiers q')) \<and>
         list_all (\<lambda>g. \<not> f64_lt (score ?q f) (score ?q g)) (fs_frontiers ?q)"
  proof (cases "best_index ?q")
    case None
    then have "fs_frontiers ?q = []"
      by (auto simp: best_index_def split: list.splits) (metis length_0_conv length_enumerate list.size(3))
    with None show ?thesis by (simp add: pop_highest_priority_def)
  next
    case (Some i)
    with best_index_range [OF Some] best_index_max [OF Some] assms show ?thesis
      by (simp add: pop_highest_priority_def peek_def list_all_iff swap_remove_mset)
  qed
  with run_ops_unique abandon_stalled_split show ?thesis by (simp split: prod.split)
qed

definition sample :: "u32 \<Rightarrow> frontier" where
  "sample bid = \<lparr>fr_branch_id = bid, fr_depth = 2, fr_blocking_params = [0], fr_best_prefix = [], fr_stall_count = 3,
     fr_rarity_boost = 0\<rparr>"

definition sample_ops :: "frontier_op list" where
  "sample_ops =
     [OpInsert (sample 1), OpInsert (sample 2), OpSetScores (fmap_of_list [(1, 0x3FF0000000000000), (2, 0)]),
      OpIncrementStall 1]"

lemma sample_frontiers:
  "run_ops sample_ops =
     \<lparr>fs_frontiers = [sample 1\<lparr>fr_stall_count := 4\<rparr>, sample 2],
      fs_external_scores = fmap_of_list [(1, 0x3FF0000000000000), (2, 0)]\<rparr>"
  by (simp add: sample_ops_def sample_def run_ops_def new_set_def insert_frontier_def set_external_scores_def
      increment_stall_def sat_add_def)

lemma sample_scored:
  "list_all (\<lambda>f. \<not> f64_is_nan (score (run_ops sample_ops) f)) (fs_frontiers (run_ops sample_ops))"
  by (simp add: sample_frontiers sample_def score_def fmlookup_of_list f64_is_nan_def)

theorem frontier_set_contract_witness:
  "length (fs_frontiers (run_ops sample_ops)) = 2 \<and>
    unique_ids (fs_frontiers (run_ops sample_ops)) \<and>
    (case pop_highest_priority (run_ops sample_ops) of
       (None, q') \<Rightarrow> q' = run_ops sample_ops \<and> fs_frontiers q' = []
     | (Some f, q') \<Rightarrow>
         peek (run_ops sample_ops) = Some f \<and>
         mset (fs_frontiers (run_ops sample_ops)) = add_mset f (mset (fs_frontiers q')) \<and>
         list_all (\<lambda>g. \<not> f64_lt (score (run_ops sample_ops) f) (score (run_ops sample_ops) g))
           (fs_frontiers (run_ops sample_ops)))"
  using frontier_set_contract [OF sample_scored, of 4] by (simp add: sample_frontiers)


section \<open>The score is monotone\<close>

lemma weights_positive: "f64_positive DEPTH_WEIGHT" "f64_positive STALL_DECAY" "f64_positive RARITY_WEIGHT"
    "f64_positive (f64_of_u32 FRONTIER_STALL_THRESHOLD)" "f64_positive CONSTRAINT_BOOST"
  by code_simp+

lemma round_int_mono: "0 \<le> i \<Longrightarrow> i \<le> j \<Longrightarrow> f64_round_bits (of_int i) \<le> f64_round_bits (of_int j)"
  by (intro f64_round_bits_mono) simp_all

lemma u32_key: "f64_nn (f64_of_u32 n)" "f64_key (f64_of_u32 n) = f64_round_bits (of_int (uint n))"
  unfolding f64_of_u32_def using nn_of_int [of "uint n"] by blast+

lemma two32: "f64_finite 0x41F0000000000000" "f64_mag 0x41F0000000000000 = 2 ^ 32"
  by (simp_all add: f64_finite_def f64_mag_def f64_exp_def f64_frac_def f64_bits_def inf_bits_def power_int_def power_one_over)

lemma threshold_ten: "f64_of_u32 FRONTIER_STALL_THRESHOLD = 0x4024000000000000"
  by code_simp

lemma threshold_mag: "f64_mag (f64_of_u32 FRONTIER_STALL_THRESHOLD) = 10"
  by (simp add: threshold_ten f64_mag_def f64_exp_def f64_frac_def f64_bits_def power_int_def power_one_over)

lemma u32_not_inf: "\<not> f64_is_inf (f64_of_u32 n)"
proof -
  have "f64_round_bits (of_int (uint n)) \<le> f64_round_bits (of_int (2 ^ 32))"
    using uint_lt2p [of n] by (intro round_int_mono) simp_all
  also have "\<dots> = f64_bits 0x41F0000000000000"
    using f64_round_bits_mag [OF two32(1)] by (simp add: two32(2))
  also have "\<dots> < inf_bits" using two32(1) by (simp add: f64_finite_def)
  finally have "f64_key (f64_of_u32 n) < inf_bits" unfolding u32_key(2) .
  then show ?thesis by (simp add: nn_inf_key u32_key(1))
qed

lemma u32_mono: "m \<le> n \<Longrightarrow> f64_key (f64_of_u32 m) \<le> f64_key (f64_of_u32 n)"
  unfolding u32_key(2) by (intro round_int_mono) (simp_all add: word_le_def)

definition stall_bonus :: "u32 \<Rightarrow> f64" where
  "stall_bonus n =
     f64_max (f64_sub 0x3FF0000000000000 (f64_div (f64_of_u32 n) (f64_of_u32 FRONTIER_STALL_THRESHOLD))) 0"

lemma stall_ratio:
  assumes "m \<le> n"
  defines "ratio \<equiv> \<lambda>k. f64_div (f64_of_u32 k) (f64_of_u32 FRONTIER_STALL_THRESHOLD)"
  shows "f64_nn (ratio n)" and "\<not> f64_is_inf (ratio n)" and "f64_key (ratio m) \<le> f64_key (ratio n)"
proof -
  note k = nn_div_key [OF weights_positive(4) u32_key(1) u32_not_inf]
  have fin: "f64_finite (f64_of_u32 n)" by (rule finite_nn [OF u32_key(1) u32_not_inf])
  have "f64_round_bits (f64_mag (f64_of_u32 n) / f64_mag (f64_of_u32 FRONTIER_STALL_THRESHOLD))
      \<le> f64_round_bits (f64_mag (f64_of_u32 n))"
    using f64_mag_nonneg [of "f64_of_u32 n"] by (intro f64_round_bits_mono) (simp_all add: threshold_mag)
  then have top: "f64_round_bits (f64_mag (f64_of_u32 n) / f64_mag (f64_of_u32 FRONTIER_STALL_THRESHOLD)) < inf_bits"
    using fin f64_round_bits_mag [OF fin] by (simp add: f64_finite_def)
  have le: "f64_round_bits (f64_mag (f64_of_u32 a) / f64_mag (f64_of_u32 FRONTIER_STALL_THRESHOLD))
      \<le> f64_round_bits (f64_mag (f64_of_u32 b) / f64_mag (f64_of_u32 FRONTIER_STALL_THRESHOLD))" if "a \<le> b" for a b
    using nn_mag_mono [OF u32_key(1) u32_key(1) u32_not_inf u32_mono [OF that]]
    by (intro f64_round_bits_mono divide_right_mono) (simp_all add: f64_mag_nonneg)
  show "f64_nn (ratio n)" unfolding ratio_def by (rule k(2))
  then show "\<not> f64_is_inf (ratio n)"
    using top k(1) [of n] by (simp add: nn_inf_key ratio_def)
  show "f64_key (ratio m) \<le> f64_key (ratio n)" unfolding ratio_def k(1) by (rule le [OF assms(1)])
qed

lemma stall_bonus_antimono:
  assumes "m \<le> n"
  shows "f64_nn (stall_bonus n)" and "f64_key (stall_bonus n) \<le> f64_key (stall_bonus m)"
proof -
  have one: "f64_nn 0x3FF0000000000000" "\<not> f64_is_inf 0x3FF0000000000000" by code_simp+
  note rn = stall_ratio [OF assms] and rm = stall_ratio [OF order_refl, of m]
  have mag: "f64_mag (f64_div (f64_of_u32 m) (f64_of_u32 FRONTIER_STALL_THRESHOLD))
      \<le> f64_mag (f64_div (f64_of_u32 n) (f64_of_u32 FRONTIER_STALL_THRESHOLD))"
    by (rule nn_mag_mono [OF rm(1) rn(1) rn(2) rn(3)])
  show "f64_nn (stall_bonus n)" unfolding stall_bonus_def by (rule nn_sub_max_key(2) [OF one(1) rn(1) one(2) rn(2)])
  show "f64_key (stall_bonus n) \<le> f64_key (stall_bonus m)"
    unfolding stall_bonus_def nn_sub_max_key(1) [OF one(1) rn(1) one(2) rn(2)]
      nn_sub_max_key(1) [OF one(1) rm(1) one(2) rm(2)]
    using mag by (intro f64_round_bits_mono) (auto simp: max_def)
qed

text \<open>C11: The priority score, as the IEEE arithmetic computes it, respects the documented priorities: a
  frontier that is at least as deep, at most as often stalled, constrained whenever the other is, and
  at least as rare never scores below the other, and its score is a number that is not negative.\<close>

theorem frontier_score_monotone:
  assumes "fr_depth f \<le> fr_depth g" and "fr_stall_count g \<le> fr_stall_count f"
    and "fr_blocking_params g = [] \<Longrightarrow> fr_blocking_params f = []"
    and "f64_nn (fr_rarity_boost f)" and "f64_nn (fr_rarity_boost g)"
    and "f64_key (fr_rarity_boost f) \<le> f64_key (fr_rarity_boost g)"
  shows "f64_nn (frontier_score g) \<and> \<not> f64_lt (frontier_score g) (frontier_score f)"
proof -
  let ?d = "\<lambda>x. f64_mul DEPTH_WEIGHT (f64_of_u32 (fr_depth x))" and ?s = "\<lambda>x. f64_mul STALL_DECAY (stall_bonus (fr_stall_count x))"
    and ?c = "\<lambda>x. if fr_blocking_params x = [] then 0 else CONSTRAINT_BOOST" and ?r = "\<lambda>x. f64_mul RARITY_WEIGHT (fr_rarity_boost x)"
  have sc: "frontier_score x = f64_add (f64_add (f64_add (?d x) (?s x)) (?c x)) (?r x)" for x
    by (simp add: frontier_score_def stall_bonus_def Let_def)
  note stall = stall_bonus_antimono [OF assms(2)] stall_bonus_antimono(1) [OF order_refl]
  have z: "f64_nn 0" "f64_nn CONSTRAINT_BOOST" "f64_key 0 \<le> f64_key CONSTRAINT_BOOST" by code_simp+
  have nn: "f64_nn (?d x)" "f64_nn (?s x)" "f64_nn (?c x)" for x
    using nn_mul_key(2) [OF weights_positive(1) u32_key(1)] nn_mul_key(2) [OF weights_positive(2) stall(3)] z by simp_all
  have nr: "f64_nn (?r f)" "f64_nn (?r g)" using nn_mul_key(2) [OF weights_positive(3)] assms(4,5) by blast+
  have d: "f64_key (?d f) \<le> f64_key (?d g)" by (rule nn_mul_mono [OF weights_positive(1) u32_key(1) u32_key(1) u32_mono [OF assms(1)]])
  have s: "f64_key (?s f) \<le> f64_key (?s g)" by (rule nn_mul_mono [OF weights_positive(2) stall(3) stall(3) stall(2)])
  have c: "f64_key (?c f) \<le> f64_key (?c g)" using assms(3) z by simp
  have r: "f64_key (?r f) \<le> f64_key (?r g)" by (rule nn_mul_mono [OF weights_positive(3) assms(4,5,6)])
  note add = nn_add_key(2)
  have "f64_key (frontier_score f) \<le> f64_key (frontier_score g)"
    unfolding sc by (intro nn_add_mono add nn nr d s c r)
  moreover have "f64_nn (frontier_score g)" unfolding sc by (intro add nn nr)
  ultimately show ?thesis by (simp add: f64_lt_def)
qed

theorem frontier_score_monotone_witness:
  "f64_nn (frontier_score (sample 2\<lparr>fr_depth := 7, fr_stall_count := 1\<rparr>)) \<and>
   \<not> f64_lt (frontier_score (sample 2\<lparr>fr_depth := 7, fr_stall_count := 1\<rparr>)) (frontier_score (sample 1))"
proof -
  have "f64_nn 0" by code_simp
  then show ?thesis
    using frontier_score_monotone [of "sample 1" "sample 2\<lparr>fr_depth := 7, fr_stall_count := 1\<rparr>"] by (simp add: sample_def)
qed

end
