(* ===== verification/Solver_Overlay.thy ===== *)
theory Solver_Overlay
  imports Json_Ops Type_Info
begin

text \<open>
  Solved values to inputs (\<open>shatter-core/src/orchestrator.rs\<close>): the JSON form of a value from the solver,
  the resolution of a dotted solver variable to object keys and array positions by the declared type of
  the parameter, writing a value at such a path, and the overlay of a whole solution onto base inputs.

  The solution is a hash map in the source; the model takes the sequence in which it is iterated. The
  Unicode case tables behind \<open>serde_rename_variants\<close> are a parameter. A mutable reference into a value is
  a pair of the value it points to and the function that puts a new one there.
\<close>

section \<open>Values\<close>

datatype concrete_value =
    CvInt i64
  | CvFloat f64
  | CvStr string
  | CvBool bool
  | CvComplex complex_kind concrete_value

fun kind_name :: "complex_kind \<Rightarrow> string" where
  "kind_name CkDate = ''date''" | "kind_name CkDateTime = ''date_time''" | "kind_name CkTime = ''time''"
| "kind_name CkDuration = ''duration''" | "kind_name CkRegExp = ''reg_exp''" | "kind_name CkChar = ''char''"
| "kind_name CkSymbol = ''symbol''" | "kind_name CkBigInt = ''big_int''" | "kind_name CkBigDecimal = ''big_decimal''"
| "kind_name CkComplex = ''complex''" | "kind_name CkRational = ''rational''" | "kind_name CkRange = ''range''"
| "kind_name CkBuffer = ''buffer''" | "kind_name CkBitSet = ''bit_set''" | "kind_name CkError = ''error''"
| "kind_name CkOption = ''option''" | "kind_name CkResult = ''result''" | "kind_name CkClosure = ''closure''"
| "kind_name CkIterator = ''iterator''" | "kind_name CkUrl = ''url''" | "kind_name CkIpAddress = ''ip_address''"
| "kind_name CkUuid = ''uuid''" | "kind_name CkPath = ''path''" | "kind_name CkMoney = ''money''"
| "kind_name CkSemVer = ''sem_ver''" | "kind_name CkEmail = ''email''" | "kind_name CkMimeType = ''mime_type''"
| "kind_name CkColor = ''color''" | "kind_name CkGeoPoint = ''geo_point''" | "kind_name CkLocale = ''locale''"
| "kind_name CkRune = ''rune''" | "kind_name CkGoByte = ''go_byte''" | "kind_name CkGoUint = ''go_uint''"
| "kind_name CkGoDuration = ''go_duration''"

fun concrete_to_json :: "concrete_value \<Rightarrow> json" where
  "concrete_to_json (CvInt i) = json_of_i64 i"
| "concrete_to_json (CvFloat f) = json_of_f64 f"
| "concrete_to_json (CvStr s) = JString s"
| "concrete_to_json (CvBool b) = JBool b"
| "concrete_to_json (CvComplex kind repr) =
     (if kind = CkGoByte then
        json_of_i64 (case repr of CvInt i \<Rightarrow> word_of_int (sint i mod 256) | _ \<Rightarrow> 0)
      else if kind = CkGoUint then
        JNumber (PosInt (case repr of CvInt i \<Rightarrow> if sint i < 0 then 0 else i | _ \<Rightarrow> 0))
      else JObject [(''__complex_type'', JString (kind_name kind)), (''value'', concrete_to_json repr)])"

section \<open>Resolving a path\<close>

definition solved_object_path :: "string \<Rightarrow> (string \<times> string list) option" where
  "solved_object_path var_name =
     (let parts = map str_trim (split_char CHR ''.'' var_name);
          param = str_trim (hd parts);
          path = filter (\<lambda>part. CHR ''('' \<notin> set part \<and> CHR '')'' \<notin> set part) (filter (\<lambda>part. part \<noteq> []) (tl parts))
      in if param = [] then None else if path = [] then None else Some (param, path))"

datatype overlay_segment = Key string | Index nat

fun peel_nullable :: "type_info \<Rightarrow> type_info" where
  "peel_nullable (TNullable inner) = peel_nullable inner"
| "peel_nullable t = t"

definition capitalize_word :: "case_mapping \<Rightarrow> string \<Rightarrow> string" where
  "capitalize_word cm word =
     (case utf8_chars word of [] \<Rightarrow> [] | c # cs \<Rightarrow> cm_upper cm c @ cm_lower cm (concat cs))"

definition serde_rename_variants :: "case_mapping \<Rightarrow> string \<Rightarrow> string list" where
  "serde_rename_variants cm snake =
     (case filter (\<lambda>w. w \<noteq> []) (split_char CHR ''_'' snake) of
        [] \<Rightarrow> []
      | w # ws \<Rightarrow>
          [cm_lower cm w @ concat (map (capitalize_word cm) ws),
           concat (map (capitalize_word cm) (w # ws)),
           cm_lower cm (concat (w # ws)),
           cm_upper cm (concat (w # ws)),
           cm_lower cm (str_join ''_'' (w # ws)),
           cm_upper cm (str_join ''_'' (w # ws)),
           cm_lower cm (str_join ''-'' (w # ws)),
           cm_upper cm (str_join ''-'' (w # ws))])"

definition declares :: "(string \<times> type_info) list \<Rightarrow> string \<Rightarrow> bool" where
  "declares flds candidate = list_ex (\<lambda>(declared, _). declared = candidate) flds"

definition resolve_field_key :: "case_mapping \<Rightarrow> string \<Rightarrow> (string \<times> type_info) list \<Rightarrow> string" where
  "resolve_field_key cm segment flds =
     (if declares flds segment then segment
      else case find (declares flds) (serde_rename_variants cm segment) of
             Some variant \<Rightarrow> variant
           | None \<Rightarrow> segment)"

definition array_index_segment :: "string \<Rightarrow> nat option" where
  "array_index_segment segment = index_spelling segment"

fun resolve_segments :: "case_mapping \<Rightarrow> string list \<Rightarrow> type_info option \<Rightarrow> overlay_segment list" where
  "resolve_segments cm [] current = []"
| "resolve_segments cm (segment # rest) current =
     (case map_option peel_nullable current of
        Some (TArray element) \<Rightarrow>
          (case array_index_segment segment of
             Some index \<Rightarrow> Index index # resolve_segments cm rest (Some element)
           | None \<Rightarrow> Key segment # resolve_segments cm rest None)
      | Some (TObject flds) \<Rightarrow>
          (case array_index_segment segment of
             Some index \<Rightarrow>
               if index < positional_object_arity flds
               then Index index # resolve_segments cm rest (map_of flds segment)
               else (let key = resolve_field_key cm segment flds
                     in Key key # resolve_segments cm rest (map_of flds key))
           | None \<Rightarrow>
               (let key = resolve_field_key cm segment flds
                in Key key # resolve_segments cm rest (map_of flds key)))
      | _ \<Rightarrow> Key segment # resolve_segments cm rest None)"

definition resolve_field_path :: "case_mapping \<Rightarrow> string list \<Rightarrow> type_info \<Rightarrow> overlay_segment list" where
  "resolve_field_path cm raw_path root_type = resolve_segments cm raw_path (Some root_type)"

section \<open>Writing at a path\<close>

fun index_entries :: "(string \<times> json) list \<Rightarrow> (nat \<times> json) list option" where
  "index_entries [] = Some []"
| "index_entries ((key, value) # fs) =
     (case array_index_segment key of
        None \<Rightarrow> None
      | Some index \<Rightarrow> map_option (\<lambda>es. (index, value) # es) (index_entries fs))"

definition numeric_keyed_object_as_array :: "(string \<times> json) list \<Rightarrow> json option" where
  "numeric_keyed_object_as_array fs =
     (case index_entries fs of
        None \<Rightarrow> None
      | Some entries \<Rightarrow>
          (let len = fold max (map (\<lambda>(index, _). index + 1) entries) 0
           in Some (JArray (foldl (\<lambda>out (index, value). out[index := value]) (replicate len JNull) entries))))"

text \<open>The array the slot becomes, or nothing when that would discard data.\<close>

definition coerce_slot_to_array :: "json \<Rightarrow> json option" where
  "coerce_slot_to_array slot =
     (case slot of
        JArray _ \<Rightarrow> Some slot
      | JObject fs \<Rightarrow> numeric_keyed_object_as_array fs
      | _ \<Rightarrow> Some (JArray []))"

type_synonym json_ref = "json \<times> (json \<Rightarrow> json)"

definition array_element_at :: "json \<Rightarrow> nat \<Rightarrow> json_ref" where
  "array_element_at slot index =
     (let a = (case as_array slot of Some a \<Rightarrow> a | None \<Rightarrow> []);
          a' = (if length a \<le> index then a @ replicate (index + 1 - length a) JNull else a)
      in (a' ! index, \<lambda>v. JArray (a'[index := v])))"

definition object_slot_at :: "json \<Rightarrow> string \<Rightarrow> json_ref" where
  "object_slot_at slot key =
     (let obj = (case as_object slot of Some fs \<Rightarrow> fs | None \<Rightarrow> [])
      in (case obj_get obj key of Some v \<Rightarrow> v | None \<Rightarrow> JObject [], \<lambda>v. JObject (obj_insert obj key v)))"

fun descend_one :: "json \<Rightarrow> overlay_segment \<Rightarrow> json_ref" where
  "descend_one slot (Key key) = object_slot_at slot key"
| "descend_one slot (Index index) =
     (case coerce_slot_to_array slot of
        Some arr \<Rightarrow> array_element_at arr index
      | None \<Rightarrow> object_slot_at slot (show_nat index))"

fun overlay_json_path :: "json \<Rightarrow> overlay_segment list \<Rightarrow> json \<Rightarrow> json" where
  "overlay_json_path target [] value = value"
| "overlay_json_path target (segment # path) value =
     (case descend_one target segment of (child, put) \<Rightarrow> put (overlay_json_path child path value))"

section \<open>The overlay\<close>

definition param_types_of :: "param_info list \<Rightarrow> type_info list" where
  "param_types_of param_infos = map pi_typ param_infos"

abbreviation index_of :: "string list \<Rightarrow> string \<Rightarrow> nat option" where
  "index_of names x \<equiv> position (\<lambda>n. n = x) names"

definition precedence :: "string list \<Rightarrow> string \<Rightarrow> nat" where
  "precedence param_names var_name =
     (if var_name \<in> set param_names then 2 else if solved_object_path var_name \<noteq> None then 1 else 0)"

definition overlay_target ::
    "string list \<Rightarrow> nat \<Rightarrow> string \<Rightarrow> (nat \<times> string list) option" where
  "overlay_target param_names len var_name =
     (case solved_object_path var_name of
        None \<Rightarrow> None
      | Some (param_name, path) \<Rightarrow>
          (case index_of param_names param_name of
             None \<Rightarrow> None
           | Some idx \<Rightarrow> if idx < len \<and> path \<noteq> [] then Some (idx, path) else None))"

definition overlay_one ::
    "case_mapping \<Rightarrow> nat \<Rightarrow> string list \<Rightarrow> type_info list \<Rightarrow> string \<times> concrete_value \<Rightarrow> json list \<Rightarrow> json list" where
  "overlay_one cm base_len param_names param_types = (\<lambda>(var_name, value) result.
     (case index_of param_names var_name of
        Some idx \<Rightarrow> if idx < length result then result[idx := concrete_to_json value] else result
      | None \<Rightarrow>
          (case overlay_target param_names (length result) var_name of
             Some (idx, path) \<Rightarrow>
               (let resolved = (if idx < length param_types then resolve_field_path cm path (param_types ! idx)
                                else map Key path)
                in result[idx := overlay_json_path (result ! idx) resolved (concrete_to_json value)])
           | None \<Rightarrow>
               if length param_names = 1 \<and> base_len = 1 \<and> CHR ''.'' \<notin> set var_name
               then result[0 := concrete_to_json value] else result)))"

text \<open>
  The two contracts of the function are run-time checks: misaligned inputs panic on entry, and a result
  of another length would panic on return.
\<close>

definition overlay_solved_values ::
    "case_mapping \<Rightarrow> json list \<Rightarrow> (string \<times> concrete_value) list \<Rightarrow> string list \<Rightarrow> type_info list \<Rightarrow> panic + json list" where
  "overlay_solved_values cm base_inputs solved param_names param_types =
     (if length base_inputs \<noteq> length param_names
      then Inl (Panic ''base_inputs and param_names must be positionally aligned'')
      else
        let entries = sort_key (\<lambda>(name, _). precedence param_names name) (sort_key fst solved);
            result = fold (overlay_one cm (length base_inputs) param_names param_types) entries base_inputs
        in if length result = length base_inputs then Inr result
           else Inl (Panic ''overlay must preserve input vector length''))"

section \<open>What is written can be read back\<close>

text \<open>
  The address of a segment is its key or the spelling of its index; a container is read at an address
  whether it is an object or an array.
\<close>

fun address :: "overlay_segment \<Rightarrow> string" where
  "address (Key k) = k"
| "address (Index i) = show_nat i"

fun slot_get :: "json \<Rightarrow> string \<Rightarrow> json option" where
  "slot_get (JObject fs) k = obj_get fs k"
| "slot_get (JArray a) k = map_of (map (\<lambda>(i, x). (show_nat i, x)) (enumerate 0 a)) k"
| "slot_get _ k = None"

fun path_get :: "json \<Rightarrow> string list \<Rightarrow> json option" where
  "path_get v [] = Some v"
| "path_get v (k # ks) = (case slot_get v k of None \<Rightarrow> None | Some w \<Rightarrow> path_get w ks)"

lemma obj_get_insert [simp]: "obj_get (obj_insert fs k v) k' = (if k' = k then Some v else obj_get fs k')"
  by (induction fs k v rule: obj_insert.induct) (auto simp: obj_get_def)

lemma obj_get_Nil: "obj_get [] k = None"
  by (simp add: obj_get_def)

lemma slot_get_array:
  "slot_get (JArray a) k = Some w \<longleftrightarrow> (\<exists>i. k = show_nat i \<and> i < length a \<and> w = a ! i)"
proof -
  let ?ks = "map show_nat [0..<length a]"
  have e: "map (\<lambda>(i, x). (show_nat i, x)) (enumerate 0 a) = zip ?ks a"
    by (simp only: enumerate_eq_zip zip_map1 add_0)
  have d: "distinct ?ks" by (simp add: distinct_map inj_on_def)
  have l: "length ?ks = length a" by simp
  have "map_of (zip ?ks a) k = Some w \<longleftrightarrow> (k, w) \<in> set (zip ?ks a)"
    using d l by (intro map_of_eq_Some_iff) (simp only: map_fst_zip)
  also have "\<dots> \<longleftrightarrow> (\<exists>i < length a. k = ?ks ! i \<and> w = a ! i)" by (auto simp: in_set_zip)
  also have "\<dots> \<longleftrightarrow> (\<exists>i. k = show_nat i \<and> i < length a \<and> w = a ! i)"
    by (intro ex_cong1) auto
  finally show ?thesis unfolding slot_get.simps(2) e .
qed

lemma slot_get_index [simp]:
  "slot_get (JArray a) (show_nat i) = (if i < length a then Some (a ! i) else None)"
proof (cases "slot_get (JArray a) (show_nat i)")
  case None
  then show ?thesis using slot_get_array [of a "show_nat i" "a ! i"] by (auto simp del: slot_get.simps)
next
  case (Some w)
  then show ?thesis using slot_get_array [of a "show_nat i" w] by (simp del: slot_get.simps)
qed

declare slot_get.simps(2) [simp del]

lemma object_put [simp]:
  "slot_get (snd (object_slot_at slot k) v) k' =
     (if k' = k then Some v else case slot of JObject fs \<Rightarrow> obj_get fs k' | _ \<Rightarrow> None)"
  by (cases slot) (simp_all add: object_slot_at_def Let_def obj_get_Nil del: obj_insert.simps)

lemma array_put:
  "slot_get (snd (array_element_at slot i) v) (show_nat i) = Some v"
  "slot_get (JArray a) k = Some w \<Longrightarrow> k \<noteq> show_nat i \<Longrightarrow> slot_get (snd (array_element_at (JArray a) i) v) k = Some w"
  by (simp add: array_element_at_def Let_def del: replicate.simps split: option.split,
      auto simp: array_element_at_def Let_def slot_get_array nth_append nth_list_update)

lemma descend_put: "slot_get (snd (descend_one slot seg) v) (address seg) = Some v"
  by (cases seg) (simp_all add: array_put split: option.split)

section \<open>Nothing else is lost\<close>

lemma index_entries_nth:
  "index_entries fs = Some es \<Longrightarrow> map (\<lambda>(i, v). (show_nat i, v)) es = fs"
proof (induction fs arbitrary: es)
  case (Cons p fs)
  obtain k v where p: "p = (k, v)" by (cases p)
  from Cons.prems obtain i es' where e: "array_index_segment k = Some i" "index_entries fs = Some es'" "es = (i, v) # es'"
    by (auto simp: p split: option.splits)
  from e(1) have "k = show_nat i" by (simp add: array_index_segment_def index_spelling_iff)
  with Cons.IH [OF e(2)] e p show ?case by simp
qed simp

lemma place_length [simp]: "length (foldl (\<lambda>out (i, v). out[i := v]) out es) = length out"
  by (induction es arbitrary: out) (auto split: prod.split)

lemma place_other:
  "i \<notin> fst ` set es \<Longrightarrow> foldl (\<lambda>out (i, v). out[i := v]) out es ! i = out ! i"
  by (induction es arbitrary: out) (auto split: prod.split simp: rev_image_eqI)

lemma place_nth:
  assumes "(i, v) \<in> set es" and "distinct (map fst es)" and "i < length out"
  shows "foldl (\<lambda>out (i, v). out[i := v]) out es ! i = v"
  using assms
proof (induction es arbitrary: out)
  case (Cons e es)
  obtain j u where e: "e = (j, u)" by (cases e)
  show ?case
  proof (cases "(i, v) = e")
    case True
    with Cons.prems e show ?thesis by (simp add: place_other)
  next
    case False
    with Cons e show ?thesis by auto
  qed
qed simp

lemma fold_max_acc: "a \<le> fold max xs (a :: nat)"
proof (induction xs arbitrary: a)
  case (Cons x xs)
  from Cons [of "max x a"] show ?case by simp
qed simp

lemma fold_max_ge: "x \<in> set xs \<Longrightarrow> x \<le> fold max xs (a :: nat)"
proof (induction xs arbitrary: a)
  case (Cons y xs)
  then show ?case using fold_max_acc [of "max y a" xs] by auto
qed simp

lemma promoted_get:
  assumes "numeric_keyed_object_as_array fs = Some arr" and "distinct (map fst fs)" and "obj_get fs k = Some w"
  shows "slot_get arr k = Some w"
proof -
  from assms(1) obtain es where es: "index_entries fs = Some es"
    and arr: "arr = JArray (foldl (\<lambda>out (i, v). out[i := v]) (replicate (fold max (map (\<lambda>(i, _). i + 1) es) 0) JNull) es)"
    by (auto simp: numeric_keyed_object_as_array_def Let_def split: option.splits)
  note fs = index_entries_nth [OF es]
  from assms(3) have "(k, w) \<in> set (map (\<lambda>(i, v). (show_nat i, v)) es)" unfolding fs obj_get_def by (rule map_of_SomeD)
  then obtain i where i: "(i, w) \<in> set es" "k = show_nat i" by auto
  have "map fst fs = map show_nat (map fst es)" unfolding fs [symmetric] by (simp add: case_prod_unfold comp_def)
  with assms(2) have "distinct (map fst es)" by (simp only: distinct_map)
  moreover have "i + 1 \<le> fold max (map (\<lambda>(i, _). i + 1) es) 0"
    using i(1) by (intro fold_max_ge) force
  ultimately show ?thesis unfolding arr i(2) by (simp add: place_nth [OF i(1)])
qed

text \<open>A step that keeps the container of the slot: what it does not address stays readable.\<close>

fun keeps :: "json \<Rightarrow> overlay_segment \<Rightarrow> bool" where
  "keeps (JObject fs) (Key _) = True"
| "keeps (JObject fs) (Index _) = distinct (map fst fs)"
| "keeps (JArray a) (Index _) = True"
| "keeps _ _ = False"

fun compatible :: "json \<Rightarrow> overlay_segment list \<Rightarrow> bool" where
  "compatible slot [] = True"
| "compatible slot (seg # path) =
     (keeps slot seg \<and> (case slot_get slot (address seg) of Some child \<Rightarrow> compatible child path | None \<Rightarrow> True))"

fun diverges :: "string list \<Rightarrow> string list \<Rightarrow> bool" where
  "diverges (a # p) (b # q) = (a \<noteq> b \<or> diverges p q)"
| "diverges _ _ = False"

lemma array_child: "slot_get (JArray a) (show_nat i) = Some c \<Longrightarrow> fst (array_element_at (JArray a) i) = c"
  by (auto simp: array_element_at_def Let_def split: if_splits)

lemma coerce_array:
  assumes "keeps slot (Index i)" and "coerce_slot_to_array slot = Some arr"
  obtains a where "arr = JArray a" and "\<And>k w. slot_get slot k = Some w \<Longrightarrow> slot_get (JArray a) k = Some w"
proof (cases slot)
  case (JObject fs)
  with assms have n: "numeric_keyed_object_as_array fs = Some arr" and d: "distinct (map fst fs)"
    by (simp_all add: coerce_slot_to_array_def)
  then obtain a where "arr = JArray a" by (auto simp: numeric_keyed_object_as_array_def Let_def split: option.splits)
  with promoted_get [OF n d] JObject that show thesis by simp
qed (use assms that in \<open>auto simp: coerce_slot_to_array_def\<close>)

lemma descend_child: "keeps slot seg \<Longrightarrow> slot_get slot (address seg) = Some c \<Longrightarrow> fst (descend_one slot seg) = c"
proof (cases seg)
  case (Key k)
  assume "keeps slot seg" "slot_get slot (address seg) = Some c"
  with Key show ?thesis by (cases slot) (simp_all add: object_slot_at_def)
next
  case (Index i)
  assume k: "keeps slot seg" and g: "slot_get slot (address seg) = Some c"
  show ?thesis
  proof (cases "coerce_slot_to_array slot")
    case None
    with k g Index show ?thesis by (cases slot) (simp_all add: object_slot_at_def coerce_slot_to_array_def)
  next
    case (Some arr)
    from coerce_array [OF k [unfolded Index] Some] obtain a where "arr = JArray a" "slot_get (JArray a) (show_nat i) = Some c"
      using g Index by (metis address.simps(2))
    with Some Index show ?thesis by (simp add: array_child del: slot_get_index)
  qed
qed

lemma descend_put_other:
  assumes "keeps slot seg" and "slot_get slot k = Some w" and "k \<noteq> address seg"
  shows "slot_get (snd (descend_one slot seg) v) k = Some w"
proof (cases seg)
  case (Key k')
  with assms show ?thesis by (cases slot) simp_all
next
  case (Index i)
  show ?thesis
  proof (cases "coerce_slot_to_array slot")
    case None
    with assms Index show ?thesis by (cases slot) (simp_all add: coerce_slot_to_array_def)
  next
    case (Some arr)
    from coerce_array [OF assms(1) [unfolded Index] Some] obtain a where "arr = JArray a" "slot_get (JArray a) k = Some w"
      using assms(2) by metis
    with Some Index assms(3) show ?thesis by (simp add: array_put(2))
  qed
qed

lemma overlay_frame:
  assumes "compatible slot path" and "diverges (map address path) q" and "path_get slot q = Some w"
  shows "path_get (overlay_json_path slot path v) q = Some w"
  using assms
proof (induction slot path v arbitrary: q rule: overlay_json_path.induct)
  case (2 slot seg path v)
  obtain child put where d: "descend_one slot seg = (child, put)" by (cases "descend_one slot seg")
  from 2(3) obtain k ks where q: "q = k # ks" by (cases q) auto
  from 2(4) q obtain c where c: "slot_get slot k = Some c" "path_get c ks = Some w" by (auto split: option.splits)
  have keep: "keeps slot seg" using 2(2) by simp
  show ?case
  proof (cases "k = address seg")
    case False
    with descend_put_other [OF keep c(1), of "overlay_json_path child path v"] c(2) show ?thesis by (simp add: q d)
  next
    case True
    with descend_child [OF keep] c d have "child = c" by simp
    moreover from True 2(2,3) c q have "compatible c path" "diverges (map address path) ks" by simp_all
    ultimately have "path_get (overlay_json_path child path v) ks = Some w" using 2(1) [OF d [symmetric]] c(2) by simp
    with True descend_put [of slot seg "overlay_json_path child path v"] show ?thesis by (simp add: q d)
  qed
qed simp

lemma overlay_read_back: "path_get (overlay_json_path slot path v) (map address path) = Some v"
proof (induction slot path v rule: overlay_json_path.induct)
  case (2 slot seg path v)
  obtain child put where d: "descend_one slot seg = (child, put)" by (cases "descend_one slot seg")
  with 2 [OF d [symmetric]] descend_put [of slot seg "overlay_json_path child path v"] show ?case by simp
qed simp

text \<open>C9: A value written at a resolved path is read back at that path, whatever the slot held before:
  missing containers are created and an object with index keys becomes an array. Where every step of
  the path meets a container it can keep, any other path that could be read before still reads the
  same value.\<close>

theorem overlay_path_roundtrip:
  "path_get (overlay_json_path slot path v) (map address path) = Some v \<and>
   (compatible slot path \<and> diverges (map address path) q \<and> path_get slot q = Some w \<longrightarrow>
      path_get (overlay_json_path slot path v) q = Some w)"
  using overlay_read_back overlay_frame by blast

definition pair_value :: json where
  "pair_value = JObject [(''0'', JBool True), (''1'', JObject [(''w'', JBool False), (''x'', JNull)])]"

lemma show_nat_small: "show_nat 0 = ''0''" "show_nat 1 = ''1''"
  by code_simp+

theorem overlay_path_roundtrip_witness:
  "path_get (overlay_json_path pair_value [Index 1, Key ''x''] (JString ''s'')) [''1'', ''x''] = Some (JString ''s'') \<and>
   path_get (overlay_json_path pair_value [Index 1, Key ''x''] (JString ''s'')) [''0''] = Some (JBool True)"
proof -
  have "compatible pair_value [Index 1, Key ''x'']" "path_get pair_value [''0''] = Some (JBool True)"
    by (simp_all add: pair_value_def obj_get_def show_nat_small del: One_nat_def)
  with overlay_path_roundtrip [of pair_value "[Index 1, Key ''x'']" "JString ''s''" "[''0'']" "JBool True"]
  show ?thesis by (simp add: show_nat_small del: overlay_json_path.simps One_nat_def)
qed

section \<open>Exact matches win\<close>

lemma index_of_Some: "index_of ys x = Some i \<Longrightarrow> i < length ys \<and> ys ! i = x"
  using position_Some by fast

lemma index_of_None: "index_of ys x = None \<longleftrightarrow> x \<notin> set ys"
  by (auto simp: position_None)

lemma overlay_one_length [simp]: "length (overlay_one cm n names types e r) = length r"
  by (cases e) (simp add: overlay_one_def Let_def split: option.split prod.split)

lemma overlay_fold_length [simp]: "length (fold (overlay_one cm n names types) es r) = length r"
  by (induction es arbitrary: r) simp_all

lemma overlay_one_exact:
  "index_of names x = Some i \<Longrightarrow> overlay_one cm n names types (x, v) r = (if i < length r then r[i := concrete_to_json v] else r)"
  by (simp add: overlay_one_def)

lemma overlay_fold_other:
  assumes "\<And>e. e \<in> set es \<Longrightarrow> fst e \<in> set names \<and> fst e \<noteq> names ! i"
  shows "fold (overlay_one cm n names types) es r ! i = r ! i"
  using assms
proof (induction es arbitrary: r)
  case (Cons e es)
  obtain x v where e: "e = (x, v)" by (cases e)
  from Cons.prems [of e] obtain j where j: "index_of names x = Some j" using index_of_None [where ys = names and x = x] e by auto
  with Cons.prems [of e] e have "j \<noteq> i" by (auto dest: index_of_Some)
  with Cons j e show ?case by (simp add: overlay_one_exact)
qed simp

lemma overlay_exact:
  assumes "distinct (map fst es)" and "sorted (map (\<lambda>(x, _). precedence names x) es)"
    and "(x, v) \<in> set es" and "index_of names x = Some i" and "i < length r"
  shows "fold (overlay_one cm n names types) es r ! i = concrete_to_json v"
proof -
  from assms(3) obtain A B where es: "es = A @ (x, v) # B" by (meson split_list)
  have i: "names ! i = x" "x \<in> set names" using index_of_Some [OF assms(4)] by (auto simp: in_set_conv_nth)
  have "\<forall>e \<in> set B. precedence names x \<le> (case e of (y, _) \<Rightarrow> precedence names y)"
    using assms(2) unfolding es by (simp add: sorted_append)
  then have prec: "precedence names x \<le> precedence names (fst e)" if "e \<in> set B" for e
    using that by (cases e) auto
  have x: "x \<notin> fst ` set B" using assms(1) unfolding es by simp
  have "fst e \<in> set names \<and> fst e \<noteq> names ! i" if "e \<in> set B" for e
  proof -
    have "fst e \<noteq> x" using x that by (metis imageI)
    with prec [OF that] i show ?thesis by (simp add: precedence_def split: if_splits)
  qed
  from overlay_fold_other [OF this] assms(4,5) show ?thesis by (simp add: es overlay_one_exact)
qed

text \<open>C17: The overlay of a solution does not depend on the iteration order of the hash map. It panics
  exactly when the inputs and the parameter names have different lengths; otherwise it keeps the number of
  inputs, and a variable that is exactly the name of a parameter decides that parameter, even when
  other variables write into the same slot.\<close>

theorem overlay_exact_match_wins:
  assumes "distinct (map fst solved)" and "mset solved' = mset solved"
  shows "overlay_solved_values cm base solved' names types = overlay_solved_values cm base solved names types \<and>
    (case overlay_solved_values cm base solved names types of
       Inl _ \<Rightarrow> length base \<noteq> length names
     | Inr r \<Rightarrow> length base = length names \<and> length r = length base \<and>
         list_all (\<lambda>(x, v). case index_of names x of None \<Rightarrow> True | Some i \<Rightarrow> r ! i = concrete_to_json v) solved)"
proof -
  have inj: "inj_on fst (set solved)" using assms(1) by (simp add: distinct_map)
  have sort: "sort_key fst solved' = sort_key fst solved"
    using assms(2) inj by (intro sort_key_inj_key_eq) (auto dest: mset_eq_setD)
  let ?es = "sort_key (\<lambda>(x, _). precedence names x) (sort_key fst solved)"
  have "mset (map fst ?es) = mset (map fst solved)" by simp
  then have d: "distinct (map fst ?es)" using assms(1) mset_eq_imp_distinct_iff by blast
  let ?r = "fold (overlay_one cm (length names) names types) ?es base"
  have "case index_of names x of None \<Rightarrow> True | Some i \<Rightarrow> ?r ! i = concrete_to_json v"
    if "(x, v) \<in> set solved" "length base = length names" for x v
  proof (cases "index_of names x")
    case (Some i)
    then have "i < length base" using index_of_Some [OF Some] that(2) by simp
    from overlay_exact [OF d sorted_sort_key _ Some this] that(1) Some show ?thesis by simp
  qed simp
  then have "list_all (\<lambda>(x, v). case index_of names x of None \<Rightarrow> True | Some i \<Rightarrow> ?r ! i = concrete_to_json v) solved"
    if "length base = length names" using that unfolding list_all_iff by blast
  then show ?thesis by (cases "length base = length names") (simp_all add: overlay_solved_values_def Let_def sort)
qed

theorem overlay_exact_match_wins_witness:
  "\<exists>r. overlay_solved_values ascii_case [JNull] [(''y'', CvBool True), (''x'', CvInt 7)] [''x''] [TBool] = Inr r \<and>
     overlay_solved_values ascii_case [JNull] [(''x'', CvInt 7), (''y'', CvBool True)] [''x''] [TBool] = Inr r \<and>
     r ! 0 = json_of_i64 7"
  using overlay_exact_match_wins [of "[(''x'', CvInt 7), (''y'', CvBool True)]" "[(''y'', CvBool True), (''x'', CvInt 7)]"
      ascii_case "[JNull]" "[''x'']" "[TBool]"]
  by (simp add: add_mset_commute split: sum.splits)

lemma printable_not_ws: "32 < (of_char c :: nat) \<Longrightarrow> (of_char c :: nat) < 128 \<Longrightarrow> c \<notin> ws_first_bytes \<and> c \<notin> ws_last_bytes"
  using ws_byte_range [of c] by auto

lemma email_length_path: "solved_object_path ''email.length'' = Some (''email'', [''length''])"
proof -
  have "str_trim ''email'' = ''email''" "str_trim ''length'' = ''length''"
    by (rule str_trim_id, rule disjI2, simp add: printable_not_ws)+
  then show ?thesis by (simp add: solved_object_path_def)
qed

lemma derived_name_replaces_string:
  "overlay_solved_values cm [JString s] [(''email.length'', CvInt n)] [''email''] [TStr] =
     Inr [JObject [(''length'', json_of_i64 n)]]"
  by (simp add: overlay_solved_values_def overlay_one_def overlay_target_def email_length_path
      resolve_field_path_def object_slot_at_def)

end
