(* ===== verification/Path_Conditions.thy ===== *)
theory Path_Conditions
  imports Loop_Analysis Symbolic_Unroll Boundary_Search Frontier Solver_Overlay "HOL-Library.Monad_Syntax"
begin

text \<open>
  Path conditions and stalled loops (\<open>shatter-core/src/orchestrator.rs\<close>): the conditions of an executed
  path, the loops that enclose a branch, and the constraints that ask the solver for an iteration of an
  unrolled loop at which a stalled frontier takes its other side, with the inputs built from the answer.

  The solver is a parameter: a function from the constraints to a solution, to \<open>Unsat\<close>, or to nothing
  when it fails. So is the iteration order of a hash set (\<open>hash_order\<close> of \<open>Loop_Analysis\<close>).
\<close>

section \<open>Path conditions\<close>

definition path_condition :: "branch_decision \<Rightarrow> sym_expr option" where
  "path_condition decision =
     (case bd_constraint decision of
        ScExpr expr \<Rightarrow> Some (if bd_taken decision then expr else SeUnOp OpNot expr)
      | ScUnknown _ \<Rightarrow> None)"

definition extract_sym_constraints :: "execute_result \<Rightarrow> sym_expr option list" where
  "extract_sym_constraints result = map path_condition (xr_branch_path result)"

definition opposite_branch_constraint :: "sym_expr \<Rightarrow> bool \<Rightarrow> sym_expr" where
  "opposite_branch_constraint expr was_taken = (if was_taken then SeUnOp OpNot expr else expr)"

section \<open>Loops around a branch\<close>

fun loop_context_steps ::
    "trace_event list \<Rightarrow> u32 list \<Rightarrow> (u32, u32 fset) fmap \<Rightarrow> (u32, u32 fset) fmap" where
  "loop_context_steps [] loop_stack ctx = ctx"
| "loop_context_steps (TeScope (LoopEnter loop_id) # evs) loop_stack ctx =
     loop_context_steps evs (loop_stack @ [loop_id]) ctx"
| "loop_context_steps (TeScope (LoopExit loop_id) # evs) loop_stack ctx =
     loop_context_steps evs (filter (\<lambda>id. id \<noteq> loop_id) loop_stack) ctx"
| "loop_context_steps (TeBranch decision # evs) loop_stack ctx =
     loop_context_steps evs loop_stack
       (fold (\<lambda>loop_id ctx.
          fmupd (bd_branch_id decision) (finsert loop_id (fm_get_or ctx (bd_branch_id decision) {||})) ctx)
          loop_stack ctx)"
| "loop_context_steps (_ # evs) loop_stack ctx = loop_context_steps evs loop_stack ctx"

definition extract_loop_context :: "trace_event list \<Rightarrow> (u32, u32 fset) fmap" where
  "extract_loop_context scope_events = loop_context_steps scope_events [] fmempty"

section \<open>Constraints of an unrolled loop\<close>

definition DEFAULT_BOUNDED_UNROLL_DEPTH :: u32 where "DEFAULT_BOUNDED_UNROLL_DEPTH = 64"
definition MIN_BOUNDED_UNROLL_DEPTH :: u32 where "MIN_BOUNDED_UNROLL_DEPTH = 8"
definition SOLVER_TIMEOUT_MS_PER_UNROLL_STEP :: u64 where "SOLVER_TIMEOUT_MS_PER_UNROLL_STEP = 100"

definition bounded_unroll_depth :: "u64 option \<Rightarrow> u32" where
  "bounded_unroll_depth solver_timeout_ms =
     (case solver_timeout_ms of
        Some timeout_ms \<Rightarrow>
          ucast (min (max (timeout_ms div SOLVER_TIMEOUT_MS_PER_UNROLL_STEP) (ucast MIN_BOUNDED_UNROLL_DEPTH))
                     (ucast (- 1 :: u32)))
      | None \<Rightarrow> DEFAULT_BOUNDED_UNROLL_DEPTH)"

fun substitute_loop_locals :: "(string, sym_expr) fmap \<Rightarrow> sym_expr \<Rightarrow> sym_expr"
  and substitute_args :: "(string, sym_expr) fmap \<Rightarrow> sym_expr list \<Rightarrow> sym_expr list"
where
  "substitute_loop_locals locals (SeParam name path) =
     (case fmlookup locals name of Some e \<Rightarrow> e | None \<Rightarrow> SeParam name path)"
| "substitute_loop_locals locals (SeConst c) = SeConst c"
| "substitute_loop_locals locals SeUnknown = SeUnknown"
| "substitute_loop_locals locals (SeBinOp op left right) =
     SeBinOp op (substitute_loop_locals locals left) (substitute_loop_locals locals right)"
| "substitute_loop_locals locals (SeUnOp op operand) = SeUnOp op (substitute_loop_locals locals operand)"
| "substitute_loop_locals locals (SeCall name receiver args) =
     SeCall name (case receiver of None \<Rightarrow> None | Some r \<Rightarrow> Some (substitute_loop_locals locals r))
       (substitute_args locals args)"
| "substitute_loop_locals locals (SeIte condition then_expr else_expr) =
     SeIte (substitute_loop_locals locals condition) (substitute_loop_locals locals then_expr)
       (substitute_loop_locals locals else_expr)"
| "substitute_args locals [] = []"
| "substitute_args locals (arg # args) = substitute_loop_locals locals arg # substitute_args locals args"

fun bound_op_kind :: "bound_op \<Rightarrow> bin_op_kind" where
  "bound_op_kind BoundLt = OpLt"
| "bound_op_kind BoundLe = OpLe"
| "bound_op_kind BoundGt = OpGt"
| "bound_op_kind BoundGe = OpGe"

definition loop_bound_constraint :: "loop_info \<Rightarrow> (string, sym_expr) fmap \<Rightarrow> sym_expr option" where
  "loop_bound_constraint li loop_state =
     map_option (\<lambda>induction_expr.
       SeBinOp (bound_op_kind (iv_bound_op (lp_induction_var li))) induction_expr (iv_bound_expr (lp_induction_var li)))
       (fmlookup loop_state (iv_name (lp_induction_var li)))"

text \<open>The decisions before the first one for the branch that are outside the loop.\<close>

definition prefix_decisions :: "execute_result \<Rightarrow> u32 \<Rightarrow> u32 \<Rightarrow> branch_decision list" where
  "prefix_decisions result target_branch_id target_loop_id =
     (let loop_context = extract_loop_context (xr_scope_events result)
      in filter (\<lambda>d. \<not> (case fmlookup loop_context (bd_branch_id d) of
                           Some loop_ids \<Rightarrow> target_loop_id |\<in>| loop_ids
                         | None \<Rightarrow> False))
           (takeWhile (\<lambda>d. bd_branch_id d \<noteq> target_branch_id) (xr_branch_path result)))"

definition loop_prefix_constraints :: "execute_result \<Rightarrow> u32 \<Rightarrow> u32 \<Rightarrow> sym_expr list" where
  "loop_prefix_constraints result target_branch_id target_loop_id =
     List.map_filter path_condition (prefix_decisions result target_branch_id target_loop_id)"

definition adjusted_bound :: "bound_op \<Rightarrow> i64 \<Rightarrow> i64" where
  "adjusted_bound op induction_value =
     (case op of
        BoundLt \<Rightarrow> induction_value + 1
      | BoundLe \<Rightarrow> induction_value
      | BoundGt \<Rightarrow> induction_value - 1
      | BoundGe \<Rightarrow> induction_value)"

text \<open>The constraint vector: prefix, iteration bound, loop bound and the flipped branch.\<close>

definition stalled_constraints ::
    "execute_result \<Rightarrow> branch_decision \<Rightarrow> loop_info \<Rightarrow> unrolled_formula \<Rightarrow> sym_expr list option" where
  "stalled_constraints result target_decision li f =
     (case bd_constraint target_decision of
        ScUnknown _ \<Rightarrow> None
      | ScExpr expr \<Rightarrow>
          (case loop_bound_constraint li (uf_locals f) of
             None \<Rightarrow> None
           | Some bound \<Rightarrow>
               Some (map (substitute_loop_locals (uf_locals f))
                       (loop_prefix_constraints result (bd_branch_id target_decision) (lp_loop_id li)) @
                     [uf_iteration_bound f, bound,
                      opposite_branch_constraint (substitute_loop_locals (uf_locals f) expr) (bd_taken target_decision)])))"

section \<open>Candidate inputs from the solver\<close>

text \<open>\<open>Result::ok\<close>.\<close>

definition ok :: "'e + 'a \<Rightarrow> 'a option" where
  "ok r = (case r of Inl _ \<Rightarrow> None | Inr x \<Rightarrow> Some x)"

datatype solve_result = Sat "(string \<times> concrete_value) list" | Unsat

type_synonym solver = "sym_expr list \<Rightarrow> u64 option \<Rightarrow> param_info list \<Rightarrow> solve_result option"

text \<open>The induction value at the solved iteration, when it is a constant.\<close>

definition solved_induction_value ::
    "iteration_template \<Rightarrow> loop_info \<Rightarrow> (string \<times> concrete_value) list \<Rightarrow> panic + i64 option" where
  "solved_induction_value template li solved =
     (case map_of solved (it_iteration_var template) of
        Some (CvInt value) \<Rightarrow>
          if sint value < 0 then Inr None
          else and_then (materialize_iteration_state template (ucast value)) (\<lambda>r. Inr
                 (case r of
                    Inl _ \<Rightarrow> None
                  | Inr st \<Rightarrow>
                      (case fmlookup st (iv_name (lp_induction_var li)) of
                         Some (SeConst (CInt v)) \<Rightarrow> Some v
                       | _ \<Rightarrow> None)))
      | _ \<Rightarrow> Inr None)"

definition adjust_loop_bound_candidate ::
    "json list \<Rightarrow> iteration_template \<Rightarrow> loop_info \<Rightarrow> string list \<Rightarrow> (string \<times> concrete_value) list \<Rightarrow> panic + json list" where
  "adjust_loop_bound_candidate candidate_inputs template li param_names solved =
     and_then (solved_induction_value template li solved) (\<lambda>value.
       case (value, iv_bound_expr (lp_induction_var li)) of
         (Some induction_value, SeParam bound_name []) \<Rightarrow>
           (case index_of param_names bound_name of
              None \<Rightarrow> Inr candidate_inputs
            | Some bound_index \<Rightarrow>
                if bound_index < length candidate_inputs
                then Inr (candidate_inputs[bound_index :=
                            json_of_i64 (adjusted_bound (iv_bound_op (lp_induction_var li)) induction_value)])
                else Inl (Panic ''index out of bounds''))
       | _ \<Rightarrow> Inr candidate_inputs)"

definition stalled_witness :: "frontier \<Rightarrow> raw_result list \<Rightarrow> execute_result option" where
  "stalled_witness fr raw_results =
     map_option (\<lambda>(_, _, result). result)
       (find (\<lambda>(inputs, _, result). json_eqs inputs (fr_best_prefix fr) \<and>
          list_ex (\<lambda>d. bd_branch_id d = fr_branch_id fr) (xr_branch_path result)) (rev raw_results))"

definition target_loop :: "hash_order \<Rightarrow> frontier \<Rightarrow> loop_info list \<Rightarrow> execute_result \<Rightarrow> loop_info option" where
  "target_loop order fr loops result =
     (case fmlookup (extract_loop_context (xr_scope_events result)) (fr_branch_id fr) of
        None \<Rightarrow> None
      | Some loop_ids \<Rightarrow>
          (case order loop_ids of
             [] \<Rightarrow> None
           | target_loop_id # _ \<Rightarrow> find (\<lambda>info. lp_loop_id info = target_loop_id) loops))"

definition bounded_template :: "u64 option \<Rightarrow> iteration_template \<Rightarrow> iteration_template" where
  "bounded_template solver_timeout_ms template =
     template\<lparr>it_iteration_count := max (bounded_unroll_depth solver_timeout_ms) (it_iteration_count template + 1)\<rparr>"

definition stalled_loop_query ::
    "hash_order \<Rightarrow> frontier \<Rightarrow> raw_result list \<Rightarrow> loop_info list \<Rightarrow> u64 option
     \<Rightarrow> (loop_info \<times> iteration_template \<times> sym_expr list) option" where
  "stalled_loop_query order fr raw_results loops solver_timeout_ms =
     do {
       result \<leftarrow> stalled_witness fr raw_results;
       li \<leftarrow> target_loop order fr loops result;
       let snapshots = filter (\<lambda>s. ls_loop_id s = lp_loop_id li) (xr_loop_body_states result);
       if length snapshots < MIN_TEMPLATE_ITERATIONS then None
       else do {
         template \<leftarrow> ok (extract_iteration_template li snapshots);
         let bounded = bounded_template solver_timeout_ms template;
         f \<leftarrow> ok (build_unrolled_formula bounded);
         target_decision \<leftarrow> find (\<lambda>d. bd_branch_id d = fr_branch_id fr) (xr_branch_path result);
         constraints \<leftarrow> stalled_constraints result target_decision li f;
         Some (li, bounded, constraints)
       }
     }"

definition stalled_loop_candidate_inputs ::
    "solver \<Rightarrow> case_mapping \<Rightarrow> hash_order \<Rightarrow> frontier \<Rightarrow> raw_result list \<Rightarrow> loop_info list \<Rightarrow> param_info list
     \<Rightarrow> string list \<Rightarrow> u64 option \<Rightarrow> panic + json list option" where
  "stalled_loop_candidate_inputs solve cm order fr raw_results loops param_infos param_names solver_timeout_ms =
     (case stalled_loop_query order fr raw_results loops solver_timeout_ms of
        None \<Rightarrow> Inr None
      | Some (li, template, constraints) \<Rightarrow>
          (case solve constraints solver_timeout_ms param_infos of
             Some (Sat solved) \<Rightarrow>
               and_then (overlay_solved_values cm (fr_best_prefix fr) solved param_names (param_types_of param_infos))
                 (\<lambda>candidate_inputs. and_then
                   (adjust_loop_bound_candidate candidate_inputs template li param_names solved)
                   (\<lambda>inputs. Inr (Some inputs)))
           | _ \<Rightarrow> Inr None))"

section \<open>What the constraints mean\<close>

text \<open>The condition of a decision has the value of the given side; an unknown condition says nothing.\<close>

definition takes :: "scalls \<Rightarrow> senv \<Rightarrow> branch_decision \<Rightarrow> bool \<Rightarrow> bool" where
  "takes \<phi> \<rho> d side \<longleftrightarrow>
     (case bd_constraint d of ScExpr e \<Rightarrow> seval \<phi> \<rho> e = Some (VBool side) | ScUnknown _ \<Rightarrow> True)"

text \<open>The assignment in which the locals of a loop have the values of their closed forms.\<close>

definition loop_env :: "scalls \<Rightarrow> senv \<Rightarrow> (string, sym_expr) fmap \<Rightarrow> senv" where
  "loop_env \<phi> \<rho> locals = (\<lambda>name path. case fmlookup locals name of Some e \<Rightarrow> seval \<phi> \<rho> e | None \<Rightarrow> \<rho> name path)"

lemma un_not_holds: "un_val OpNot x = Some (VBool b) \<longleftrightarrow> x = Some (VBool (\<not> b))"
  by (cases x; cases "the x") auto

lemma substitute_seval:
  "seval \<phi> \<rho> (substitute_loop_locals locals e) = seval \<phi> (loop_env \<phi> \<rho> locals) e"
  "seval_args \<phi> \<rho> (substitute_args locals es) = seval_args \<phi> (loop_env \<phi> \<rho> locals) es"
  by (induction locals e and locals es rule: substitute_loop_locals_substitute_args.induct)
    (auto simp: loop_env_def split: option.split sval.split)

lemma path_condition_holds:
  "path_condition d = Some c \<Longrightarrow> holds \<phi> \<rho> c \<longleftrightarrow> takes \<phi> \<rho> d (bd_taken d)"
  by (auto simp: path_condition_def takes_def un_not_holds split: sym_constraint.splits if_splits)

lemma path_condition_None: "path_condition d = None \<Longrightarrow> takes \<phi> \<rho> d side"
  by (auto simp: path_condition_def takes_def split: sym_constraint.splits)

lemma substituted_holds: "holds \<phi> \<rho> (substitute_loop_locals locals c) \<longleftrightarrow> holds \<phi> (loop_env \<phi> \<rho> locals) c"
  by (simp add: substitute_seval)

lemma path_conditions_hold:
  "list_all (holds \<phi> \<rho>) (List.map_filter path_condition ds) \<longleftrightarrow> list_all (\<lambda>d. takes \<phi> \<rho> d (bd_taken d)) ds"
  by (induction ds) (auto simp: map_filter_simps path_condition_holds path_condition_None split: option.split)

lemma opposite_holds:
  "holds \<phi> \<rho> (opposite_branch_constraint c taken) \<longleftrightarrow> seval \<phi> \<rho> c = Some (VBool (\<not> taken))"
  by (simp add: opposite_branch_constraint_def un_not_holds)

definition inside_bound :: "scalls \<Rightarrow> senv \<Rightarrow> loop_info \<Rightarrow> (string, sym_expr) fmap \<Rightarrow> bool" where
  "inside_bound \<phi> \<rho> li locals \<longleftrightarrow>
     bin_val (bound_op_kind (iv_bound_op (lp_induction_var li)))
       (loop_env \<phi> \<rho> locals (iv_name (lp_induction_var li)) []) (seval \<phi> \<rho> (iv_bound_expr (lp_induction_var li)))
     = Some (VBool True)"

lemma stalled_constraints_hold:
  assumes "stalled_constraints result d li f = Some cs"
  shows "list_all (holds \<phi> \<rho>) cs \<longleftrightarrow>
    list_all (\<lambda>p. takes \<phi> (loop_env \<phi> \<rho> (uf_locals f)) p (bd_taken p))
      (prefix_decisions result (bd_branch_id d) (lp_loop_id li)) \<and>
    holds \<phi> \<rho> (uf_iteration_bound f) \<and> inside_bound \<phi> \<rho> li (uf_locals f) \<and>
    takes \<phi> (loop_env \<phi> \<rho> (uf_locals f)) d (\<not> bd_taken d)"
proof -
  from assms obtain e b where e: "bd_constraint d = ScExpr e" and b: "loop_bound_constraint li (uf_locals f) = Some b"
    and cs: "cs = map (substitute_loop_locals (uf_locals f)) (loop_prefix_constraints result (bd_branch_id d) (lp_loop_id li)) @
      [uf_iteration_bound f, b, opposite_branch_constraint (substitute_loop_locals (uf_locals f) e) (bd_taken d)]"
    by (auto simp: stalled_constraints_def split: sym_constraint.splits option.splits)
  have "holds \<phi> \<rho> b \<longleftrightarrow> inside_bound \<phi> \<rho> li (uf_locals f)"
    using b by (auto simp: loop_bound_constraint_def inside_bound_def loop_env_def)
  moreover have "list_all (holds \<phi> \<rho>)
      (map (substitute_loop_locals (uf_locals f)) (loop_prefix_constraints result (bd_branch_id d) (lp_loop_id li))) \<longleftrightarrow>
    list_all (\<lambda>p. takes \<phi> (loop_env \<phi> \<rho> (uf_locals f)) p (bd_taken p))
      (prefix_decisions result (bd_branch_id d) (lp_loop_id li))"
    unfolding loop_prefix_constraints_def path_conditions_hold [symmetric]
    by (simp add: list.pred_map comp_def substituted_holds)
  ultimately show ?thesis
    unfolding cs by (simp add: opposite_holds substitute_seval takes_def e)
qed

lemma stalled_query_parts:
  assumes "stalled_loop_query order fr raws loops timeout = Some (li, t, cs)"
  obtains result d f where "stalled_witness fr raws = Some result"
    and "find (\<lambda>d. bd_branch_id d = fr_branch_id fr) (xr_branch_path result) = Some d"
    and "build_unrolled_formula t = Inr f" and "stalled_constraints result d li f = Some cs"
  using assms
  by (auto simp: stalled_loop_query_def Let_def ok_def split: if_splits sum.splits bind_splits)

end
