(* ===== verification/Spec2Isabelle.thy ===== *)
theory Spec2Isabelle
  imports Batch_Scheduler Executability Call_Graph_Batches Stratum Mcdc Setup_Manager Shrink Path_Conditions
begin

text \<open>
  \<^bold>\<open>Shatter: a model of the core of a concolic tester\<close>

  Shatter explores functions of programs in several languages. A frontend process analyses and runs
  the functions; the core (\<open>src/shatter-core\<close>) decides what to run, records the branches that were taken
  and asks a solver for inputs that take other branches. This library models the parts of the core
  that compute: the order in which functions are explored, the decision whether a function can be run,
  the treatment of symbolic constraints and loops, and the search for better inputs.

  \<^bold>\<open>How the code is modelled.\<close> A struct is a record whose fields carry a prefix for the type, an enum is a
  datatype, a method on \<open>&mut self\<close> returns the updated record. Machine integers are words and wrap, as
  in the release profile; \<open>usize\<close> indices and counters are natural numbers, and where the source
  saturates or checks a width this is written out. An \<open>f64\<close> is its 64 bits, and its arithmetic is the
  exact rational result rounded to nearest even (theory \<open>Float64\<close>). A \<open>Result\<close> or a panic is a sum with the
  error on the left. A \<open>HashMap\<close> is a finite map; where the iteration order of a hash container can be
  observed it is a parameter, and a \<open>BTreeMap\<close> is iterated in key order. Strings are byte strings (UTF-8).
  Code outside the model that is called back (the executor of the frontend, the solver, the hasher,
  the Unicode case tables) is a parameter of the definitions that use it.

  \<^bold>\<open>The theories.\<close>

  \<^item> \<open>Shatter_Prelude\<close>, \<open>Rust_Strings\<close>, \<open>Json_Value\<close>, \<open>Json_Ops\<close>, \<open>Float64\<close>: integers, panics, finite maps, the
    string functions, JSON values and IEEE arithmetic. The prelude has the interface \<open>invariant_system\<close>, by
    which the stateful components lift a one-step invariant to all reachable states. \<open>Float64\<close> shows that
    rounding is exact on floats and that arithmetic on non-negative floats is monotone.

  \<^item> \<open>Batch_Scheduler\<close> (\<open>batch_scheduler.rs\<close>): the scheduler that hands out batches of exploration work. Its
    queue, leases, deferred budgets, cooldowns and miss streaks are one record; \<open>next_batch\<close>,
    \<open>record_outcome\<close> and \<open>enqueue\<close> are its steps. The lemmas show the queue invariant, exclusive leases, the
    choice of \<open>next_batch\<close>, that deferred work is not lost, that budgets bound the number of batches, when
    the schedule is a round robin and when a function starves, and that the scheduler refines a per-function
    protocol of idle, waiting and leased (locale \<open>lease_service\<close>).

  \<^item> \<open>Type_Info\<close> (\<open>types.rs\<close>) and \<open>Executability\<close> (\<open>executability.rs\<close>): type descriptions, the search for opaque
    nodes, positional objects, and the gate that skips functions whose parameters cannot be built. A
    relation \<open>type_path\<close> says which paths a type has; the search and the reported nesting paths are shown
    correct against it, and the gate is open exactly when the first blocking node of each parameter allows it.

  \<^item> \<open>Function_Registry\<close> (\<open>batch_analyze.rs\<close>), \<open>Call_Graph\<close>, \<open>Kahn\<close>, \<open>Tarjan\<close>, \<open>Call_Graph_Batches\<close>
    (\<open>call_graph.rs\<close>): the graph of calls between the registered functions, its topological layers, its
    strongly connected components and the exploration batches. The recursion of \<open>strongconnect\<close> is run
    with fuel, and the development shows that the number of nodes suffices. The components are exactly the
    classes of mutual reachability and batches respect calls.

  \<^item> \<open>Stratum\<close> (\<open>stratum.rs\<close>): the parser and resolution of layer ranges, with the round trip to its written
    form.

  \<^item> \<open>Sym_Expr\<close> (\<open>sym_expr.rs\<close>), \<open>Execution_Record\<close> (\<open>execution_record.rs\<close> and the execute response of
    \<open>protocol.rs\<close>): symbolic expressions and the records of an execution. An evaluator \<open>seval\<close>, which is not
    part of the program, gives the expressions their meaning on integers and booleans.

  \<^item> \<open>Symbolic_Unroll\<close> (\<open>symbolic_unroll.rs\<close>) and \<open>Loop_Analysis\<close> (\<open>loop_analysis.rs\<close>): loop templates from
    snapshots, their closed forms and replay, and the rewriting of the constraints of loop iterations.
    The closed form of a counted run of integers reproduces the snapshots and, when no folded constant
    overflows, agrees with the replay. The merged constraints of a loop hold exactly when the iteration
    variable selects one of the separate ones and that one holds. Which loop a constraint is attributed to
    depends on the order of a hash map; the possible results are characterised.

  \<^item> \<open>Mcdc\<close> (\<open>mcdc.rs\<close>): the table of condition outcomes; a condition is marked independent exactly when two
    observations show it.

  \<^item> \<open>Setup_Manager\<close> (\<open>setup_manager.rs\<close>): setup contexts and failures per level; which contexts are active
    after a history, when a setup is refused, and the order of the context stack.

  \<^item> \<open>Shrink\<close> (\<open>shrink.rs\<close>): simpler witnesses for a path. The executor is called as often as reported and
    within the budget (interface \<open>counted_executor\<close>), and a returned witness was seen to take the path.

  \<^item> \<open>Boundary_Search\<close> (\<open>boundary_search.rs\<close>): interpolation between two witnesses and bisection by execution.
    Reported witnesses keep their side, and over one integer 64 executions end at adjacent values if each
    of them reaches the branch on a side that depends on the value only.

  \<^item> \<open>Frontier\<close> (\<open>frontier.rs\<close>): scored frontiers; ids stay unique, a pop takes a maximal score, and the score
    respects the documented priorities in floating point.

  \<^item> \<open>Solver_Overlay\<close> and \<open>Path_Conditions\<close> (\<open>orchestrator.rs\<close>): how a solution of the solver becomes inputs,
    and the query for an iteration at which a stalled branch in a loop takes its other side. This theory
    ends with the property that joins frontiers, execution records, unrolling and constraints.

  \<^bold>\<open>Bounds and termination.\<close> Loops are structural or have a termination proof; only \<open>strongconnect\<close> uses fuel,
  the number of nodes, and the properties of \<open>compute_sccs\<close> include that it returns. Loop templates have
  at most 32 snapshots, as the source requires.

  \<^bold>\<open>Not modelled.\<close> The asynchronous loops that drive frontend processes (\<open>explorer.rs\<close>, the \<open>explore\<close>
  functions of \<open>orchestrator.rs\<close>, \<open>scan_orchestrator.rs\<close>, \<open>pipeline.rs\<close>, \<open>frontend.rs\<close>) are communication with
  time-outs. The translation to Z3 (\<open>solver.rs\<close>) is an interface to a foreign library. Input generation and
  mutation (\<open>input_gen.rs\<close>, \<open>genetic.rs\<close>, \<open>fuzzer.rs\<close>, the value strategies) draw from random generators of
  another crate. Configuration, caches, checkpoints and manifests are file formats. Reports, exports and
  telemetry are rendering. The command line (\<open>shatter-cli\<close>), the language frontends (\<open>shatter-ts\<close>,
  \<open>shatter-go\<close>, \<open>shatter-rust\<close> with its runtime) and the LLM client (\<open>shatter-llm\<close>) are programs around the core.
  Serialization attributes (serde) are not modelled anywhere, except for the wire names of complex kinds.
\<close>

section \<open>Stalled loops\<close>

text \<open>C7: Suppose a query is built for a stalled frontier inside a loop. An assignment with a value k for
  the iteration satisfies all its constraints exactly when k is within the unroll depth, the loop bound
  admits the induction variable at iteration k, the branches before the target outside the loop take the
  sides they took, and the target branch takes the side it did not take, where the locals of the loop have
  the values of their closed forms at iteration k.\<close>

theorem stalled_loop_query_exact:
  assumes "stalled_loop_query order fr raw_results loops timeout = Some (li, t, cs)"
  shows "\<exists>result d f.
    stalled_witness fr raw_results = Some result \<and>
    find (\<lambda>d. bd_branch_id d = fr_branch_id fr) (xr_branch_path result) = Some d \<and>
    build_unrolled_formula t = Inr f \<and>
    (list_all (holds \<phi> (bind_int \<rho> (it_iteration_var t) k)) cs \<longleftrightarrow>
       list_all (\<lambda>p. takes \<phi> (loop_env \<phi> (bind_int \<rho> (it_iteration_var t) k) (uf_locals f)) p (bd_taken p))
         (prefix_decisions result (fr_branch_id fr) (lp_loop_id li)) \<and>
       0 \<le> k \<and> k < uint (it_iteration_count t) \<and>
       inside_bound \<phi> (bind_int \<rho> (it_iteration_var t) k) li (uf_locals f) \<and>
       takes \<phi> (loop_env \<phi> (bind_int \<rho> (it_iteration_var t) k) (uf_locals f)) d (\<not> bd_taken d))"
proof -
  from assms obtain result d f where parts: "stalled_witness fr raw_results = Some result"
      "find (\<lambda>d. bd_branch_id d = fr_branch_id fr) (xr_branch_path result) = Some d"
      "build_unrolled_formula t = Inr f" and cs: "stalled_constraints result d li f = Some cs"
    by (rule stalled_query_parts)
  have "bd_branch_id d = fr_branch_id fr" using parts(2) by (auto simp: find_Some_iff)
  moreover have "holds \<phi> (bind_int \<rho> (it_iteration_var t) k) (uf_iteration_bound f) \<longleftrightarrow> 0 \<le> k \<and> k < uint (it_iteration_count t)"
    using iteration_bound_value [of "unat (it_iteration_count t)" \<phi> \<rho> "it_iteration_var t" k]
      unsigned_less [of "it_iteration_count t", where 'a = nat]
    by (simp add: build_unrolled_lookup [OF parts(3)])
  ultimately show ?thesis
    using parts stalled_constraints_hold [OF cs, of \<phi> "bind_int \<rho> (it_iteration_var t) k"] by auto
qed

definition sample_decision :: branch_decision where
  "sample_decision = \<lparr>bd_branch_id = 7, bd_line = 4, bd_taken = False,
     bd_constraint = ScExpr (SeBinOp OpGt (SeParam ''sum'' []) (SeConst (CInt 100))), bd_conditions = None\<rparr>"

definition sample_result :: execute_result where
  "sample_result = default_result\<lparr>xr_branch_path := [sample_decision],
     xr_scope_events := [TeScope (LoopEnter 0), TeBranch sample_decision, TeScope (LoopExit 0)],
     xr_loop_body_states := sample_snapshots\<rparr>"

lemma sample_snapshots_loop: "filter (\<lambda>s. ls_loop_id s = 0) sample_snapshots = sample_snapshots" "length sample_snapshots = 3"
  by (simp_all add: sample_snapshots_def sample_snapshot_def)

lemma sample_bounded: "bounded_template None sample_template = sample_template\<lparr>it_iteration_count := 64\<rparr>"
  by (simp add: bounded_template_def bounded_unroll_depth_def DEFAULT_BOUNDED_UNROLL_DEPTH_def sample_template_def)

lemma sample_bounded_formula: "\<exists>f. build_unrolled_formula (sample_template\<lparr>it_iteration_count := 64\<rparr>) = Inr f"
  by (simp add: build_unrolled_formula_def sample_template_def sample_keys unroll_local_def)

lemma sample_query:
  "\<exists>cs. stalled_loop_query ascending (sample 7\<lparr>fr_best_prefix := []\<rparr>) [([], [], sample_result)] [sample_loop] None
     = Some (sample_loop, sample_template\<lparr>it_iteration_count := 64\<rparr>, cs)"
proof -
  obtain f where f: "build_unrolled_formula (sample_template\<lparr>it_iteration_count := 64\<rparr>) = Inr f"
    using sample_bounded_formula by blast
  have "''i'' |\<in>| fmdom (uf_locals f)" by (simp add: build_unrolled_lookup(2) [OF f] sample_template_def)
  then obtain e where e: "fmlookup (uf_locals f) ''i'' = Some e" by (auto simp: fmlookup_dom_iff)
  have ctx: "fmlookup (extract_loop_context (xr_scope_events sample_result)) 7 = Some {|0|}"
    by (simp add: extract_loop_context_def sample_result_def sample_decision_def)
  have asc: "ascending {|0|} = [0]" by (simp add: ascending_def sorted_list_of_fset.rep_eq)
  show ?thesis
    using f e ctx asc sample_extracted sample_bounded sample_snapshots_loop
    by (simp add: stalled_loop_query_def stalled_witness_def target_loop_def sample_def sample_result_def
        sample_decision_def sample_loop_def MIN_TEMPLATE_ITERATIONS_def ok_def stalled_constraints_def
        loop_bound_constraint_def)
qed

theorem stalled_loop_query_exact_witness:
  "\<exists>cs. stalled_loop_query ascending (sample 7\<lparr>fr_best_prefix := []\<rparr>) [([], [], sample_result)] [sample_loop] None
     = Some (sample_loop, sample_template\<lparr>it_iteration_count := 64\<rparr>, cs) \<and>
   \<not> list_all (holds (\<lambda>_ _ _. None) (bind_int sample_env ''__loop_0_iter'' 99)) cs"
proof -
  obtain cs where cs: "stalled_loop_query ascending (sample 7\<lparr>fr_best_prefix := []\<rparr>) [([], [], sample_result)] [sample_loop] None
     = Some (sample_loop, sample_template\<lparr>it_iteration_count := 64\<rparr>, cs)" using sample_query by blast
  from stalled_loop_query_exact [OF cs, of "\<lambda>_ _ _. None" sample_env 99] cs show ?thesis
    by (auto simp: sample_template_def)
qed

end
